(* ===== verification/Kernel_Prelude.thy ===== *)
theory Kernel_Prelude
  imports Main "HOL-Library.Word" "HOL-Library.Monad_Syntax"
begin

text \<open>
  What every component of the development shares: the machine types of the Rust sources, the
  \<open>Result\<close> type and a state/result monad for \<open>&mut self\<close> methods that return \<open>Result\<close>,
  little-endian encoding of integers (\<open>to_le_bytes\<close>, \<open>from_le_bytes\<close>), in-place updates of
  byte ranges (\<open>copy_from_slice\<close> into a sub-slice), bitmaps kept in arrays of 32- or 64-bit words,
  and \<open>Iterator::position\<close>.

  The kernel is built in the release profile, where integer arithmetic wraps; arithmetic that can
  reach the width of its type is therefore done on \<open>word\<close>. Indices, lengths and counters that are
  bounded by the length of a list of the model are \<open>nat\<close>.
\<close>

unbundle bit_operations_syntax

section \<open>Machine types\<close>

type_synonym u8 = "8 word"
type_synonym u16 = "16 word"
type_synonym u32 = "32 word"
type_synonym u64 = "64 word"

type_synonym bytes = "u8 list"

lemma unat_lt_u64: "unat (w :: u64) < 18446744073709551616"
  using unsigned_less [of w, where ?'a = nat] by simp

lemma unat_lt_u32: "unat (w :: u32) < 4294967296"
  using unsigned_less [of w, where ?'a = nat] by simp

lemma unat_lt_u16: "unat (w :: u16) < 65536"
  using unsigned_less [of w, where ?'a = nat] by simp

lemma unat_lt_u8: "unat (w :: u8) < 256"
  using unsigned_less [of w, where ?'a = nat] by simp

lemma unat_of_nat_small: "n < 2 ^ LENGTH('a::len) \<Longrightarrow> unat (of_nat n :: 'a word) = n"
  by (simp add: unsigned_of_nat take_bit_nat_eq_self)

named_theorems frame_simps \<open>what an operation leaves unchanged\<close>
named_theorems inv_intros \<open>every operation of a component keeps its invariant\<close>

section \<open>Results\<close>

abbreviation Err :: "'e \<Rightarrow> 'e + 'a" where "Err \<equiv> Inl"

abbreviation Ok :: "'a \<Rightarrow> 'e + 'a" where "Ok \<equiv> Inr"

fun is_ok :: "'e + 'a \<Rightarrow> bool" where
  "is_ok (Inl e) = False"
| "is_ok (Inr a) = True"

lemma is_ok_iff: "is_ok r \<longleftrightarrow> (\<exists>a. r = Ok a)"
  by (cases r) auto

text \<open>
  A method \<open>fn m(&mut self, ..) -> Result<T, E>\<close> is a function from the state to the result and the
  new state; \<open>None\<close> is a panic (an index out of range, a failed assertion). The state survives an
  error, as a field mutated before an early return does.
\<close>

type_synonym ('s, 'e, 'a) op = "'s \<Rightarrow> (('e + 'a) \<times> 's) option"

definition ret :: "'a \<Rightarrow> ('s, 'e, 'a) op" where
  "ret a = (\<lambda>s. Some (Ok a, s))"

definition fail :: "'e \<Rightarrow> ('s, 'e, 'a) op" where
  "fail e = (\<lambda>s. Some (Err e, s))"

text \<open>The \<open>?\<close> operator: continue with the value, or return the error at once.\<close>

definition andThen :: "('s, 'e, 'a) op \<Rightarrow> ('a \<Rightarrow> ('s, 'e, 'b) op) \<Rightarrow> ('s, 'e, 'b) op" where
  "andThen m f = (\<lambda>s. case m s of
     None \<Rightarrow> None
   | Some (Inl e, s') \<Rightarrow> Some (Err e, s')
   | Some (Inr a, s') \<Rightarrow> f a s')"

text \<open>\<open>if let Err(e) = m { .. }\<close>, \<open>match m { .. }\<close>: the result of a call as a value.\<close>

definition attempt :: "('s, 'e, 'a) op \<Rightarrow> ('s, 'f, 'e + 'a) op" where
  "attempt m = (\<lambda>s. map_option (\<lambda>(r, s'). (Ok r, s')) (m s))"

text \<open>A \<open>for\<close> loop whose body may return early with an error.\<close>

fun for_each :: "('a \<Rightarrow> ('s, 'e, unit) op) \<Rightarrow> 'a list \<Rightarrow> ('s, 'e, unit) op" where
  "for_each f [] = ret ()"
| "for_each f (x # xs) = andThen (f x) (\<lambda>_. for_each f xs)"

text \<open>A loop that pushes one value per round onto a vector.\<close>

fun map_each :: "('a \<Rightarrow> ('s, 'e, 'b) op) \<Rightarrow> 'a list \<Rightarrow> ('s, 'e, 'b list) op" where
  "map_each f [] = ret []"
| "map_each f (x # xs) = andThen (f x) (\<lambda>y. andThen (map_each f xs) (\<lambda>ys. ret (y # ys)))"

text \<open>
  Reading and assigning fields: an expression that cannot fail, one that can panic (\<open>None\<close>), one
  that is a \<open>Result\<close> and can panic, and an assignment.
\<close>

definition gets :: "('s \<Rightarrow> 'a) \<Rightarrow> ('s, 'e, 'a) op" where
  "gets f = (\<lambda>s. Some (Ok (f s), s))"

definition gets_opt :: "('s \<Rightarrow> 'a option) \<Rightarrow> ('s, 'e, 'a) op" where
  "gets_opt f = (\<lambda>s. map_option (\<lambda>a. (Ok a, s)) (f s))"

definition gets_res :: "('s \<Rightarrow> ('e + 'a) option) \<Rightarrow> ('s, 'e, 'a) op" where
  "gets_res f = (\<lambda>s. map_option (\<lambda>r. (r, s)) (f s))"

definition modify :: "('s \<Rightarrow> 's) \<Rightarrow> ('s, 'e, unit) op" where
  "modify f = (\<lambda>s. Some (Ok (), f s))"

lemma op_apply [simp]:
  "ret a s = Some (Ok a, s)"
  "fail e s = Some (Err e, s)"
  "gets f s = Some (Ok (f s), s)"
  "modify g s = Some (Ok (), g s)"
  by (simp_all add: ret_def fail_def gets_def modify_def)

lemma gets_opt_apply [simp]:
  "f s = Some a \<Longrightarrow> gets_opt f s = Some (Ok a, s)"
  "f s = None \<Longrightarrow> gets_opt f s = None"
  by (simp_all add: gets_opt_def)

lemma gets_res_apply [simp]:
  "g s = Some r \<Longrightarrow> gets_res g s = Some (r, s)"
  "g s = None \<Longrightarrow> gets_res g s = None"
  by (simp_all add: gets_res_def)

lemma andThen_simps [simp]:
  "m s = Some (Ok a, s') \<Longrightarrow> andThen m f s = f a s'"
  "m s = Some (Err e, s') \<Longrightarrow> andThen m f s = Some (Err e, s')"
  "m s = None \<Longrightarrow> andThen m f s = None"
  by (simp_all add: andThen_def)

lemma attempt_simps [simp]:
  "m s = Some (r, s') \<Longrightarrow> attempt m s = Some (Ok r, s')"
  "m s = None \<Longrightarrow> attempt m s = None"
  by (simp_all add: attempt_def)

lemma andThen_eq_Ok:
  "andThen m f s = Some (Ok b, s'') \<longleftrightarrow>
     (\<exists>a s'. m s = Some (Ok a, s') \<and> f a s' = Some (Ok b, s''))"
  by (auto simp: andThen_def split: prod.splits sum.splits option.splits)

lemma andThen_OkE:
  assumes "andThen m f s = Some (Ok b, s'')"
  obtains a s' where "m s = Some (Ok a, s')" "f a s' = Some (Ok b, s'')"
  using assms by (auto simp: andThen_eq_Ok)

lemma gets_opt_eq_Some: "gets_opt f s = Some (r, s') \<longleftrightarrow> (\<exists>a. f s = Some a \<and> r = Ok a \<and> s' = s)"
  by (auto simp: gets_opt_def)

lemma gets_res_eq_Some: "gets_res f s = Some (r, s') \<longleftrightarrow> f s = Some r \<and> s' = s"
  by (auto simp: gets_res_def)

lemma attempt_eq_Some: "attempt m s = Some (r, s') \<longleftrightarrow> (\<exists>q. m s = Some (q, s') \<and> r = Ok q)"
  by (auto simp: attempt_def)

subsection \<open>Total correctness\<close>

text \<open>
  From a state with \<open>P\<close> the method does not panic; an \<open>Ok a\<close> ends in \<open>Q a\<close>, an error \<open>e\<close> in \<open>E e\<close>.
\<close>

definition triple ::
  "('s \<Rightarrow> bool) \<Rightarrow> ('s, 'e, 'a) op \<Rightarrow> ('a \<Rightarrow> 's \<Rightarrow> bool) \<Rightarrow> ('e \<Rightarrow> 's \<Rightarrow> bool) \<Rightarrow> bool" where
  "triple P m Q E \<longleftrightarrow> (\<forall>s. P s \<longrightarrow>
     (\<exists>r s'. m s = Some (r, s') \<and> (case r of Inl e \<Rightarrow> E e s' | Inr a \<Rightarrow> Q a s')))"

lemma tripleI:
  assumes "\<And>s. P s \<Longrightarrow> (\<exists>a s'. m s = Some (Ok a, s') \<and> Q a s') \<or> (\<exists>e s'. m s = Some (Err e, s') \<and> E e s')"
  shows "triple P m Q E"
  unfolding triple_def
proof (intro allI impI)
  fix s
  assume "P s"
  from assms [OF this]
  show "\<exists>r s'. m s = Some (r, s') \<and> (case r of Inl e \<Rightarrow> E e s' | Inr a \<Rightarrow> Q a s')"
    by (elim disjE exE conjE) auto
qed

lemma tripleE:
  assumes "triple P m Q E" and "P s"
  obtains (Ok) a s' where "m s = Some (Ok a, s')" "Q a s'"
        | (Err) e s' where "m s = Some (Err e, s')" "E e s'"
proof -
  from assms obtain r s' where r: "m s = Some (r, s')" "case r of Inl e \<Rightarrow> E e s' | Inr a \<Rightarrow> Q a s'"
    unfolding triple_def by blast
  show ?thesis
  proof (cases r)
    case (Inl e)
    with r show ?thesis by (intro Err [of e s']) simp_all
  next
    case (Inr a)
    with r show ?thesis by (intro Ok [of a s']) simp_all
  qed
qed

lemma triple_OkD:
  "triple P m Q E \<Longrightarrow> P s \<Longrightarrow> m s = Some (Ok a, s') \<Longrightarrow> Q a s'"
  unfolding triple_def by force

lemma triple_ErrD:
  "triple P m Q E \<Longrightarrow> P s \<Longrightarrow> m s = Some (Err e, s') \<Longrightarrow> E e s'"
  unfolding triple_def by force

lemma triple_weaken:
  assumes "triple P m Q E" and "\<And>s. P' s \<Longrightarrow> P s"
    and "\<And>a s. Q a s \<Longrightarrow> Q' a s" and "\<And>e s. E e s \<Longrightarrow> E' e s"
  shows "triple P' m Q' E'"
proof (rule tripleI)
  fix s
  assume "P' s"
  then have "P s" by (rule assms(2))
  with assms(1) show "(\<exists>a s'. m s = Some (Ok a, s') \<and> Q' a s') \<or> (\<exists>e s'. m s = Some (Err e, s') \<and> E' e s')"
    by (elim tripleE) (use assms(3,4) in blast)+
qed

lemma triple_ret: "(\<And>s. P s \<Longrightarrow> Q a s) \<Longrightarrow> triple P (ret a) Q E"
  by (rule tripleI) simp

lemma triple_fail: "(\<And>s. P s \<Longrightarrow> E e s) \<Longrightarrow> triple P (fail e) Q E"
  by (rule tripleI) simp

lemma triple_gets: "(\<And>s. P s \<Longrightarrow> Q (f s) s) \<Longrightarrow> triple P (gets f) Q E"
  by (rule tripleI) simp

lemma triple_modify: "(\<And>s. P s \<Longrightarrow> Q () (f s)) \<Longrightarrow> triple P (modify f) Q E"
  by (rule tripleI) simp

lemma triple_gets_opt: "(\<And>s. P s \<Longrightarrow> \<exists>a. f s = Some a \<and> Q a s) \<Longrightarrow> triple P (gets_opt f) Q E"
  by (rule tripleI) fastforce

lemma triple_gets_res:
  assumes "\<And>s. P s \<Longrightarrow> (\<exists>a. f s = Some (Ok a) \<and> Q a s) \<or> (\<exists>e. f s = Some (Err e) \<and> E e s)"
  shows "triple P (gets_res f) Q E"
proof (rule tripleI)
  fix s
  assume "P s"
  from assms [OF this]
  show "(\<exists>a s'. gets_res f s = Some (Ok a, s') \<and> Q a s') \<or> (\<exists>e s'. gets_res f s = Some (Err e, s') \<and> E e s')"
    by (elim disjE exE conjE) simp_all
qed

lemma triple_andThen:
  assumes "triple P m R E" and "\<And>a. triple (R a) (f a) Q E"
  shows "triple P (andThen m f) Q E"
proof (rule tripleI)
  fix s
  assume "P s"
  with assms(1)
  show "(\<exists>b s'. andThen m f s = Some (Ok b, s') \<and> Q b s') \<or> (\<exists>e s'. andThen m f s = Some (Err e, s') \<and> E e s')"
  proof (cases rule: tripleE)
    case (Ok a s')
    from assms(2) [of a] Ok(2) show ?thesis
      by (cases rule: tripleE) (simp_all add: Ok(1))
  next
    case (Err e s')
    then show ?thesis by simp
  qed
qed

lemma triple_attempt:
  assumes "triple P m Q E"
  shows "triple P (attempt m) (\<lambda>r s. case r of Inl e \<Rightarrow> E e s | Inr a \<Rightarrow> Q a s) F"
proof (rule tripleI)
  fix s
  assume "P s"
  with assms
  show "(\<exists>r s'. attempt m s = Some (Ok r, s') \<and> (case r of Inl e \<Rightarrow> E e s' | Inr a \<Rightarrow> Q a s'))
      \<or> (\<exists>f s'. attempt m s = Some (Err f, s') \<and> F f s')"
    by (cases rule: tripleE) auto
qed

text \<open>
  The loop rule: \<open>I\<close> relates the state to the elements that have been processed.
\<close>

lemma triple_for_each:
  assumes "\<And>ys x zs. xs = ys @ x # zs \<Longrightarrow> triple (I ys) (f x) (\<lambda>_. I (ys @ [x])) E"
  shows "triple (I []) (for_each f xs) (\<lambda>_. I xs) E"
proof -
  have "triple (I ys) (for_each f zs) (\<lambda>_. I xs) E" if "xs = ys @ zs" for ys zs
    using that
  proof (induction zs arbitrary: ys)
    case Nil
    then show ?case unfolding for_each.simps by (intro triple_ret) simp
  next
    case (Cons z zs)
    have "triple (I ys) (f z) (\<lambda>_. I (ys @ [z])) E" by (rule assms) (use Cons.prems in simp)
    moreover have "triple (I (ys @ [z])) (for_each f zs) (\<lambda>_. I xs) E"
      by (rule Cons.IH) (use Cons.prems in simp)
    ultimately show ?case unfolding for_each.simps by (rule triple_andThen)
  qed
  from this [of "[]" xs] show ?thesis by simp
qed

lemma triple_for_each_inv:
  assumes "\<And>x. x \<in> set xs \<Longrightarrow> triple I (f x) (\<lambda>_. I) E"
  shows "triple I (for_each f xs) (\<lambda>_. I) E"
  by (rule triple_for_each [where I = "\<lambda>_. I"]) (use assms in simp)

lemma triple_if:
  "(b \<Longrightarrow> triple P m Q E) \<Longrightarrow> (\<not> b \<Longrightarrow> triple P n Q E) \<Longrightarrow> triple P (if b then m else n) Q E"
  by simp

section \<open>Little-endian integers\<close>

text \<open>\<open>w.to_le_bytes()\<close> for a word of \<open>n\<close> bytes, and \<open>from_le_bytes\<close>.\<close>

definition to_le :: "nat \<Rightarrow> 'a::len word \<Rightarrow> bytes" where
  "to_le n w = map (\<lambda>i. ucast (drop_bit (8 * i) w)) [0..<n]"

fun from_le :: "bytes \<Rightarrow> 'a::len word" where
  "from_le [] = 0"
| "from_le (b # bs) = ucast b OR push_bit 8 (from_le bs)"

lemma length_to_le [simp]: "length (to_le n w) = n"
  by (simp add: to_le_def)

lemma nth_to_le [simp]: "i < n \<Longrightarrow> to_le n w ! i = ucast (drop_bit (8 * i) w)"
  by (simp add: to_le_def)

lemma bit_from_le:
  "bit (from_le bs :: 'a::len word) i \<longleftrightarrow>
     i < LENGTH('a) \<and> i div 8 < length bs \<and> bit (bs ! (i div 8)) (i mod 8)"
proof (induction bs arbitrary: i)
  case Nil
  then show ?case by simp
next
  case (Cons b bs)
  show ?case
  proof (cases "i < 8")
    case True
    then show ?thesis
      by (auto simp: bit_or_iff bit_push_bit_iff bit_ucast_iff dest: bit_imp_le_length)
  next
    case False
    then have eqs: "i div 8 = Suc ((i - 8) div 8)" "i mod 8 = (i - 8) mod 8"
      by (simp_all add: div_if mod_if)
    have "\<not> bit b i" using False by (auto dest: bit_imp_le_length)
    with False show ?thesis
      by (auto simp: bit_or_iff bit_push_bit_iff bit_ucast_iff Cons.IH eqs)
  qed
qed

lemma from_le_to_le: "from_le (to_le n (w :: 'a::len word)) = take_bit (8 * n) w"
proof (rule bit_word_eqI)
  fix i
  assume i: "i < LENGTH('a)"
  have "i div 8 < n \<longleftrightarrow> i < 8 * n" by auto
  moreover have "8 * (i div 8) + i mod 8 = i" by simp
  ultimately show "bit (from_le (to_le n w) :: 'a word) i = bit (take_bit (8 * n) w) i"
    using i by (auto simp: bit_from_le bit_take_bit_iff bit_ucast_iff bit_drop_bit_eq)
qed

lemma from_le_to_le_id:
  "LENGTH('a::len) \<le> 8 * n \<Longrightarrow> from_le (to_le n (w :: 'a word)) = w"
  by (simp add: from_le_to_le take_bit_word_eq_self)

lemma from_le_to_le_widths [simp]:
  "from_le (to_le 2 (w16 :: u16)) = w16"
  "from_le (to_le 4 (w32 :: u32)) = w32"
  "from_le (to_le 8 (w64 :: u64)) = w64"
  by (simp_all add: from_le_to_le_id)

lemma to_le_from_le:
  assumes "length bs = n" and "8 * n \<le> LENGTH('a::len)"
  shows "to_le n (from_le bs :: 'a word) = bs"
proof (rule nth_equalityI)
  show "length (to_le n (from_le bs :: 'a word)) = length bs" using assms by simp
next
  fix i
  assume "i < length (to_le n (from_le bs :: 'a word))"
  then have i: "i < n" by simp
  show "to_le n (from_le bs :: 'a word) ! i = bs ! i"
  proof (rule bit_word_eqI)
    fix k
    assume "k < LENGTH(8)"
    then have k: "k < 8" by simp
    then have "(8 * i + k) div 8 = i" "(8 * i + k) mod 8 = k" by simp_all
    moreover have "8 * i + k < LENGTH('a)" using i k assms by linarith
    ultimately show "bit (to_le n (from_le bs :: 'a word) ! i) k = bit (bs ! i) k"
      using i k assms(1) by (simp add: bit_ucast_iff bit_drop_bit_eq bit_from_le)
  qed
qed

section \<open>Byte ranges\<close>

text \<open>\<open>&xs[off..off + n]\<close> for a range inside the slice.\<close>

definition subrange :: "nat \<Rightarrow> nat \<Rightarrow> 'a list \<Rightarrow> 'a list" where
  "subrange off n xs = take n (drop off xs)"

text \<open>\<open>xs[off..off + ys.len()].copy_from_slice(ys)\<close> for a range inside the slice.\<close>

definition put_at :: "nat \<Rightarrow> 'a list \<Rightarrow> 'a list \<Rightarrow> 'a list" where
  "put_at off ys xs = take off xs @ ys @ drop (off + length ys) xs"

lemma length_subrange [simp]: "length (subrange off n xs) = min n (length xs - off)"
  by (simp add: subrange_def)

lemma nth_subrange [simp]: "i < n \<Longrightarrow> off + i < length xs \<Longrightarrow> subrange off n xs ! i = xs ! (off + i)"
  by (simp add: subrange_def)

lemma length_put_at [simp]: "off + length ys \<le> length xs \<Longrightarrow> length (put_at off ys xs) = length xs"
  by (simp add: put_at_def)

lemma nth_put_at:
  assumes "off + length ys \<le> length xs" and "i < length xs"
  shows "put_at off ys xs ! i =
    (if off \<le> i \<and> i < off + length ys then ys ! (i - off) else xs ! i)"
  using assms by (auto simp: put_at_def nth_append min_def)

lemma nth_put_at_outside:
  "off + length ys \<le> length xs \<Longrightarrow> i < length xs \<Longrightarrow> i < off \<or> off + length ys \<le> i \<Longrightarrow>
     put_at off ys xs ! i = xs ! i"
  by (auto simp: nth_put_at)

lemma subrange_put_at_same [simp]:
  "off + length ys \<le> length xs \<Longrightarrow> n = length ys \<Longrightarrow> subrange off n (put_at off ys xs) = ys"
  by (rule nth_equalityI) (auto simp: nth_put_at)

lemma subrange_put_at_other:
  assumes "off + length ys \<le> length xs" and "o' + n \<le> off \<or> off + length ys \<le> o'" and "o' + n \<le> length xs"
  shows "subrange o' n (put_at off ys xs) = subrange o' n xs"
  using assms by (intro nth_equalityI) (auto simp: nth_put_at)

lemma put_at_subrange_id: "off + n \<le> length xs \<Longrightarrow> put_at off (subrange off n xs) xs = xs"
  by (rule nth_equalityI) (auto simp: nth_put_at)

lemma subrange_full [simp]: "subrange 0 (length xs) xs = xs"
  by (simp add: subrange_def)

section \<open>Searching\<close>

text \<open>The successor of a machine word that is not the largest one.\<close>

lemma unat_inc: "(n :: 'a :: len word) \<noteq> - 1 \<Longrightarrow> unat (n + 1) = Suc (unat n)"
proof -
  assume "n \<noteq> - 1"
  then have "n < - 1" by (simp add: word_order.not_eq_extremum)
  then have "unat n < 2 ^ LENGTH('a) - 1" by (simp add: word_less_nat_alt unsigned_minus_1_eq_mask mask_eq_exp_minus_1)
  then show ?thesis by (simp add: unat_word_ariths(1))
qed

lemma less_inc_iff: "(n :: 'a :: len word) \<noteq> - 1 \<Longrightarrow> x < n + 1 \<longleftrightarrow> x \<le> n"
  by (simp add: word_less_nat_alt word_le_nat_alt unat_inc less_Suc_eq_le)

lemma inc_le_iff: "(n :: 'a :: len word) \<noteq> - 1 \<Longrightarrow> n + 1 \<le> x \<longleftrightarrow> n < x"
  by (simp add: word_less_nat_alt word_le_nat_alt unat_inc Suc_le_eq)
text \<open>\<open>xs[i]\<close>: an index out of range panics (\<open>None\<close>).\<close>

definition idx :: "'a list \<Rightarrow> nat \<Rightarrow> 'a option" where
  "idx xs i = (if i < length xs then Some (xs ! i) else None)"

lemma idx_in [simp]: "i < length xs \<Longrightarrow> idx xs i = Some (xs ! i)"
  by (simp add: idx_def)

lemma idx_eq_Some [simp]: "idx xs i = Some x \<longleftrightarrow> i < length xs \<and> x = xs ! i"
  by (auto simp: idx_def)

lemma nth_upd: "j < length xs \<Longrightarrow> xs[i := x] ! j = (if i = j then x else xs ! j)"
  by (cases "i = j") auto

lemma idx_eq_None [simp]: "idx xs i = None \<longleftrightarrow> length xs \<le> i"
  by (auto simp: idx_def)

lemma find_SomeD: "find P xs = Some x \<Longrightarrow> x \<in> set xs \<and> P x"
  by (induction xs) (auto split: if_splits)

text \<open>\<open>iter().position(p)\<close>.\<close>

fun position :: "('a \<Rightarrow> bool) \<Rightarrow> 'a list \<Rightarrow> nat option" where
  "position p [] = None"
| "position p (x # xs) = (if p x then Some 0 else map_option Suc (position p xs))"

lemma position_None_iff: "position p xs = None \<longleftrightarrow> (\<forall>x\<in>set xs. \<not> p x)"
  by (induction xs) auto

lemma position_SomeD:
  "position p xs = Some i \<Longrightarrow> i < length xs \<and> p (xs ! i) \<and> (\<forall>j<i. \<not> p (xs ! j))"
proof (induction xs arbitrary: i)
  case Nil
  then show ?case by simp
next
  case (Cons x xs)
  show ?case
  proof (cases "p x")
    case True
    with Cons.prems show ?thesis by auto
  next
    case False
    with Cons.prems obtain k where k: "position p xs = Some k" "i = Suc k" by auto
    from Cons.IH [OF k(1)] False show ?thesis
      by (auto simp: k(2) less_Suc_eq_0_disj)
  qed
qed

lemma position_Some_intro:
  "i < length xs \<Longrightarrow> p (xs ! i) \<Longrightarrow> (\<And>j. j < i \<Longrightarrow> \<not> p (xs ! j)) \<Longrightarrow> position p xs = Some i"
proof (induction xs arbitrary: i)
  case Nil
  then show ?case by simp
next
  case (Cons x xs)
  show ?case
  proof (cases i)
    case 0
    with Cons.prems show ?thesis by simp
  next
    case (Suc k)
    have "\<not> p x" using Cons.prems(3) [of 0] Suc by simp
    moreover have "position p xs = Some k"
    proof (rule Cons.IH)
      show "k < length xs" "p (xs ! k)" using Cons.prems Suc by simp_all
      show "\<not> p (xs ! j)" if "j < k" for j
        using Cons.prems(3) [of "Suc j"] Suc that by simp
    qed
    ultimately show ?thesis using Suc by simp
  qed
qed

lemma position_ex: "x \<in> set xs \<Longrightarrow> p x \<Longrightarrow> \<exists>i. position p xs = Some i"
  using position_None_iff [of p xs] by (cases "position p xs") auto

section \<open>Bitmaps in arrays of words\<close>

text \<open>
  \<open>bm[i / W] & (1 << (i % W)) != 0\<close>, \<open>bm[i / W] |= 1 << (i % W)\<close> and
  \<open>bm[i / W] &= !(1 << (i % W))\<close> for an array of \<open>W\<close>-bit words.
\<close>

definition bm_test :: "'a::len word list \<Rightarrow> nat \<Rightarrow> bool" where
  "bm_test bm i = (bm ! (i div LENGTH('a)) AND push_bit (i mod LENGTH('a)) 1 \<noteq> 0)"

definition bm_set :: "'a::len word list \<Rightarrow> nat \<Rightarrow> 'a word list" where
  "bm_set bm i = bm[i div LENGTH('a) := bm ! (i div LENGTH('a)) OR push_bit (i mod LENGTH('a)) 1]"

definition bm_clear :: "'a::len word list \<Rightarrow> nat \<Rightarrow> 'a word list" where
  "bm_clear bm i = bm[i div LENGTH('a) := bm ! (i div LENGTH('a)) AND NOT (push_bit (i mod LENGTH('a)) 1)]"

lemma bit_2_power_iff [simp]: "bit ((2 :: 'a::len word) ^ n) i \<longleftrightarrow> i = n \<and> n < LENGTH('a)"
  by (auto simp: bit_exp_iff)

lemma and_2_power_iff:
  "(w :: 'a::len word) AND 2 ^ n \<noteq> 0 \<longleftrightarrow> bit w n"
proof -
  have "bit (w AND 2 ^ n) i \<longleftrightarrow> i = n \<and> bit w n" for i
    by (auto simp: bit_and_iff dest: bit_imp_le_length)
  then show ?thesis by (metis bit_0_eq bot_apply bot_bool_def bit_eq_iff)
qed

lemma bm_test_bit: "bm_test (bm :: 'a::len word list) i \<longleftrightarrow> bit (bm ! (i div LENGTH('a))) (i mod LENGTH('a))"
  by (simp add: bm_test_def and_2_power_iff)

lemma length_bm_set [simp]: "length (bm_set bm i) = length bm"
  by (simp add: bm_set_def)

lemma length_bm_clear [simp]: "length (bm_clear bm i) = length bm"
  by (simp add: bm_clear_def)

lemma div_mod_eq_iff: "(i :: nat) div d = j div d \<and> i mod d = j mod d \<longleftrightarrow> i = j"
  by (metis div_mult_mod_eq)

lemma bm_test_set:
  fixes bm :: "'a::len word list"
  assumes "i div LENGTH('a) < length bm"
  shows "bm_test (bm_set bm i) j \<longleftrightarrow> j = i \<or> bm_test bm j"
proof (cases "j div LENGTH('a) = i div LENGTH('a)")
  case True
  have "j mod LENGTH('a) < LENGTH('a)" by simp
  with assms True show ?thesis
    using div_mod_eq_iff [of j "LENGTH('a)" i]
    by (auto simp: bm_test_bit bm_set_def bit_or_iff)
next
  case False
  then show ?thesis by (auto simp: bm_test_bit bm_set_def)
qed

lemma bm_test_clear:
  fixes bm :: "'a::len word list"
  assumes "i div LENGTH('a) < length bm"
  shows "bm_test (bm_clear bm i) j \<longleftrightarrow> j \<noteq> i \<and> bm_test bm j"
proof (cases "j div LENGTH('a) = i div LENGTH('a)")
  case True
  have "j mod LENGTH('a) < LENGTH('a)" by simp
  with assms True show ?thesis
    using div_mod_eq_iff [of j "LENGTH('a)" i]
    by (auto simp: bm_test_bit bm_clear_def bit_and_iff bit_not_iff)
next
  case False
  then show ?thesis by (auto simp: bm_test_bit bm_clear_def)
qed

end
