(* ===== verification/Nospec.thy ===== *)
theory Nospec
  imports Kernel_Prelude
begin

text \<open>
  Speculation-safe index masking (\<open>src/src/arch/amd64/nospec.rs\<close>, \<open>src/src/arch/arm64/nospec.rs\<close>)
  and the user-pointer bounds that use it (\<open>src/src/memory/user_bounds.rs\<close>). The assembly computes
  an all-ones word when \<open>index < size\<close> (unsigned) and zero otherwise: \<open>sbb mask, mask\<close> after
  \<open>cmp index, size\<close> on amd64, \<open>csetm mask, lo\<close> on arm64.
\<close>

section \<open>Definitions\<close>

definition array_index_mask_nospec :: "u64 \<Rightarrow> u64 \<Rightarrow> u64" where
  "array_index_mask_nospec index n = (if index < n then - 1 else 0)"

definition array_index_nospec :: "u64 \<Rightarrow> u64 \<Rightarrow> u64" where
  "array_index_nospec index n = index AND array_index_mask_nospec index n"

definition bounds_ok :: "u64 \<Rightarrow> u64 \<Rightarrow> u64 \<Rightarrow> u64 \<Rightarrow> bool" where
  "bounds_ok ptr len base end = (len = 0 \<or> (ptr \<ge> base \<and> ptr < end \<and> len \<le> end - ptr))"

definition mask_user_ptr :: "u64 \<Rightarrow> u64 \<Rightarrow> u64 \<Rightarrow> u64 \<Rightarrow> u64" where
  "mask_user_ptr ptr len base end =
     (let start = array_index_mask_nospec (ptr - base) (end - base);
          length = array_index_mask_nospec len (end - ptr + 1);
          mask = start AND length
      in (ptr AND mask) OR (end AND NOT mask))"

section \<open>Lemmas\<close>

lemma array_index_nospec_in [simp]: "index < n \<Longrightarrow> array_index_nospec index n = index"
  by (simp add: array_index_nospec_def array_index_mask_nospec_def)

lemma array_index_nospec_out [simp]: "\<not> index < n \<Longrightarrow> array_index_nospec index n = 0"
  by (simp add: array_index_nospec_def array_index_mask_nospec_def)

lemma bounds_ok_iff:
  assumes "base \<le> end"
  shows "bounds_ok ptr len base end \<longleftrightarrow>
    len = 0 \<or> (unat base \<le> unat ptr \<and> unat ptr < unat end \<and> unat ptr + unat len \<le> unat end)"
proof (cases "ptr < end")
  case True
  then have "unat (end - ptr) = unat end - unat ptr"
    by (simp add: unat_sub_if' word_less_nat_alt)
  moreover have "unat ptr < unat end" using True by (simp add: word_less_nat_alt)
  ultimately show ?thesis by (auto simp: bounds_ok_def word_le_nat_alt word_less_nat_alt)
next
  case False
  then show ?thesis by (auto simp: bounds_ok_def word_less_nat_alt)
qed

lemma mask_user_ptr_cases:
  "mask_user_ptr ptr len base end =
     (if ptr - base < end - base \<and> len < end - ptr + 1 then ptr else end)"
  by (simp add: mask_user_ptr_def array_index_mask_nospec_def)

lemma in_window_iff:
  fixes ptr :: u64
  assumes "base \<le> end"
  shows "ptr - base < end - base \<longleftrightarrow> base \<le> ptr \<and> ptr < end"
proof (cases "base \<le> ptr")
  case True
  then have "unat (ptr - base) = unat ptr - unat base"
    by (simp add: unat_sub_if' word_le_nat_alt)
  moreover have "unat (end - base) = unat end - unat base"
    using assms by (simp add: unat_sub_if' word_le_nat_alt)
  ultimately show ?thesis using True by (auto simp: word_less_nat_alt word_le_nat_alt)
next
  case False
  then have "unat (ptr - base) = unat ptr + 18446744073709551616 - unat base"
    by (simp add: unat_sub_if' word_le_nat_alt)
  moreover have "unat (end - base) = unat end - unat base"
    using assms by (simp add: unat_sub_if' word_le_nat_alt)
  moreover have "unat end < 18446744073709551616" by (rule unat_lt_u64)
  ultimately have "\<not> ptr - base < end - base"
    using False by (simp add: word_less_nat_alt word_le_nat_alt)
  with False show ?thesis by simp
qed

lemma len_fits_iff:
  fixes ptr :: u64
  assumes "ptr < end" and "0 < ptr"
  shows "len < end - ptr + 1 \<longleftrightarrow> unat ptr + unat len \<le> unat end"
proof -
  have sub: "unat (end - ptr) = unat end - unat ptr"
    using assms by (simp add: unat_sub_if' word_less_nat_alt)
  have "unat end < 18446744073709551616" by (rule unat_lt_u64)
  moreover have "0 < unat ptr" using assms(2) by (simp add: word_less_nat_alt)
  ultimately have "unat (end - ptr) + 1 < 18446744073709551616"
    using sub assms(1) by (simp add: word_less_nat_alt)
  then have "unat (end - ptr + 1) = unat end - unat ptr + 1"
    using sub by (simp add: unat_word_ariths)
  then show ?thesis using assms(1) by (auto simp: word_less_nat_alt)
qed

text \<open>
  The mask agrees with the architectural bounds check: a pointer that passes \<open>bounds_ok\<close> is left
  alone, one whose range leaves the window becomes the window's (unmapped) end.
\<close>

lemma mask_user_ptr_bounds_ok:
  assumes "0 < base" and "base \<le> end" and "0 < len" and "bounds_ok ptr len base end"
  shows "mask_user_ptr ptr len base end = ptr"
proof -
  from assms have "base \<le> ptr" "ptr < end" "unat ptr + unat len \<le> unat end"
    by (auto simp: bounds_ok_iff word_le_nat_alt word_less_nat_alt)
  moreover have "0 < ptr" using assms(1) \<open>base \<le> ptr\<close> by (rule less_le_trans)
  ultimately show ?thesis
    using assms by (simp add: mask_user_ptr_cases in_window_iff len_fits_iff)
qed

lemma mask_user_ptr_out_of_bounds:
  assumes "0 < base" and "base \<le> end" and "\<not> bounds_ok ptr len base end"
  shows "mask_user_ptr ptr len base end = end"
proof -
  have "\<not> (base \<le> ptr \<and> ptr < end \<and> len < end - ptr + 1)"
  proof
    assume h: "base \<le> ptr \<and> ptr < end \<and> len < end - ptr + 1"
    with assms(1) have "0 < ptr" by (auto intro: less_le_trans)
    with h have "unat ptr + unat len \<le> unat end" using len_fits_iff [of ptr "end" len] by blast
    with h assms show False
      by (auto simp: bounds_ok_iff word_le_nat_alt word_less_nat_alt)
  qed
  then show ?thesis using assms by (auto simp: mask_user_ptr_cases in_window_iff)
qed

end
