(* ===== verification/Rqb.thy ===== *)
theory Rqb
  imports Nospec
begin

text \<open>
  The request block of the message-passing IPC (\<open>src/src/scheduler/rqb.rs\<close>): status codes, the
  message itself and its payload accessors. A panic of the Rust code is \<open>None\<close>.
\<close>

section \<open>Definitions\<close>

definition RQB_DATA_SIZE :: nat where
  "RQB_DATA_SIZE = 64"

datatype RqbStatus =
  Success | GeneralFailure | InvalidService | InvalidParam | Timeout | NoMemory
| AccessDenied | NotFound | Busy | Aborted

text \<open>\<open>status as u16\<close>.\<close>

fun status_code :: "RqbStatus \<Rightarrow> u16" where
  "status_code Success = 0"
| "status_code GeneralFailure = 1"
| "status_code InvalidService = 2"
| "status_code InvalidParam = 3"
| "status_code Timeout = 4"
| "status_code NoMemory = 5"
| "status_code AccessDenied = 6"
| "status_code NotFound = 7"
| "status_code Busy = 8"
| "status_code Aborted = 9"

text \<open>\<open>RqbStatus::from(v)\<close>.\<close>

definition status_from :: "u16 \<Rightarrow> RqbStatus" where
  "status_from v =
     (if v = 0 then Success else if v = 1 then GeneralFailure else if v = 2 then InvalidService
      else if v = 3 then InvalidParam else if v = 4 then Timeout else if v = 5 then NoMemory
      else if v = 6 then AccessDenied else if v = 7 then NotFound else if v = 8 then Busy
      else if v = 9 then Aborted else GeneralFailure)"

record Rqb =
  rqb_service :: u16
  rqb_status :: u16
  rqb_sender_id :: u32
  rqb_receiver_id :: u32
  rqb_data_size :: u16
  rqb_reserved :: "u16 list"
  rqb_data :: bytes

definition rqb_new :: Rqb where
  "rqb_new = \<lparr>rqb_service = 0, rqb_status = 0, rqb_sender_id = 0, rqb_receiver_id = 0,
     rqb_data_size = 0, rqb_reserved = replicate 2 0, rqb_data = replicate RQB_DATA_SIZE 0\<rparr>"

definition with_service :: "u16 \<Rightarrow> Rqb" where
  "with_service service = rqb_new\<lparr>rqb_service := service\<rparr>"

text \<open>
  \<open>set_data\<close> copies the whole slice into \<open>self.data[..len]\<close> where \<open>len\<close> is the minimum of the
  slice's length and 64. \<open>copy_from_slice\<close> panics when the two lengths differ.
\<close>

definition set_data :: "Rqb \<Rightarrow> bytes \<Rightarrow> Rqb option" where
  "set_data r d =
     (let len = min (length d) RQB_DATA_SIZE
      in if len \<noteq> length d then None
         else Some (r\<lparr>rqb_data := put_at 0 d (rqb_data r), rqb_data_size := of_nat len\<rparr>))"


definition set_status :: "Rqb \<Rightarrow> RqbStatus \<Rightarrow> Rqb" where
  "set_status r st = r\<lparr>rqb_status := status_code st\<rparr>"

definition rqb_is_ok :: "Rqb \<Rightarrow> bool" where
  "rqb_is_ok r = (rqb_status r = status_code Success)"

definition SVC_TEXT_UPPER :: u16 where "SVC_TEXT_UPPER = 0x0300"

definition SVC_TEXT_REVERSE :: u16 where "SVC_TEXT_REVERSE = 0x0301"

definition SVC_TEXT_SHUTDOWN :: u16 where "SVC_TEXT_SHUTDOWN = 0x03FF"

text \<open>The array \<open>data: [u8; 64]\<close> always holds 64 bytes, \<open>reserved\<close> two words.\<close>

definition rqb_wf :: "Rqb \<Rightarrow> bool" where
  "rqb_wf r \<longleftrightarrow> length (rqb_data r) = RQB_DATA_SIZE \<and> length (rqb_reserved r) = 2"

section \<open>Lemmas\<close>

lemma status_from_code [simp]: "status_from (status_code st) = st"
  by (cases st) (simp_all add: status_from_def)

lemma rqb_wf_new [simp]: "rqb_wf rqb_new"
  by (simp add: rqb_wf_def rqb_new_def)

lemma rqb_wf_with_service [simp]: "rqb_wf (with_service sv)"
  by (simp add: rqb_wf_def with_service_def rqb_new_def)

lemma rqb_wf_set_status [simp]: "rqb_wf (set_status r st) = rqb_wf r"
  by (simp add: rqb_wf_def set_status_def)

lemma rqb_wf_set_data: "rqb_wf r \<Longrightarrow> set_data r d = Some r' \<Longrightarrow> rqb_wf r'"
  by (auto simp: set_data_def Let_def rqb_wf_def min_def split: if_splits)





end
