(* ===== verification/Scheduler.thy ===== *)
theory Scheduler
  imports Rqb
begin

text \<open>
  The SMP scheduler and its blocking IPC primitives (\<open>src/src/scheduler/task.rs\<close>,
  \<open>src/src/scheduler/mod.rs\<close>, \<open>src/src/arch/amd64/context.rs\<close>), for the amd64 configuration: the
  fields and statements under \<open>cfg(target_arch = "aarch64")\<close> are absent.

  The global scheduler, the statics it shares with the module (\<open>JIFFIES\<close>, \<open>NEXT_TASK_ID\<close>,
  \<open>REAPING\<close>) and the log of what it asks the architecture to do form one record. Every method
  that runs under the scheduler lock is one function on that record; a Rust panic (an index out of
  range, \<open>expect\<close>) is \<open>None\<close>. CPU numbers and task indices are \<open>nat\<close>. Log lines are not modelled.
\<close>

section \<open>Data\<close>

datatype TaskState = Ready | Running | WaitingRqb | Sleeping | Exited | Blocked | WaitingReply

definition is_active :: "TaskState \<Rightarrow> bool" where
  "is_active st = (st = Ready \<or> st = Running)"

definition PRIORITY_HIGHEST :: u8 where "PRIORITY_HIGHEST = 0"

definition PRIORITY_DEFAULT :: u8 where "PRIORITY_DEFAULT = 16"

definition PRIORITY_LOWEST :: u8 where "PRIORITY_LOWEST = 31"

definition PRIORITY_IDLE :: u8 where "PRIORITY_IDLE = 31"

text \<open>The register frame the interrupt stubs push; \<open>size_of::<TaskContext>()\<close> is 160.\<close>

record TaskContext =
  c_r15 :: u64  c_r14 :: u64  c_r13 :: u64  c_r12 :: u64  c_r11 :: u64
  c_r10 :: u64  c_r9 :: u64  c_r8 :: u64  c_rdi :: u64  c_rsi :: u64
  c_rbp :: u64  c_rbx :: u64  c_rdx :: u64  c_rcx :: u64  c_rax :: u64
  c_rip :: u64  c_cs :: u64  c_rflags :: u64  c_rsp :: u64  c_ss :: u64

definition CONTEXT_SIZE :: u64 where "CONTEXT_SIZE = 160"

definition context_zeroed :: TaskContext where
  "context_zeroed =
     \<lparr>c_r15 = 0, c_r14 = 0, c_r13 = 0, c_r12 = 0, c_r11 = 0, c_r10 = 0, c_r9 = 0, c_r8 = 0,
      c_rdi = 0, c_rsi = 0, c_rbp = 0, c_rbx = 0, c_rdx = 0, c_rcx = 0, c_rax = 0,
      c_rip = 0, c_cs = 0, c_rflags = 0, c_rsp = 0, c_ss = 0\<rparr>"

definition kernel_context :: "u64 \<Rightarrow> u64 \<Rightarrow> TaskContext" where
  "kernel_context entry stack_top =
     context_zeroed\<lparr>c_rip := entry, c_cs := 0x08, c_rflags := 0x202, c_rsp := stack_top, c_ss := 0x10\<rparr>"

definition USER_CS :: u64 where "USER_CS = 0x20 OR 3"

definition USER_SS :: u64 where "USER_SS = 0x18 OR 3"

definition user_context :: "u64 \<Rightarrow> u64 \<Rightarrow> u64 \<Rightarrow> u64 \<Rightarrow> TaskContext" where
  "user_context entry user_sp arg kstack_top =
     context_zeroed\<lparr>c_rip := entry, c_cs := USER_CS, c_rflags := 0x202, c_rsp := user_sp,
       c_ss := USER_SS, c_rdi := arg\<rparr>"

record TaskControlBlock =
  t_id :: u32
  t_state :: TaskState
  t_priority :: u8
  t_context_ptr :: u64
  t_kernel_stack_top :: u64
  t_kernel_stack_bottom :: u64
  t_name :: string
  t_total_ticks :: u64
  t_pinned_cpu :: "u8 option"
  t_on_cpu :: "u8 option"
  t_inbox :: "Rqb list"
  t_reply :: "Rqb option"
  t_wait_for :: u32
  t_wake_tick :: u64
  t_user :: bool
  t_high_res_time :: bool
  t_spec_store_bypass_disable :: bool
  t_address_space :: u64
  t_user_slot :: "u64 option"
  t_kstack_phys :: u64
  t_reaped :: bool

record KernelStack =
  ks_virt :: u64
  ks_phys :: u64
  ks_size :: u64

definition TASK_STACK_SIZE :: u64 where "TASK_STACK_SIZE = 32 * 1024"

definition MAX_CPUS :: nat where "MAX_CPUS = 64"

definition SCHEDULER_FREQUENCY_HZ :: u64 where "SCHEDULER_FREQUENCY_HZ = 100"

definition INBOX_CAPACITY :: nat where "INBOX_CAPACITY = 32"

record PerCpu =
  p_registered :: bool
  p_hw_id :: u32
  p_current :: "nat option"
  p_idle_idx :: nat

definition percpu_empty :: PerCpu where
  "percpu_empty = \<lparr>p_registered = False, p_hw_id = 0, p_current = None, p_idle_idx = 0\<rparr>"

text \<open>The calls into the architecture layer, in the order they are made.\<close>

datatype hw_event =
  SendReschedIpi u32
| SetCurrentTask nat u32
| PredictorContextSwitch nat bool u32
| SwitchAddressSpace nat u64
| SetUserCounterAccess bool
| PrepareStoreBypass bool u64
| OnSwitchToUser nat u64
| WriteContext u64 TaskContext
| ApplyStoreBypass bool

record Scheduler =
  tasks :: "TaskControlBlock list"
  cpus :: "PerCpu list"
  rr_cursor :: nat
  tick_count :: u64
  initialized :: bool
  jiffies :: u64
  next_id :: u32
  reaping :: nat
  hw_log :: "hw_event list"

definition scheduler_new :: Scheduler where
  "scheduler_new = \<lparr>tasks = [], cpus = replicate MAX_CPUS percpu_empty, rr_cursor = 0,
     tick_count = 0, initialized = False, jiffies = 0, next_id = 1, reaping = 0, hw_log = []\<rparr>"

definition emit :: "hw_event \<Rightarrow> Scheduler \<Rightarrow> Scheduler" where
  "emit e s = s\<lparr>hw_log := hw_log s @ [e]\<rparr>"

definition upd_task :: "nat \<Rightarrow> (TaskControlBlock \<Rightarrow> TaskControlBlock) \<Rightarrow> Scheduler \<Rightarrow> Scheduler" where
  "upd_task i f s = s\<lparr>tasks := (tasks s)[i := f (tasks s ! i)]\<rparr>"

section \<open>Task creation\<close>

text \<open>\<open>NEXT_TASK_ID.fetch_update(|next| next.checked_add(1)).expect(..)\<close>.\<close>

definition next_task_id :: "Scheduler \<Rightarrow> (u32 \<times> Scheduler) option" where
  "next_task_id s =
     (if next_id s = - 1 then None else Some (next_id s, s\<lparr>next_id := next_id s + 1\<rparr>))"

definition tcb_new ::
  "u64 \<Rightarrow> KernelStack \<Rightarrow> u8 \<Rightarrow> string \<Rightarrow> Scheduler \<Rightarrow> (TaskControlBlock \<times> Scheduler) option" where
  "tcb_new entry stack priority name s =
     (let stack_top = ks_virt stack + ks_size stack;
          stack_bottom = ks_virt stack;
          ctx_addr = (stack_top - CONTEXT_SIZE) AND NOT 0xF
      in do {
        (tid, s) \<leftarrow> next_task_id (emit (WriteContext ctx_addr (kernel_context entry stack_top)) s);
        Some (\<lparr>t_id = tid, t_state = Ready, t_priority = priority, t_context_ptr = ctx_addr,
          t_kernel_stack_top = stack_top, t_kernel_stack_bottom = stack_bottom, t_name = name,
          t_total_ticks = 0, t_pinned_cpu = None, t_on_cpu = None, t_inbox = [], t_reply = None,
          t_wait_for = 0, t_wake_tick = 0, t_user = False, t_high_res_time = False,
          t_spec_store_bypass_disable = False, t_address_space = 0, t_user_slot = None,
          t_kstack_phys = ks_phys stack, t_reaped = False\<rparr>, s)
      })"

text \<open>The entry the placeholder task would start at; \<open>tcb_new_user\<close> overwrites the frame.\<close>

definition tcb_new_user ::
  "u64 \<Rightarrow> u64 \<Rightarrow> u64 \<Rightarrow> u64 \<Rightarrow> u64 \<Rightarrow> u64 \<Rightarrow> KernelStack \<Rightarrow> u8 \<Rightarrow> string \<Rightarrow> Scheduler \<Rightarrow>
     (TaskControlBlock \<times> Scheduler) option" where
  "tcb_new_user placeholder entry user_rsp arg space slot stack priority name s = do {
     (tcb, s) \<leftarrow> tcb_new placeholder stack priority name s;
     let s = emit (WriteContext (t_context_ptr tcb)
                (user_context entry user_rsp arg (t_kernel_stack_top tcb))) s;
     Some (tcb\<lparr>t_user := True, t_spec_store_bypass_disable := True, t_address_space := space,
       t_user_slot := Some slot\<rparr>, s)
   }"

definition adopt_current :: "string \<Rightarrow> u8 \<Rightarrow> u8 \<Rightarrow> Scheduler \<Rightarrow> (TaskControlBlock \<times> Scheduler) option" where
  "adopt_current name priority cpu s = do {
     (tid, s) \<leftarrow> next_task_id s;
     Some (\<lparr>t_id = tid, t_state = Running, t_priority = priority, t_context_ptr = 0,
       t_kernel_stack_top = 0, t_kernel_stack_bottom = 0, t_name = name, t_total_ticks = 0,
       t_pinned_cpu = Some cpu, t_on_cpu = Some cpu, t_inbox = [], t_reply = None, t_wait_for = 0,
       t_wake_tick = 0, t_user = False, t_high_res_time = False, t_spec_store_bypass_disable = False,
       t_address_space = 0, t_user_slot = None, t_kstack_phys = 0, t_reaped = False\<rparr>, s)
   }"

section \<open>Methods of the scheduler\<close>

definition register_cpu :: "nat \<Rightarrow> u32 \<Rightarrow> Scheduler \<Rightarrow> (u32 \<times> Scheduler) option" where
  "register_cpu cpu hw_id s = do {
     (idle, s) \<leftarrow> adopt_current ''idle'' PRIORITY_IDLE (of_nat cpu) s;
     let s = s\<lparr>tasks := tasks s @ [idle]\<rparr>;
     let i = length (tasks s) - 1;
     _ \<leftarrow> idx (cpus s) cpu;
     Some (t_id idle, s\<lparr>cpus := (cpus s)[cpu :=
       \<lparr>p_registered = True, p_hw_id = hw_id, p_current = Some i, p_idle_idx = i\<rparr>]\<rparr>)
   }"

definition add_task :: "TaskControlBlock \<Rightarrow> Scheduler \<Rightarrow> u32 \<times> Scheduler" where
  "add_task task s =
     (case position (\<lambda>t. t_state t = Exited \<and> t_reaped t) (tasks s) of
        Some i \<Rightarrow> (t_id task, s\<lparr>tasks := (tasks s)[i := task]\<rparr>)
      | None \<Rightarrow> (t_id task, s\<lparr>tasks := tasks s @ [task]\<rparr>))"

record Reapable =
  r_kstack_phys :: u64
  r_kstack_virt :: u64
  r_space :: u64
  r_slot :: "u64 option"

definition REAP_BATCH :: nat where "REAP_BATCH = 16"

definition reapable_task :: "TaskControlBlock \<Rightarrow> bool" where
  "reapable_task t = (t_state t = Exited \<and> \<not> t_reaped t \<and> t_on_cpu t = None)"

text \<open>
  The loop of \<open>collect_exited\<close> over the tasks from left to right; it stops at the first reapable
  task that finds \<open>out\<close> (a \<open>heapless::Vec\<close> of capacity 16) full.
\<close>

fun collect_loop :: "Reapable list \<Rightarrow> TaskControlBlock list \<Rightarrow> Reapable list \<times> TaskControlBlock list" where
  "collect_loop out [] = (out, [])"
| "collect_loop out (t # ts) =
     (if reapable_task t then
        if length out \<ge> REAP_BATCH then (out, t # ts)
        else
          let r = \<lparr>r_kstack_phys = t_kstack_phys t, r_kstack_virt = t_kernel_stack_bottom t,
                   r_space = t_address_space t, r_slot = t_user_slot t\<rparr>;
              t' = t\<lparr>t_reaped := True, t_kstack_phys := 0, t_address_space := 0, t_user_slot := None\<rparr>;
              (out', ts') = collect_loop (out @ [r]) ts
          in (out', t' # ts')
      else let (out', ts') = collect_loop out ts in (out', t # ts'))"

definition collect_exited :: "Scheduler \<Rightarrow> Reapable list \<times> Scheduler" where
  "collect_exited s =
     (let (out, ts) = collect_loop [] (tasks s)
      in (out, s\<lparr>tasks := ts, reaping := reaping s + length out\<rparr>))"

definition due :: "u64 \<Rightarrow> TaskControlBlock \<Rightarrow> bool" where
  "due now t = (t_state t = Sleeping \<and> t_wake_tick t \<le> now)"

definition wake_sleepers :: "u64 \<Rightarrow> TaskControlBlock list \<Rightarrow> TaskControlBlock list" where
  "wake_sleepers now ts = map (\<lambda>t. if due now t then t\<lparr>t_state := Ready\<rparr> else t) ts"

text \<open>The loop that kicks idle CPUs, one per woken task but the first.\<close>

fun kick_idle :: "nat \<Rightarrow> nat \<Rightarrow> nat \<Rightarrow> PerCpu list \<Rightarrow> hw_event list" where
  "kick_idle cpu i woken [] = []"
| "kick_idle cpu i woken (c # cs) =
     (if woken \<le> 1 then []
      else if p_registered c \<and> i \<noteq> cpu \<and> p_current c = Some (p_idle_idx c)
      then SendReschedIpi (p_hw_id c) # kick_idle cpu (Suc i) (woken - 1) cs
      else kick_idle cpu (Suc i) woken cs)"

definition eligible :: "nat \<Rightarrow> TaskControlBlock \<Rightarrow> bool" where
  "eligible cpu t =
     (t_state t = Ready \<and> t_on_cpu t = None \<and> t_priority t \<noteq> PRIORITY_IDLE \<and>
      (case t_pinned_cpu t of None \<Rightarrow> True | Some p \<Rightarrow> unat p = cpu))"

definition pick_next :: "nat \<Rightarrow> Scheduler \<Rightarrow> (nat \<times> Scheduler) option" where
  "pick_next cpu s =
     (let n = length (tasks s)
      in case find (\<lambda>i. eligible cpu (tasks s ! i)) (map (\<lambda>offset. (rr_cursor s + offset) mod n) [1..<Suc n]) of
           Some i \<Rightarrow> Some (i, s\<lparr>rr_cursor := i\<rparr>)
         | None \<Rightarrow> do { c \<leftarrow> idx (cpus s) cpu; Some (p_idle_idx c, s) })"

text \<open>Save the interrupted context into the task running on \<open>cpu\<close>.\<close>

definition save_current :: "nat \<Rightarrow> u64 \<Rightarrow> bool \<Rightarrow> Scheduler \<Rightarrow> Scheduler option" where
  "save_current cpu current_rsp timer s = do {
     c \<leftarrow> idx (cpus s) cpu;
     case p_current c of
       None \<Rightarrow> Some s
     | Some cur \<Rightarrow> do {
         _ \<leftarrow> idx (tasks s) cur;
         Some (upd_task cur (\<lambda>t. t\<lparr>t_context_ptr := current_rsp, t_on_cpu := None,
           t_total_ticks := (if timer then t_total_ticks t + 1 else t_total_ticks t),
           t_state := (if t_state t = Running then Ready else t_state t)\<rparr>) s)
       }
   }"

text \<open>Make task \<open>next\<close> the running task of \<open>cpu\<close> and program the CPU for it.\<close>

definition switch_to :: "nat \<Rightarrow> nat \<Rightarrow> Scheduler \<Rightarrow> (u64 \<times> Scheduler) option" where
  "switch_to cpu next s = do {
     t \<leftarrow> idx (tasks s) next;
     c \<leftarrow> idx (cpus s) cpu;
     let s = upd_task next (\<lambda>t. t\<lparr>t_state := Running, t_on_cpu := Some (of_nat cpu)\<rparr>) s;
     let s = emit (SetCurrentTask cpu (t_id t)) s;
     let s = (if p_current c \<noteq> Some next then emit (PredictorContextSwitch cpu (t_user t) (t_id t)) s else s);
     let s = emit (SwitchAddressSpace cpu (t_address_space t)) s;
     let s = emit (SetUserCounterAccess (t_user t \<and> t_high_res_time t)) s;
     let s = emit (PrepareStoreBypass (t_spec_store_bypass_disable t) (t_context_ptr t)) s;
     let s = (if t_user t then emit (OnSwitchToUser cpu (t_kernel_stack_top t)) s else s);
     Some (t_context_ptr t, s\<lparr>cpus := (cpus s)[cpu := c\<lparr>p_current := Some next\<rparr>]\<rparr>)
   }"

definition on_tick :: "bool \<Rightarrow> nat \<Rightarrow> u64 \<Rightarrow> bool \<Rightarrow> Scheduler \<Rightarrow> (u64 \<times> Scheduler) option" where
  "on_tick ipi_available cpu current_rsp timer s = do {
     c \<leftarrow> idx (cpus s) cpu;
     if \<not> p_registered c \<or> tasks s = [] then Some (current_rsp, s)
     else do {
       let s = (if timer then s\<lparr>tick_count := tick_count s + 1,
                   jiffies := (if cpu = 0 then jiffies s + 1 else jiffies s)\<rparr> else s);
       let now = jiffies s;
       let woken = length (filter (due now) (tasks s));
       let s = s\<lparr>tasks := wake_sleepers now (tasks s)\<rparr>;
       let s = (if woken > 1 \<and> ipi_available then s\<lparr>hw_log := hw_log s @ kick_idle cpu 0 woken (cpus s)\<rparr> else s);
       s \<leftarrow> save_current cpu current_rsp timer s;
       (next, s) \<leftarrow> pick_next cpu s;
       switch_to cpu next s
     }
   }"

fun find_idle_from :: "nat \<Rightarrow> nat \<Rightarrow> PerCpu list \<Rightarrow> u32 option" where
  "find_idle_from exclude i [] = None"
| "find_idle_from exclude i (c # cs) =
     (if p_registered c \<and> i \<noteq> exclude \<and> p_current c = Some (p_idle_idx c) then Some (p_hw_id c)
      else find_idle_from exclude (Suc i) cs)"

definition find_idle_cpu :: "nat \<Rightarrow> Scheduler \<Rightarrow> u32 option" where
  "find_idle_cpu exclude s = find_idle_from exclude 0 (cpus s)"

definition current_id :: "nat \<Rightarrow> Scheduler \<Rightarrow> u32 option" where
  "current_id cpu s = do {
     c \<leftarrow> idx (cpus s) cpu;
     case p_current c of
       Some i \<Rightarrow> do { t \<leftarrow> idx (tasks s) i; Some (t_id t) }
     | None \<Rightarrow> Some 0
   }"

text \<open>\<open>expect("CPU has no current task")\<close>; the caller then indexes the task vector.\<close>

definition current_idx :: "nat \<Rightarrow> Scheduler \<Rightarrow> nat option" where
  "current_idx cpu s = do {
     c \<leftarrow> idx (cpus s) cpu;
     i \<leftarrow> p_current c;
     _ \<leftarrow> idx (tasks s) i;
     Some i
   }"

definition find_live :: "u32 \<Rightarrow> Scheduler \<Rightarrow> nat option" where
  "find_live tid s = position (\<lambda>t. t_id t = tid \<and> t_state t \<noteq> Exited) (tasks s)"

definition make_ready :: "nat \<Rightarrow> TaskState \<Rightarrow> nat \<Rightarrow> Scheduler \<Rightarrow> u32 option \<times> Scheduler" where
  "make_ready i from cpu s =
     (if t_state (tasks s ! i) = from
      then (find_idle_cpu cpu s, upd_task i (\<lambda>t. t\<lparr>t_state := Ready\<rparr>) s)
      else (None, s))"

definition post_request ::
  "nat \<Rightarrow> u32 \<Rightarrow> Rqb \<Rightarrow> Scheduler \<Rightarrow> ((RqbStatus + u32 option) \<times> Scheduler) option" where
  "post_request cpu receiver msg s = do {
     me \<leftarrow> current_idx cpu s;
     let my_id = t_id (tasks s ! me);
     if receiver = my_id then Some (Err InvalidParam, s)
     else case find_live receiver s of
         None \<Rightarrow> Some (Err NotFound, s)
       | Some ri \<Rightarrow>
           if length (t_inbox (tasks s ! ri)) \<ge> INBOX_CAPACITY then Some (Err Busy, s)
           else do {
             let m = msg\<lparr>rqb_sender_id := my_id, rqb_receiver_id := receiver\<rparr>;
             let s = upd_task ri (\<lambda>t. t\<lparr>t_inbox := t_inbox t @ [m]\<rparr>) s;
             let s = upd_task me (\<lambda>t. t\<lparr>t_state := WaitingReply, t_wait_for := receiver, t_reply := None\<rparr>) s;
             let (kick, s) = make_ready ri WaitingRqb cpu s;
             Some (Ok kick, s)
           }
   }"

definition take_request :: "nat \<Rightarrow> bool \<Rightarrow> Scheduler \<Rightarrow> (Rqb option \<times> Scheduler) option" where
  "take_request cpu block s = do {
     me \<leftarrow> current_idx cpu s;
     case t_inbox (tasks s ! me) of
       m # rest \<Rightarrow> Some (Some m, upd_task me (\<lambda>t. t\<lparr>t_inbox := rest\<rparr>) s)
     | [] \<Rightarrow> Some (None, if block then upd_task me (\<lambda>t. t\<lparr>t_state := WaitingRqb\<rparr>) s else s)
   }"

definition post_reply ::
  "nat \<Rightarrow> u32 \<Rightarrow> Rqb \<Rightarrow> Scheduler \<Rightarrow> ((RqbStatus + u32 option) \<times> Scheduler) option" where
  "post_reply cpu sender msg s = do {
     me \<leftarrow> current_idx cpu s;
     let my_id = t_id (tasks s ! me);
     case find_live sender s of
       None \<Rightarrow> Some (Err NotFound, s)
     | Some si \<Rightarrow>
         let t = tasks s ! si
         in if t_state t \<noteq> WaitingReply \<or> t_wait_for t \<noteq> my_id \<or> t_reply t \<noteq> None
            then Some (Err InvalidParam, s)
            else
              let m = msg\<lparr>rqb_sender_id := my_id, rqb_receiver_id := sender\<rparr>;
                  s = upd_task si (\<lambda>t. t\<lparr>t_reply := Some m\<rparr>) s;
                  (kick, s) = make_ready si WaitingReply cpu s
              in Some (Ok kick, s)
   }"

text \<open>The body of the loop of \<open>mark_exited\<close> for task \<open>i\<close>.\<close>

definition abort_waiter :: "nat \<Rightarrow> u32 \<Rightarrow> nat \<Rightarrow> u32 option \<times> Scheduler \<Rightarrow> u32 option \<times> Scheduler" where
  "abort_waiter cpu my_id i ks =
     (let (kick, s) = ks; t = tasks s ! i
      in if t_state t = WaitingReply \<and> t_wait_for t = my_id \<and> t_reply t = None then
           let r = (set_status rqb_new Aborted)\<lparr>rqb_sender_id := my_id, rqb_receiver_id := t_id t\<rparr>;
               s = upd_task i (\<lambda>t. t\<lparr>t_reply := Some r\<rparr>) s;
               (k, s) = make_ready i WaitingReply cpu s
           in (case kick of Some _ \<Rightarrow> kick | None \<Rightarrow> k, s)
         else (kick, s))"

definition mark_exited :: "nat \<Rightarrow> Scheduler \<Rightarrow> (u32 option \<times> Scheduler) option" where
  "mark_exited cpu s = do {
     me \<leftarrow> current_idx cpu s;
     let my_id = t_id (tasks s ! me);
     let s = upd_task me (\<lambda>t. t\<lparr>t_state := Exited, t_inbox := []\<rparr>) s;
     Some (fold (abort_waiter cpu my_id) [0..<length (tasks s)] (None, s))
   }"

definition sleep_until :: "nat \<Rightarrow> u64 \<Rightarrow> Scheduler \<Rightarrow> Scheduler option" where
  "sleep_until cpu until s = do {
     me \<leftarrow> current_idx cpu s;
     Some (upd_task me (\<lambda>t. t\<lparr>t_wake_tick := until, t_state := Sleeping\<rparr>) s)
   }"

section \<open>The module's functions over the locked scheduler\<close>

definition kick :: "bool \<Rightarrow> u32 option \<Rightarrow> Scheduler \<Rightarrow> Scheduler" where
  "kick ipi_available target s =
     (case target of
        Some hw_id \<Rightarrow> if ipi_available then emit (SendReschedIpi hw_id) s else s
      | None \<Rightarrow> s)"

definition sched_init :: "u32 \<Rightarrow> Scheduler \<Rightarrow> Scheduler option" where
  "sched_init hw_id s =
     (if initialized s then Some s
      else do { (_, s) \<leftarrow> register_cpu 0 hw_id (s\<lparr>initialized := True\<rparr>); Some s })"

definition create_task ::
  "bool \<Rightarrow> nat \<Rightarrow> u64 \<Rightarrow> KernelStack \<Rightarrow> u8 \<Rightarrow> string \<Rightarrow> Scheduler \<Rightarrow> (u32 \<times> Scheduler) option" where
  "create_task ipi_available cpu entry stack priority name s = do {
     (task, s) \<leftarrow> tcb_new entry stack priority name s;
     let (tid, s) = add_task task s;
     Some (tid, kick ipi_available (find_idle_cpu cpu s) s)
   }"

definition create_user_task_with_speculation ::
  "bool \<Rightarrow> nat \<Rightarrow> u64 \<Rightarrow> u64 \<Rightarrow> u64 \<Rightarrow> u64 \<Rightarrow> u64 \<Rightarrow> u64 \<Rightarrow> KernelStack \<Rightarrow> string \<Rightarrow> bool \<Rightarrow> bool \<Rightarrow>
     Scheduler \<Rightarrow> (u32 \<times> Scheduler) option" where
  "create_user_task_with_speculation ipi_available cpu placeholder entry user_rsp arg space slot stack
      name high_res_time disable_store_bypass s = do {
     (task, s) \<leftarrow> tcb_new_user placeholder entry user_rsp arg space slot stack PRIORITY_DEFAULT name s;
     let task = task\<lparr>t_high_res_time := high_res_time, t_spec_store_bypass_disable := disable_store_bypass\<rparr>;
     let (tid, s) = add_task task s;
     Some (tid, kick ipi_available (find_idle_cpu cpu s) s)
   }"

definition task_state :: "u32 \<Rightarrow> Scheduler \<Rightarrow> TaskState option" where
  "task_state tid s = map_option t_state (find (\<lambda>t. t_id t = tid) (tasks s))"

definition unreaped_tasks :: "Scheduler \<Rightarrow> nat" where
  "unreaped_tasks s =
     length (filter (\<lambda>t. t_state t = Exited \<and> \<not> t_reaped t) (tasks s)) + reaping s"

text \<open>
  The first half of \<open>send_rqb\<close> (up to the first \<open>yield_now\<close>): the status when the request was not
  delivered, \<open>None\<close> when the caller is now blocked.
\<close>

definition send_begin ::
  "bool \<Rightarrow> nat \<Rightarrow> u32 \<Rightarrow> Rqb \<Rightarrow> Scheduler \<Rightarrow> (RqbStatus option \<times> Rqb \<times> Scheduler) option" where
  "send_begin ipi_available cpu receiver rqb s = do {
     (r, s) \<leftarrow> post_request cpu receiver rqb s;
     case r of
       Inr target \<Rightarrow> Some (None, rqb, kick ipi_available target s)
     | Inl status \<Rightarrow> Some (Some status, set_status rqb status, s)
   }"

text \<open>The body of its loop after \<open>yield_now\<close> returns: take the reply, or block again.\<close>

definition send_check :: "nat \<Rightarrow> Scheduler \<Rightarrow> (Rqb option \<times> Scheduler) option" where
  "send_check cpu s = do {
     me \<leftarrow> current_idx cpu s;
     let r = t_reply (tasks s ! me);
     let s = upd_task me (\<lambda>t. t\<lparr>t_reply := None\<rparr>) s;
     Some (r, case r of None \<Rightarrow> upd_task me (\<lambda>t. t\<lparr>t_state := WaitingReply\<rparr>) s | Some _ \<Rightarrow> s)
   }"

definition reply_rqb :: "bool \<Rightarrow> nat \<Rightarrow> u32 \<Rightarrow> Rqb \<Rightarrow> Scheduler \<Rightarrow> (RqbStatus \<times> Scheduler) option" where
  "reply_rqb ipi_available cpu sender rqb s = do {
     (r, s) \<leftarrow> post_reply cpu sender rqb s;
     case r of
       Inr target \<Rightarrow> Some (Success, kick ipi_available target s)
     | Inl e \<Rightarrow> Some (e, s)
   }"

definition mark_current_exited :: "bool \<Rightarrow> nat \<Rightarrow> Scheduler \<Rightarrow> Scheduler option" where
  "mark_current_exited ipi_available cpu s = do {
     (target, s) \<leftarrow> mark_exited cpu s;
     Some (kick ipi_available target s)
   }"

text \<open>\<open>until\<close> of \<open>sleep_ms\<close>: at least one tick, rounded up, in wrapping \<open>u64\<close> arithmetic.\<close>

definition sleep_deadline :: "u64 \<Rightarrow> u64 \<Rightarrow> u64" where
  "sleep_deadline now ms =
     (let ticks = (ms * SCHEDULER_FREQUENCY_HZ + 999) div 1000 in now + max ticks 1)"

text \<open>One iteration of its loop: \<open>None\<close> when the loop is left.\<close>

definition sleep_iter :: "nat \<Rightarrow> u64 \<Rightarrow> Scheduler \<Rightarrow> (Scheduler option) option" where
  "sleep_iter cpu until s =
     (if jiffies s < until then do { s \<leftarrow> sleep_until cpu until s; Some (Some s) } else Some None)"

definition receive_rqb_iter :: "nat \<Rightarrow> Scheduler \<Rightarrow> (Rqb option \<times> Scheduler) option" where
  "receive_rqb_iter cpu s = take_request cpu True s"

definition try_receive_rqb :: "nat \<Rightarrow> Scheduler \<Rightarrow> (Rqb option \<times> Scheduler) option" where
  "try_receive_rqb cpu s = take_request cpu False s"

text \<open>
  \<open>change\<close> stands for \<open>store_bypass::plan().change\<close>: whether this machine can honour the request.
\<close>

definition set_store_bypass_disable ::
  "(bool \<Rightarrow> u64 + unit) \<Rightarrow> nat \<Rightarrow> bool \<Rightarrow> Scheduler \<Rightarrow> ((u64 + unit) \<times> Scheduler) option" where
  "set_store_bypass_disable change cpu requested s =
     (case change requested of
        Inl e \<Rightarrow> Some (Err e, s)
      | Inr _ \<Rightarrow> do {
          i \<leftarrow> current_idx cpu s;
          let s = upd_task i (\<lambda>t. t\<lparr>t_spec_store_bypass_disable := requested\<rparr>) s;
          Some (Ok (), emit (ApplyStoreBypass requested) s)
        })"

definition current_store_bypass_flag :: "nat \<Rightarrow> Scheduler \<Rightarrow> bool option" where
  "current_store_bypass_flag cpu s = do {
     c \<leftarrow> idx (cpus s) cpu;
     case p_current c of
       Some i \<Rightarrow> do { t \<leftarrow> idx (tasks s) i; Some (t_spec_store_bypass_disable t) }
     | None \<Rightarrow> Some False
   }"

text \<open>\<open>n\<close> is the length of the caller's output slice.\<close>

definition task_snapshot ::
  "nat \<Rightarrow> Scheduler \<Rightarrow> (u32 \<times> string \<times> TaskState \<times> bool) list \<times> nat \<times> bool" where
  "task_snapshot n s =
     (let live = filter (\<lambda>t. t_state t \<noteq> Exited) (tasks s);
          out = map (\<lambda>t. (t_id t, t_name t, t_state t, t_user t)) (take n live)
      in (out, length out, n < length live))"

definition current_task_name :: "nat \<Rightarrow> Scheduler \<Rightarrow> string option" where
  "current_task_name cpu s = do {
     c \<leftarrow> idx (cpus s) cpu;
     case p_current c of
       Some i \<Rightarrow> do { t \<leftarrow> idx (tasks s) i; Some (t_name t) }
     | None \<Rightarrow> Some ''?''
   }"

definition boot_cpu_targets :: "Scheduler \<Rightarrow> u32 option list" where
  "boot_cpu_targets s = map (\<lambda>c. if p_registered c then Some (p_hw_id c) else None) (cpus s)"

end
