(* ===== verification/Sched_Inv.thy ===== *)
theory Sched_Inv
  imports Scheduler
begin

text \<open>
  The state invariant of the scheduler and its preservation by every method: which task a CPU runs,
  which tasks are idle tasks, what the reaper may take, and the bookkeeping of the IPC primitives.
\<close>

section \<open>Frame facts\<close>

lemma emit_frame [frame_simps]:
  "tasks (emit e s) = tasks s" "cpus (emit e s) = cpus s" "rr_cursor (emit e s) = rr_cursor s"
  "jiffies (emit e s) = jiffies s" "next_id (emit e s) = next_id s" "reaping (emit e s) = reaping s"
  by (simp_all add: emit_def)

lemma upd_task_frame [frame_simps]:
  "cpus (upd_task i f s) = cpus s" "rr_cursor (upd_task i f s) = rr_cursor s"
  "jiffies (upd_task i f s) = jiffies s" "next_id (upd_task i f s) = next_id s"
  "tasks (upd_task i f s) = (tasks s)[i := f (tasks s ! i)]"
  by (simp_all add: upd_task_def)

lemma kick_frame [frame_simps]:
  "tasks (kick ipi k s) = tasks s" "cpus (kick ipi k s) = cpus s"
  "rr_cursor (kick ipi k s) = rr_cursor s" "jiffies (kick ipi k s) = jiffies s"
  "next_id (kick ipi k s) = next_id s"
  by (simp_all add: kick_def frame_simps split: option.split)

lemma of_nat_u8_inj: "c < 64 \<Longrightarrow> unat (of_nat c :: u8) = c"
  by (simp add: unat_of_nat)

lemma of_nat_u8_eq: "c < 64 \<Longrightarrow> c' < 64 \<Longrightarrow> (of_nat c :: u8) = of_nat c' \<longleftrightarrow> c = c'"
  by (metis of_nat_u8_inj)

text \<open>The offsets 1 to \<open>n\<close> from any cursor reach every index below \<open>n\<close>.\<close>

lemma round_robin_covers:
  assumes "j < (n :: nat)"
  shows "\<exists>off. 1 \<le> off \<and> off < Suc n \<and> j = (r + off) mod n"
proof -
  define q where "q = r mod n"
  define off where "off = (if j > q then j - q else j + n - q)"
  have q: "q < n" using assms by (simp add: q_def)
  then have "q + off = (if j > q then j else j + n)" using assms by (simp add: off_def)
  then have "(q + off) mod n = j" using assms by simp
  then have "j = (r + off) mod n" by (simp add: q_def mod_add_left_eq)
  moreover have "1 \<le> off \<and> off < Suc n" using assms q by (auto simp: off_def)
  ultimately show ?thesis by blast
qed

section \<open>The CPU invariant\<close>

text \<open>What holds of one task on its own.\<close>

definition task_ok :: "TaskControlBlock \<Rightarrow> bool" where
  "task_ok t \<longleftrightarrow>
     (t_reaped t \<longrightarrow> t_state t = Exited \<and> t_on_cpu t = None) \<and>
     (t_state t = Running \<longrightarrow> t_on_cpu t \<noteq> None) \<and>
     (t_on_cpu t \<noteq> None \<longrightarrow> t_pinned_cpu t = None \<or> t_pinned_cpu t = t_on_cpu t) \<and>
     length (t_inbox t) \<le> INBOX_CAPACITY"

definition idle_ok :: "nat \<Rightarrow> TaskControlBlock \<Rightarrow> bool" where
  "idle_ok c t \<longleftrightarrow> t_priority t = PRIORITY_IDLE \<and> t_pinned_cpu t = Some (of_nat c) \<and> is_active (t_state t)"

text \<open>
  The CPU tables agree with the tasks: \<open>current\<close> and \<open>on_cpu\<close> are inverse to each other on the CPUs
  other than \<open>x\<close>, no task claims to be on CPU \<open>x\<close>, and every registered CPU has its idle task.
  With \<open>x\<close> no CPU at all this is the invariant between two calls; with \<open>x\<close> the switching CPU it
  is what holds between the saving of the old task and the switch to the next one.
\<close>

definition cpu_inv_but :: "nat \<Rightarrow> Scheduler \<Rightarrow> bool" where
  "cpu_inv_but x s \<longleftrightarrow>
     length (cpus s) = MAX_CPUS \<and>
     (\<forall>c < MAX_CPUS. \<not> p_registered (cpus s ! c) \<longrightarrow> p_current (cpus s ! c) = None) \<and>
     (\<forall>c < MAX_CPUS. c \<noteq> x \<longrightarrow> p_registered (cpus s ! c) \<longrightarrow>
        (\<exists>i < length (tasks s). p_current (cpus s ! c) = Some i \<and> t_on_cpu (tasks s ! i) = Some (of_nat c))) \<and>
     (\<forall>i < length (tasks s). \<forall>b. t_on_cpu (tasks s ! i) = Some b \<longrightarrow>
        unat b \<noteq> x \<and> unat b < MAX_CPUS \<and> p_registered (cpus s ! unat b) \<and>
        p_current (cpus s ! unat b) = Some i) \<and>
     (\<forall>c < MAX_CPUS. p_registered (cpus s ! c) \<longrightarrow>
        p_idle_idx (cpus s ! c) < length (tasks s) \<and> idle_ok c (tasks s ! p_idle_idx (cpus s ! c))) \<and>
     (\<forall>i < length (tasks s). task_ok (tasks s ! i))"

definition cpu_inv :: "Scheduler \<Rightarrow> bool" where
  "cpu_inv s = cpu_inv_but MAX_CPUS s"

lemma cpu_inv_cong:
  "tasks s' = tasks s \<Longrightarrow> cpus s' = cpus s \<Longrightarrow> cpu_inv_but x s' = cpu_inv_but x s"
  by (simp add: cpu_inv_but_def)

lemma cpu_inv_frame [frame_simps]:
  "cpu_inv_but x (emit e s) = cpu_inv_but x s"
  "cpu_inv_but x (kick ipi k s) = cpu_inv_but x s"
  "cpu_inv_but x (s\<lparr>hw_log := l\<rparr>) = cpu_inv_but x s"
  "cpu_inv_but x (s\<lparr>rr_cursor := r\<rparr>) = cpu_inv_but x s"
  "cpu_inv_but x (s\<lparr>tick_count := k1\<rparr>) = cpu_inv_but x s"
  "cpu_inv_but x (s\<lparr>jiffies := j\<rparr>) = cpu_inv_but x s"
  "cpu_inv_but x (s\<lparr>next_id := m\<rparr>) = cpu_inv_but x s"
  "cpu_inv_but x (s\<lparr>reaping := q\<rparr>) = cpu_inv_but x s"
  "cpu_inv_but x (s\<lparr>initialized := y\<rparr>) = cpu_inv_but x s"
  by (rule cpu_inv_cong; simp add: frame_simps)+

text \<open>The consequences the other proofs use.\<close>

lemma cpu_inv_cpus: "cpu_inv_but x s \<Longrightarrow> length (cpus s) = 64"
  by (simp add: cpu_inv_but_def MAX_CPUS_def)

lemma cpu_inv_task_ok: "cpu_inv_but x s \<Longrightarrow> i < length (tasks s) \<Longrightarrow> task_ok (tasks s ! i)"
  by (simp add: cpu_inv_but_def)

lemma cpu_inv_idle:
  "cpu_inv_but x s \<Longrightarrow> c < 64 \<Longrightarrow> p_registered (cpus s ! c) \<Longrightarrow>
     p_idle_idx (cpus s ! c) < length (tasks s) \<and> idle_ok c (tasks s ! p_idle_idx (cpus s ! c))"
  by (simp add: cpu_inv_but_def MAX_CPUS_def)

lemma cpu_inv_current:
  assumes "cpu_inv s" and "c < 64" and "p_registered (cpus s ! c)"
  obtains i where "i < length (tasks s)" and "p_current (cpus s ! c) = Some i"
    and "t_on_cpu (tasks s ! i) = Some (of_nat c)"
  using assms unfolding cpu_inv_def cpu_inv_but_def by (auto simp: MAX_CPUS_def)

lemma cpu_inv_current_reg:
  "cpu_inv_but x s \<Longrightarrow> c < 64 \<Longrightarrow> p_current (cpus s ! c) = Some i \<Longrightarrow> p_registered (cpus s ! c)"
  unfolding cpu_inv_but_def MAX_CPUS_def by fastforce

lemma cpu_inv_on_cpu:
  "cpu_inv_but x s \<Longrightarrow> i < length (tasks s) \<Longrightarrow> t_on_cpu (tasks s ! i) = Some b \<Longrightarrow>
     unat b \<noteq> x \<and> unat b < 64 \<and> p_registered (cpus s ! unat b) \<and> p_current (cpus s ! unat b) = Some i"
  unfolding cpu_inv_but_def MAX_CPUS_def by auto

text \<open>
  One CPU per task: the task a CPU runs is not on any other CPU.
\<close>

lemma current_unique:
  assumes "cpu_inv s" "c < 64" "c' < 64"
    and "p_current (cpus s ! c) = Some i" "p_current (cpus s ! c') = Some i"
  shows "c = c'"
proof -
  have "t_on_cpu (tasks s ! i) = Some (of_nat c)"
    using assms cpu_inv_current [OF assms(1,2)] cpu_inv_current_reg
    by (metis cpu_inv_def option.inject)
  moreover have "t_on_cpu (tasks s ! i) = Some (of_nat c')"
    using assms cpu_inv_current [OF assms(1,3)] cpu_inv_current_reg
    by (metis cpu_inv_def option.inject)
  ultimately show ?thesis using assms of_nat_u8_eq by simp
qed

text \<open>
  The general preservation rule: a change of one task that keeps its CPU, pinning and priority, is
  fine on its own, and does not put an idle task into a blocked state.
\<close>

definition is_idle :: "Scheduler \<Rightarrow> nat \<Rightarrow> bool" where
  "is_idle s i \<longleftrightarrow> (\<exists>c < MAX_CPUS. p_registered (cpus s ! c) \<and> p_idle_idx (cpus s ! c) = i)"

lemma cpu_inv_transfer:
  assumes inv: "cpu_inv_but x s" and c: "cpus s' = cpus s" and n: "length (tasks s) = length (tasks s')"
    and on: "\<And>j. j < length (tasks s) \<Longrightarrow> t_on_cpu (tasks s' ! j) = t_on_cpu (tasks s ! j)"
    and id: "\<And>c j. j < length (tasks s) \<Longrightarrow> is_idle s j \<Longrightarrow> idle_ok c (tasks s ! j) \<Longrightarrow> idle_ok c (tasks s' ! j)"
    and tok: "\<And>j. j < length (tasks s) \<Longrightarrow> task_ok (tasks s ! j) \<Longrightarrow> task_ok (tasks s' ! j)"
  shows "cpu_inv_but x s'"
proof -
  have idle: "is_idle s (p_idle_idx (cpus s ! c))" if "c < MAX_CPUS" "p_registered (cpus s ! c)" for c
    using that by (auto simp: is_idle_def)
  note i = inv [unfolded cpu_inv_but_def]
  show ?thesis
    unfolding cpu_inv_but_def c
  proof (intro conjI)
    show "\<forall>c<MAX_CPUS. c \<noteq> x \<longrightarrow> p_registered (cpus s ! c) \<longrightarrow>
      (\<exists>i<length (tasks s'). p_current (cpus s ! c) = Some i \<and> t_on_cpu (tasks s' ! i) = Some (of_nat c))"
      using i on by (simp add: n [symmetric]) metis
    show "\<forall>i<length (tasks s'). \<forall>b. t_on_cpu (tasks s' ! i) = Some b \<longrightarrow>
      unat b \<noteq> x \<and> unat b < MAX_CPUS \<and> p_registered (cpus s ! unat b) \<and> p_current (cpus s ! unat b) = Some i"
      using i on by (simp add: n [symmetric])
    show "\<forall>c<MAX_CPUS. p_registered (cpus s ! c) \<longrightarrow>
      p_idle_idx (cpus s ! c) < length (tasks s') \<and> idle_ok c (tasks s' ! p_idle_idx (cpus s ! c))"
      using i id idle by (simp add: n [symmetric])
    show "\<forall>i<length (tasks s'). task_ok (tasks s' ! i)"
      using i tok by (simp add: n [symmetric])
  qed (use i in simp_all)
qed

lemma cpu_inv_upd_task [inv_intros]:
  assumes inv: "cpu_inv_but x s"
    and keep: "t_on_cpu (f (tasks s ! i)) = t_on_cpu (tasks s ! i)"
      "t_pinned_cpu (f (tasks s ! i)) = t_pinned_cpu (tasks s ! i)"
      "t_priority (f (tasks s ! i)) = t_priority (tasks s ! i)"
    and ok: "i < length (tasks s) \<Longrightarrow> task_ok (tasks s ! i) \<Longrightarrow> task_ok (f (tasks s ! i))"
    and idle: "is_idle s i \<Longrightarrow> is_active (t_state (f (tasks s ! i)))"
  shows "cpu_inv_but x (upd_task i f s)"
proof -
  show ?thesis
  proof (rule cpu_inv_transfer [OF inv])
    show "t_on_cpu (tasks (upd_task i f s) ! j) = t_on_cpu (tasks s ! j)" if "j < length (tasks s)" for j
      using that keep by (auto simp: nth_upd frame_simps)
    show "idle_ok c (tasks (upd_task i f s) ! j)"
      if "j < length (tasks s)" "is_idle s j" "idle_ok c (tasks s ! j)" for c j
      using that keep idle by (auto simp: nth_upd idle_ok_def frame_simps)
    show "task_ok (tasks (upd_task i f s) ! j)" if "j < length (tasks s)" "task_ok (tasks s ! j)" for j
      using that ok by (auto simp: nth_upd frame_simps)
  qed (simp_all add: frame_simps)
qed

lemma is_idle_upd [frame_simps]: "is_idle (upd_task i f s) = is_idle s"
  by (auto simp: is_idle_def fun_eq_iff frame_simps)

section \<open>Creation, registration and reaping\<close>

lemma cpu_inv_new: "cpu_inv scheduler_new"
  by (simp add: cpu_inv_def cpu_inv_but_def scheduler_new_def percpu_empty_def)

text \<open>A task that may enter the task vector.\<close>

definition fresh_ok :: "TaskControlBlock \<Rightarrow> bool" where
  "fresh_ok t \<longleftrightarrow> t_state t = Ready \<and> t_on_cpu t = None \<and> \<not> t_reaped t \<and> t_inbox t = [] \<and> t_reply t = None"

lemma fresh_task_ok: "fresh_ok t \<Longrightarrow> task_ok t"
  by (simp add: fresh_ok_def task_ok_def)

lemma adopt_current_SomeD:
  "adopt_current name prio c s = Some (t, s') \<Longrightarrow>
     t_id t = next_id s \<and> t_state t = Running \<and> t_priority t = prio \<and> t_pinned_cpu t = Some c \<and>
     t_on_cpu t = Some c \<and> t_inbox t = [] \<and> t_reply t = None \<and> \<not> t_reaped t \<and> \<not> t_user t \<and>
     next_id s \<noteq> - 1 \<and> s' = s\<lparr>next_id := next_id s + 1\<rparr>"
  by (auto simp: adopt_current_def next_task_id_def split: if_splits)

lemma register_cpuE:
  assumes "register_cpu cpu hw s = Some (tid, s')"
  obtains idle where "t_on_cpu idle = Some (of_nat cpu)" "task_ok idle" "idle_ok cpu idle"
    "t_id idle = next_id s" "t_state idle = Running" "t_inbox idle = []" "t_reply idle = None"
    "next_id s \<noteq> - 1" "next_id s' = next_id s + 1" "tasks s' = tasks s @ [idle]" "tid = next_id s"
    "cpus s' = (cpus s)[cpu := \<lparr>p_registered = True, p_hw_id = hw, p_current = Some (length (tasks s)),
       p_idle_idx = length (tasks s)\<rparr>]" "rr_cursor s' = rr_cursor s" "jiffies s' = jiffies s"
proof -
  from assms obtain idle s1 where a: "adopt_current ''idle'' PRIORITY_IDLE (of_nat cpu) s = Some (idle, s1)"
    by (auto simp: register_cpu_def bind_eq_Some_conv)
  note adopt_current_SomeD [OF a]
  with assms a show thesis
    by (intro that [of idle]) (auto simp: register_cpu_def task_ok_def idle_ok_def is_active_def bind_eq_Some_conv Let_def)
qed

lemma cpu_inv_register_cpu:
  assumes inv: "cpu_inv s" and c: "cpu < 64" and new: "\<not> p_registered (cpus s ! cpu)"
    and reg: "register_cpu cpu hw s = Some (tid, s')"
  shows "cpu_inv s'"
proof -
  let ?n = "length (tasks s)"
  obtain idle where
    idle: "t_on_cpu idle = Some (of_nat cpu)" "task_ok idle" "idle_ok cpu idle" and
    s': "tasks s' = tasks s @ [idle]"
      "cpus s' = (cpus s)[cpu := \<lparr>p_registered = True, p_hw_id = hw, p_current = Some ?n, p_idle_idx = ?n\<rparr>]"
    using register_cpuE [OF reg] by metis
  have old: "unat b \<noteq> cpu \<and> unat b < 64" if "i < ?n" "t_on_cpu (tasks s ! i) = Some b" for i b
    using cpu_inv_on_cpu [OF inv [unfolded cpu_inv_def] that] new by auto
  have len: "length (cpus s) = 64" using inv cpu_inv_cpus by (simp add: cpu_inv_def)
  show ?thesis
    unfolding cpu_inv_def cpu_inv_but_def
  proof (intro conjI allI impI; (elim exE conjE)?)
    fix i b assume i: "i < length (tasks s')" "t_on_cpu (tasks s' ! i) = Some b"
    have "unat b \<noteq> MAX_CPUS \<and> unat b < MAX_CPUS \<and> p_registered (cpus s' ! unat b) \<and>
      p_current (cpus s' ! unat b) = Some i"
    proof (cases "i < ?n")
      case True
      with i have t: "t_on_cpu (tasks s ! i) = Some b" by (simp add: s' nth_append)
      show ?thesis
        using cpu_inv_on_cpu [OF inv [unfolded cpu_inv_def] True t] old [OF True t]
        by (simp add: s' MAX_CPUS_def)
    next
      case False
      with i have n: "i = ?n" by (simp add: s')
      with i have "b = of_nat cpu" using idle(1) by (simp add: s')
      with n show ?thesis using c len by (simp add: s' of_nat_u8_inj MAX_CPUS_def)
    qed
    then show "unat b \<noteq> MAX_CPUS" "unat b < MAX_CPUS" "p_registered (cpus s' ! unat b)"
      "p_current (cpus s' ! unat b) = Some i" by simp_all
  next
    fix d assume d: "d < MAX_CPUS" "p_registered (cpus s' ! d)"
    show "\<exists>i<length (tasks s'). p_current (cpus s' ! d) = Some i \<and> t_on_cpu (tasks s' ! i) = Some (of_nat d)"
    proof (cases "d = cpu")
      case False
      with d len obtain i where "i < ?n" "p_current (cpus s ! d) = Some i" "t_on_cpu (tasks s ! i) = Some (of_nat d)"
        using cpu_inv_current [OF inv, of d] by (auto simp: s' MAX_CPUS_def)
      with False d show ?thesis by (intro exI [of _ i]) (simp add: s' nth_append)
    qed (use d idle len in \<open>simp add: s' MAX_CPUS_def\<close>)
    show "p_idle_idx (cpus s' ! d) < length (tasks s')" "idle_ok d (tasks s' ! p_idle_idx (cpus s' ! d))"
      using d idle len cpu_inv_idle [OF inv [unfolded cpu_inv_def], of d]
      by (cases "d = cpu"; simp add: s' nth_append MAX_CPUS_def)+
  next
    fix d assume "d < MAX_CPUS" "\<not> p_registered (cpus s' ! d)"
    then show "p_current (cpus s' ! d) = None"
      using inv len by (cases "d = cpu") (simp_all add: s' cpu_inv_def cpu_inv_but_def MAX_CPUS_def)
  next
    fix i assume "i < length (tasks s')"
    then show "task_ok (tasks s' ! i)"
      using idle(2) cpu_inv_task_ok [OF inv [unfolded cpu_inv_def], of i] by (auto simp: s' nth_append less_Suc_eq)
  qed (simp add: s' len MAX_CPUS_def)
qed

lemma reaped_not_current:
  assumes inv: "cpu_inv s" and i: "i < length (tasks s)" and r: "t_reaped (tasks s ! i)" and c: "c < 64"
  shows "p_current (cpus s ! c) \<noteq> Some i" "p_registered (cpus s ! c) \<Longrightarrow> p_idle_idx (cpus s ! c) \<noteq> i"
proof -
  have t: "t_state (tasks s ! i) = Exited" "t_on_cpu (tasks s ! i) = None"
    using cpu_inv_task_ok [OF inv [unfolded cpu_inv_def] i] r by (auto simp: task_ok_def)
  show "p_current (cpus s ! c) \<noteq> Some i"
    using t cpu_inv_current [OF inv c] cpu_inv_current_reg [OF inv [unfolded cpu_inv_def] c]
    by (metis option.distinct(1) option.inject)
  show "p_idle_idx (cpus s ! c) \<noteq> i" if "p_registered (cpus s ! c)"
    using t cpu_inv_idle [OF inv [unfolded cpu_inv_def] c that] by (auto simp: idle_ok_def is_active_def)
qed

lemma cpu_inv_add_task:
  assumes inv: "cpu_inv s" and t: "fresh_ok t"
  shows "cpu_inv (snd (add_task t s))"
proof (cases "position (\<lambda>t. t_state t = Exited \<and> t_reaped t) (tasks s)")
  case None
  then have s': "tasks (snd (add_task t s)) = tasks s @ [t]" "cpus (snd (add_task t s)) = cpus s"
    by (simp_all add: add_task_def)
  have on: "t_on_cpu ((tasks s @ [t]) ! i) = Some b \<longleftrightarrow> i < length (tasks s) \<and> t_on_cpu (tasks s ! i) = Some b"
    if "i < Suc (length (tasks s))" for i b
    using that t by (auto simp: nth_append less_Suc_eq fresh_ok_def)
  have cur: "\<exists>i<Suc (length (tasks s)). p_current (cpus s ! c) = Some i \<and> t_on_cpu ((tasks s @ [t]) ! i) = Some (of_nat c)"
    if "c < 64" "p_registered (cpus s ! c)" for c
    using cpu_inv_current [OF inv that] on by (metis less_SucI)
  note i = inv [unfolded cpu_inv_def cpu_inv_but_def]
  show ?thesis
    unfolding cpu_inv_def cpu_inv_but_def s'
  proof (intro conjI)
    show "\<forall>c<MAX_CPUS. c \<noteq> MAX_CPUS \<longrightarrow> p_registered (cpus s ! c) \<longrightarrow>
      (\<exists>i<length (tasks s @ [t]). p_current (cpus s ! c) = Some i \<and> t_on_cpu ((tasks s @ [t]) ! i) = Some (of_nat c))"
      using cur by (simp add: MAX_CPUS_def)
    show "\<forall>i<length (tasks s @ [t]). \<forall>b. t_on_cpu ((tasks s @ [t]) ! i) = Some b \<longrightarrow>
      unat b \<noteq> MAX_CPUS \<and> unat b < MAX_CPUS \<and> p_registered (cpus s ! unat b) \<and> p_current (cpus s ! unat b) = Some i"
    proof (intro allI impI)
      fix j b assume "j < length (tasks s @ [t])" "t_on_cpu ((tasks s @ [t]) ! j) = Some b"
      with on have "j < length (tasks s)" "t_on_cpu (tasks s ! j) = Some b" by simp_all
      with i show "unat b \<noteq> MAX_CPUS \<and> unat b < MAX_CPUS \<and> p_registered (cpus s ! unat b) \<and>
        p_current (cpus s ! unat b) = Some j" by blast
    qed
  qed (use i fresh_task_ok [OF t] in \<open>simp_all add: nth_append less_Suc_eq\<close>)
next
  case (Some i)
  then have i: "i < length (tasks s)" "t_reaped (tasks s ! i)"
    by (auto dest: position_SomeD)
  note rc = reaped_not_current [OF inv i]
  from Some have s': "tasks (snd (add_task t s)) = (tasks s)[i := t]" "cpus (snd (add_task t s)) = cpus s"
    by (simp_all add: add_task_def)
  show ?thesis
    unfolding cpu_inv_def
  proof (rule cpu_inv_transfer [OF inv [unfolded cpu_inv_def]])
    fix j assume j: "j < length (tasks s)"
    show "t_on_cpu (tasks (snd (add_task t s)) ! j) = t_on_cpu (tasks s ! j)"
      using j i t cpu_inv_task_ok [OF inv [unfolded cpu_inv_def] i(1)]
      by (auto simp: s' nth_upd fresh_ok_def task_ok_def)
    show "idle_ok c (tasks (snd (add_task t s)) ! j)" if "is_idle s j" "idle_ok c (tasks s ! j)" for c
      using that rc(2) j by (auto simp: is_idle_def s' nth_upd MAX_CPUS_def)
    show "task_ok (tasks (snd (add_task t s)) ! j)" if "task_ok (tasks s ! j)"
      using that j fresh_task_ok [OF t] by (simp add: s' nth_upd)
  qed (simp_all add: s')
qed

lemma add_task_id [simp]: "fst (add_task t s) = t_id t"
  by (simp add: add_task_def split: option.split)

text \<open>The reaper's loop changes reapable tasks only, and only what it hands over.\<close>

definition reap :: "TaskControlBlock \<Rightarrow> TaskControlBlock" where
  "reap t = t\<lparr>t_reaped := True, t_kstack_phys := 0, t_address_space := 0, t_user_slot := None\<rparr>"

definition reap_record :: "TaskControlBlock \<Rightarrow> Reapable" where
  "reap_record t = \<lparr>r_kstack_phys = t_kstack_phys t, r_kstack_virt = t_kernel_stack_bottom t,
     r_space = t_address_space t, r_slot = t_user_slot t\<rparr>"

lemma collect_loop_Cons:
  "collect_loop out (t # ts) =
     (if reapable_task t then
        if length out \<ge> REAP_BATCH then (out, t # ts)
        else map_prod (\<lambda>x. x) ((#) (reap t)) (collect_loop (out @ [reap_record t]) ts)
      else map_prod (\<lambda>x. x) ((#) t) (collect_loop out ts))"
  by (simp add: Let_def reap_def reap_record_def split: prod.split)

lemma length_collect_loop [simp]: "length (snd (collect_loop out ts)) = length ts"
  by (induction ts arbitrary: out) (simp_all add: collect_loop_Cons del: collect_loop.simps(2))

lemma collect_loop_nth:
  "i < length ts \<Longrightarrow> snd (collect_loop out ts) ! i = ts ! i \<or>
     reapable_task (ts ! i) \<and> snd (collect_loop out ts) ! i = reap (ts ! i)"
proof (induction ts arbitrary: out i)
  case (Cons t ts)
  then show ?case
    by (cases i) (simp_all add: collect_loop_Cons del: collect_loop.simps(2))
qed simp

lemma collect_exited_tasks [simp]:
  "tasks (snd (collect_exited s)) = snd (collect_loop [] (tasks s))"
  "cpus (snd (collect_exited s)) = cpus s"
  by (simp_all add: collect_exited_def split: prod.split)

lemma cpu_inv_collect_exited:
  assumes inv: "cpu_inv s"
  shows "cpu_inv (snd (collect_exited s))"
proof -
  let ?ts = "snd (collect_loop [] (tasks s))"
  have nth: "?ts ! i = tasks s ! i \<or> reapable_task (tasks s ! i) \<and> ?ts ! i = reap (tasks s ! i)"
    if "i < length (tasks s)" for i
    using collect_loop_nth that by blast
  show ?thesis
    unfolding cpu_inv_def
  proof (rule cpu_inv_transfer [OF inv [unfolded cpu_inv_def]])
    fix j assume j: "j < length (tasks s)"
    note n = nth [OF j]
    show "t_on_cpu (tasks (snd (collect_exited s)) ! j) = t_on_cpu (tasks s ! j)"
      using n by (auto simp: reap_def)
    show "idle_ok c (tasks (snd (collect_exited s)) ! j)" if "idle_ok c (tasks s ! j)" for c
      using n that by (auto simp: reap_def idle_ok_def reapable_task_def is_active_def)
    show "task_ok (tasks (snd (collect_exited s)) ! j)" if "task_ok (tasks s ! j)"
      using n that by (auto simp: reap_def reapable_task_def task_ok_def)
  qed simp_all
qed

section \<open>The tick\<close>

definition woken_task :: "u64 \<Rightarrow> TaskControlBlock \<Rightarrow> TaskControlBlock" where
  "woken_task now t = (if due now t then t\<lparr>t_state := Ready\<rparr> else t)"

definition saved_task :: "u64 \<Rightarrow> bool \<Rightarrow> TaskControlBlock \<Rightarrow> TaskControlBlock" where
  "saved_task rsp timer t = t\<lparr>t_context_ptr := rsp, t_on_cpu := None,
     t_total_ticks := (if timer then t_total_ticks t + 1 else t_total_ticks t),
     t_state := (if t_state t = Running then Ready else t_state t)\<rparr>"

definition running_task :: "nat \<Rightarrow> TaskControlBlock \<Rightarrow> TaskControlBlock" where
  "running_task cpu t = t\<lparr>t_state := Running, t_on_cpu := Some (of_nat cpu)\<rparr>"

text \<open>The tasks when the next one is picked: sleepers woken, the interrupted task saved.\<close>

definition parked_tasks :: "u64 \<Rightarrow> nat \<Rightarrow> u64 \<Rightarrow> bool \<Rightarrow> TaskControlBlock list \<Rightarrow> TaskControlBlock list" where
  "parked_tasks now cur rsp timer ts =
     (let ws = map (woken_task now) ts in ws[cur := saved_task rsp timer (ws ! cur)])"

definition tick_now :: "nat \<Rightarrow> bool \<Rightarrow> Scheduler \<Rightarrow> u64" where
  "tick_now cpu timer s = (if timer \<and> cpu = 0 then jiffies s + 1 else jiffies s)"

lemma length_parked [simp]: "length (parked_tasks now cur rsp timer ts) = length ts"
  by (simp add: parked_tasks_def Let_def)

lemma nth_parked:
  "i < length ts \<Longrightarrow> parked_tasks now cur rsp timer ts ! i =
     (if i = cur then saved_task rsp timer (woken_task now (ts ! i)) else woken_task now (ts ! i))"
  by (simp add: parked_tasks_def Let_def nth_upd)

lemma woken_task_fields [simp]:
  "t_on_cpu (woken_task now t) = t_on_cpu t" "t_pinned_cpu (woken_task now t) = t_pinned_cpu t"
  "t_priority (woken_task now t) = t_priority t" "t_reaped (woken_task now t) = t_reaped t"
  "t_inbox (woken_task now t) = t_inbox t" "t_id (woken_task now t) = t_id t"
  "t_wake_tick (woken_task now t) = t_wake_tick t" "t_reply (woken_task now t) = t_reply t" "t_wait_for (woken_task now t) = t_wait_for t"
  by (simp_all add: woken_task_def)

lemma saved_task_fields [simp]:
  "t_on_cpu (saved_task rsp timer t) = None" "t_pinned_cpu (saved_task rsp timer t) = t_pinned_cpu t"
  "t_priority (saved_task rsp timer t) = t_priority t" "t_reaped (saved_task rsp timer t) = t_reaped t"
  "t_inbox (saved_task rsp timer t) = t_inbox t" "t_id (saved_task rsp timer t) = t_id t"
  "t_wake_tick (saved_task rsp timer t) = t_wake_tick t" "t_reply (saved_task rsp timer t) = t_reply t" "t_wait_for (saved_task rsp timer t) = t_wait_for t"
  "t_state (saved_task rsp timer t) = (if t_state t = Running then Ready else t_state t)"
  by (simp_all add: saved_task_def)

lemma running_task_fields [simp]:
  "t_on_cpu (running_task cpu t) = Some (of_nat cpu)" "t_pinned_cpu (running_task cpu t) = t_pinned_cpu t"
  "t_priority (running_task cpu t) = t_priority t" "t_reaped (running_task cpu t) = t_reaped t"
  "t_inbox (running_task cpu t) = t_inbox t" "t_id (running_task cpu t) = t_id t"
  "t_wake_tick (running_task cpu t) = t_wake_tick t" "t_reply (running_task cpu t) = t_reply t" "t_wait_for (running_task cpu t) = t_wait_for t"
  "t_state (running_task cpu t) = Running"
  by (simp_all add: running_task_def)

lemma woken_state:
  "t_state (woken_task now t) = t_state t \<or> t_state t = Sleeping \<and> t_state (woken_task now t) = Ready"
  by (simp add: woken_task_def due_def)

lemma pick_next_SomeD:
  assumes "pick_next cpu s = Some (i, s')"
  shows "i < length (tasks s) \<and> eligible cpu (tasks s ! i) \<and> s' = s\<lparr>rr_cursor := i\<rparr> \<or>
     (\<forall>j < length (tasks s). \<not> eligible cpu (tasks s ! j)) \<and> cpu < length (cpus s) \<and>
     i = p_idle_idx (cpus s ! cpu) \<and> s' = s"
proof -
  let ?n = "length (tasks s)"
  let ?is = "map (\<lambda>off. (rr_cursor s + off) mod ?n) [1..<Suc ?n]"
  show ?thesis
  proof (cases "find (\<lambda>i. eligible cpu (tasks s ! i)) ?is")
    case None
    have "\<not> eligible cpu (tasks s ! j)" if j: "j < ?n" for j
    proof -
      have "j \<in> set ?is"
        using round_robin_covers [OF j, of "rr_cursor s"] by auto
      with None show ?thesis by (auto simp: find_None_iff)
    qed
    with None assms show ?thesis by (auto simp: pick_next_def Let_def bind_eq_Some_conv)
  next
    case (Some k)
    then have "k \<in> set ?is" "eligible cpu (tasks s ! k)" by (auto dest!: find_SomeD simp del: set_map upt_Suc)
    then have "k < ?n" by (cases "?n = 0") auto
    with Some assms \<open>eligible cpu (tasks s ! k)\<close> show ?thesis by (auto simp: pick_next_def Let_def)
  qed
qed

lemma pick_next_total: "cpu < length (cpus s) \<Longrightarrow> \<exists>i s'. pick_next cpu s = Some (i, s')"
  by (simp add: pick_next_def Let_def split: option.split)

lemma save_current_eq:
  assumes "cpu < length (cpus s)" "p_current (cpus s ! cpu) = Some cur" "cur < length (tasks s)"
  shows "save_current cpu rsp timer s = Some (upd_task cur (saved_task rsp timer) s)"
  using assms by (simp add: save_current_def upd_task_def saved_task_def)

lemma switch_to_SomeD:
  assumes "switch_to cpu next s = Some (sp, s')"
  shows "next < length (tasks s)" "cpu < length (cpus s)" "sp = t_context_ptr (tasks s ! next)"
    "tasks s' = (tasks s)[next := running_task cpu (tasks s ! next)]"
    "cpus s' = (cpus s)[cpu := (cpus s ! cpu)\<lparr>p_current := Some next\<rparr>]"
    "rr_cursor s' = rr_cursor s" "jiffies s' = jiffies s" "next_id s' = next_id s"
  using assms by (auto simp: switch_to_def Let_def frame_simps running_task_def bind_eq_Some_conv)

lemma switch_to_Some:
  "next < length (tasks s) \<Longrightarrow> cpu < length (cpus s) \<Longrightarrow> \<exists>sp s'. switch_to cpu next s = Some (sp, s')"
  by (simp add: switch_to_def Let_def)

text \<open>
  The state in which the next task is picked. The switching CPU is left out of the invariant: its
  \<open>current\<close> still names the saved task.
\<close>

lemma cpu_inv_parked:
  assumes inv: "cpu_inv s" and c: "cpu < 64" and cur: "p_current (cpus s ! cpu) = Some cur"
    and s1: "tasks s1 = parked_tasks now cur rsp timer (tasks s)" "cpus s1 = cpus s"
  shows "cpu_inv_but cpu s1"
proof -
  have on: "t_on_cpu (tasks s1 ! i) = Some b \<longleftrightarrow> i \<noteq> cur \<and> t_on_cpu (tasks s ! i) = Some b"
    if "i < length (tasks s)" for i b
    using that by (simp add: s1 nth_parked)
  have tok: "task_ok (tasks s1 ! i)" if "i < length (tasks s)" for i
    using that cpu_inv_task_ok [OF inv [unfolded cpu_inv_def] that]
    by (auto simp: s1 nth_parked task_ok_def woken_task_def due_def)
  have id: "idle_ok d (tasks s1 ! i)" if "i < length (tasks s)" "idle_ok d (tasks s ! i)" for i d
    using that by (auto simp: s1 nth_parked idle_ok_def is_active_def woken_task_def due_def)
  have other: "cur \<noteq> i" if "d < 64" "d \<noteq> cpu" "p_current (cpus s ! d) = Some i" for d i
    using current_unique [OF inv c that(1)] cur that by auto
  note i = inv [unfolded cpu_inv_def cpu_inv_but_def]
  have len: "length (tasks s1) = length (tasks s)" by (simp add: s1)
  show ?thesis
    unfolding cpu_inv_but_def s1(2) len
  proof (intro conjI)
    show "\<forall>d<MAX_CPUS. d \<noteq> cpu \<longrightarrow> p_registered (cpus s ! d) \<longrightarrow>
      (\<exists>i<length (tasks s). p_current (cpus s ! d) = Some i \<and> t_on_cpu (tasks s1 ! i) = Some (of_nat d))"
      using cpu_inv_current [OF inv] on other unfolding MAX_CPUS_def by metis
    show "\<forall>i<length (tasks s). \<forall>b. t_on_cpu (tasks s1 ! i) = Some b \<longrightarrow>
      unat b \<noteq> cpu \<and> unat b < MAX_CPUS \<and> p_registered (cpus s ! unat b) \<and> p_current (cpus s ! unat b) = Some i"
      using i on cur by (metis option.inject)
  qed (use i tok id in simp_all)
qed

lemma cpu_inv_switch:
  assumes inv: "cpu_inv_but cpu s" and c: "cpu < 64" and reg: "p_registered (cpus s ! cpu)"
    and t: "t_on_cpu (tasks s ! next) = None" "t_state (tasks s ! next) = Ready"
      "t_pinned_cpu (tasks s ! next) = None \<or> t_pinned_cpu (tasks s ! next) = Some (of_nat cpu)"
    and sw: "switch_to cpu next s = Some (sp, s')"
  shows "cpu_inv s'"
proof -
  note s' = switch_to_SomeD [OF sw]
  have on: "t_on_cpu (tasks s' ! i) = (if i = next then Some (of_nat cpu) else t_on_cpu (tasks s ! i))"
    if "i < length (tasks s)" for i
    using that by (simp add: s' nth_upd)
  have tok: "task_ok (tasks s' ! i)" if "i < length (tasks s)" for i
    using that t cpu_inv_task_ok [OF inv that] by (auto simp: s' nth_upd task_ok_def)
  have id: "idle_ok d (tasks s' ! i)" if "i < length (tasks s)" "idle_ok d (tasks s ! i)" for i d
    using that by (auto simp: s' nth_upd idle_ok_def is_active_def)
  have cp: "cpus s' ! d = (if d = cpu then (cpus s ! cpu)\<lparr>p_current := Some next\<rparr> else cpus s ! d)"
    if "d < MAX_CPUS" for d
    using that cpu_inv_cpus [OF inv] by (simp add: s' nth_upd MAX_CPUS_def)
  have len: "length (tasks s') = length (tasks s)" "length (cpus s') = length (cpus s)" by (simp_all add: s')
  note i = inv [unfolded cpu_inv_but_def]
  show ?thesis
    unfolding cpu_inv_def cpu_inv_but_def len
  proof (intro conjI)
    show "\<forall>d<MAX_CPUS. d \<noteq> MAX_CPUS \<longrightarrow> p_registered (cpus s' ! d) \<longrightarrow>
      (\<exists>i<length (tasks s). p_current (cpus s' ! d) = Some i \<and> t_on_cpu (tasks s' ! i) = Some (of_nat d))"
    proof (intro allI impI)
      fix d assume d: "d < MAX_CPUS" "p_registered (cpus s' ! d)"
      show "\<exists>i<length (tasks s). p_current (cpus s' ! d) = Some i \<and> t_on_cpu (tasks s' ! i) = Some (of_nat d)"
      proof (cases "d = cpu")
        case True
        then show ?thesis using d on cp s'(1) by auto
      next
        case False
        then obtain j where "j < length (tasks s)" "p_current (cpus s ! d) = Some j"
          "t_on_cpu (tasks s ! j) = Some (of_nat d)" using i d cp by auto
        then show ?thesis using False on cp d t(1) by (intro exI [of _ j]) auto
      qed
    qed
    show "\<forall>i<length (tasks s). \<forall>b. t_on_cpu (tasks s' ! i) = Some b \<longrightarrow>
      unat b \<noteq> MAX_CPUS \<and> unat b < MAX_CPUS \<and> p_registered (cpus s' ! unat b) \<and> p_current (cpus s' ! unat b) = Some i"
      using i on cp c reg of_nat_u8_inj [OF c] by (auto simp: MAX_CPUS_def split: if_splits)
  qed (use i tok id cp reg in auto)
qed

lemma parked_idle:
  assumes inv: "cpu_inv_but cpu s" and c: "cpu < 64" and reg: "p_registered (cpus s ! cpu)"
  shows "p_idle_idx (cpus s ! cpu) < length (tasks s) \<and> t_state (tasks s ! p_idle_idx (cpus s ! cpu)) = Ready \<and>
    t_on_cpu (tasks s ! p_idle_idx (cpus s ! cpu)) = None \<and>
    t_pinned_cpu (tasks s ! p_idle_idx (cpus s ! cpu)) = Some (of_nat cpu)"
proof -
  let ?i = "p_idle_idx (cpus s ! cpu)"
  have i: "?i < length (tasks s)" "idle_ok cpu (tasks s ! ?i)" using cpu_inv_idle [OF inv c reg] by auto
  have t: "task_ok (tasks s ! ?i)" by (rule cpu_inv_task_ok [OF inv i(1)])
  have "t_on_cpu (tasks s ! ?i) = None"
  proof (rule ccontr)
    assume "t_on_cpu (tasks s ! ?i) \<noteq> None"
    then obtain b where b: "t_on_cpu (tasks s ! ?i) = Some b" by auto
    with t i(2) have "b = of_nat cpu" by (simp add: task_ok_def idle_ok_def)
    with cpu_inv_on_cpu [OF inv i(1) b] c show False by (simp add: of_nat_u8_inj)
  qed
  with i t show ?thesis by (auto simp: task_ok_def idle_ok_def is_active_def)
qed

lemma on_tick_park:
  assumes inv: "cpu_inv s" and c: "cpu < 64" and reg: "p_registered (cpus s ! cpu)"
  obtains cur s3 where "p_current (cpus s ! cpu) = Some cur" "cur < length (tasks s)"
    "tasks s3 = parked_tasks (tick_now cpu timer s) cur rsp timer (tasks s)"
    "cpus s3 = cpus s" "rr_cursor s3 = rr_cursor s" "next_id s3 = next_id s"
    "jiffies s3 = tick_now cpu timer s" "cpu_inv_but cpu s3"
    "on_tick ipi cpu rsp timer s = Option.bind (pick_next cpu s3) (\<lambda>(next, s). switch_to cpu next s)"
proof -
  obtain cur where cur: "cur < length (tasks s)" "p_current (cpus s ! cpu) = Some cur"
    by (rule cpu_inv_current [OF inv c reg])
  have len: "length (cpus s) = 64" using inv cpu_inv_cpus by (simp add: cpu_inv_def)
  let ?now = "tick_now cpu timer s"
  define ts where "ts = parked_tasks ?now cur rsp timer (tasks s)"
  define s0 where "s0 = (if timer then s\<lparr>tick_count := tick_count s + 1,
    jiffies := (if cpu = 0 then jiffies s + 1 else jiffies s)\<rparr> else s)"
  define w where "w = length (filter (due ?now) (tasks s))"
  define s1 where "s1 = s0\<lparr>tasks := wake_sleepers ?now (tasks s0)\<rparr>"
  define s2 where "s2 = (if w > 1 \<and> ipi then s1\<lparr>hw_log := hw_log s1 @ kick_idle cpu 0 w (cpus s1)\<rparr> else s1)"
  define s3 where "s3 = upd_task cur (saved_task rsp timer) s2"
  have j: "jiffies s0 = ?now" by (simp add: s0_def tick_now_def)
  have s0: "tasks s0 = tasks s" "cpus s0 = cpus s" "rr_cursor s0 = rr_cursor s" "next_id s0 = next_id s"
    by (simp_all add: s0_def)
  have s3: "tasks s3 = ts" "cpus s3 = cpus s" "rr_cursor s3 = rr_cursor s" "next_id s3 = next_id s" "jiffies s3 = ?now"
    using cur by (simp_all add: s3_def s2_def s1_def frame_simps s0 j ts_def parked_tasks_def Let_def
        wake_sleepers_def woken_task_def [abs_def])
  have inv3: "cpu_inv_but cpu s3"
    by (rule cpu_inv_parked [OF inv c cur(2)]) (simp_all add: s3 ts_def)
  have sv: "save_current cpu rsp timer s2 = Some s3"
    unfolding s3_def using c cur len
    by (intro save_current_eq) (simp_all add: s2_def s1_def s0 wake_sleepers_def)
  have tick: "on_tick ipi cpu rsp timer s =
    Option.bind (pick_next cpu s3) (\<lambda>(next, s). switch_to cpu next s)"
  proof -
    have ne: "tasks s \<noteq> []" using cur by auto
    have "s2 = (if w > 1 \<and> ipi then s0\<lparr>tasks := wake_sleepers ?now (tasks s),
        hw_log := hw_log s0 @ kick_idle cpu 0 w (cpus s)\<rparr> else s0\<lparr>tasks := wake_sleepers ?now (tasks s)\<rparr>)"
      by (simp add: s2_def s1_def s0)
    with sv c reg ne len show ?thesis
      by (simp add: on_tick_def Let_def j s0 split del: if_split flip: s0_def w_def)
        (auto simp: j s0 w_def split: if_splits)
  qed
  show thesis
    by (rule that [OF cur(2,1) _ s3(2-5) inv3 tick]) (simp add: s3 ts_def)
qed

text \<open>
  What a tick, reschedule interrupt or yield does on a registered CPU: it always returns, parks the
  interrupted task, and switches to a task that was ready, on no CPU, and allowed here.
\<close>

lemma on_tick_cases:
  assumes inv: "cpu_inv s" and c: "cpu < 64" and reg: "p_registered (cpus s ! cpu)"
  obtains cur "next" ts s' where
    "p_current (cpus s ! cpu) = Some cur" "cur < length (tasks s)"
    "ts = parked_tasks (tick_now cpu timer s) cur rsp timer (tasks s)"
    "next < length (tasks s)" "t_state (ts ! next) = Ready" "t_on_cpu (ts ! next) = None"
    "eligible cpu (ts ! next) \<and> rr_cursor s' = next \<or>
     (\<forall>j < length ts. \<not> eligible cpu (ts ! j)) \<and> next = p_idle_idx (cpus s ! cpu) \<and> rr_cursor s' = rr_cursor s"
    "on_tick ipi cpu rsp timer s = Some (t_context_ptr (ts ! next), s')"
    "tasks s' = ts[next := running_task cpu (ts ! next)]"
    "cpus s' = (cpus s)[cpu := (cpus s ! cpu)\<lparr>p_current := Some next\<rparr>]"
    "jiffies s' = tick_now cpu timer s" "next_id s' = next_id s" "cpu_inv s'"
proof -
  obtain cur s3 where cur: "p_current (cpus s ! cpu) = Some cur" "cur < length (tasks s)"
    and s3: "tasks s3 = parked_tasks (tick_now cpu timer s) cur rsp timer (tasks s)"
      "cpus s3 = cpus s" "rr_cursor s3 = rr_cursor s" "next_id s3 = next_id s"
      "jiffies s3 = tick_now cpu timer s"
    and inv3: "cpu_inv_but cpu s3"
    and tick: "on_tick ipi cpu rsp timer s = Option.bind (pick_next cpu s3) (\<lambda>(next, s). switch_to cpu next s)"
    by (rule on_tick_park [OF assms])
  have len: "length (cpus s3) = 64" by (rule cpu_inv_cpus [OF inv3])
  obtain "next" s4 where p: "pick_next cpu s3 = Some (next, s4)"
    using pick_next_total [of cpu s3] c len by auto
  note pn = pick_next_SomeD [OF p]
  then have s4: "tasks s4 = tasks s3" "cpus s4 = cpus s3" "next_id s4 = next_id s3" "jiffies s4 = jiffies s3" by auto
  have n: "next < length (tasks s3) \<and> t_state (tasks s3 ! next) = Ready \<and> t_on_cpu (tasks s3 ! next) = None \<and>
    (t_pinned_cpu (tasks s3 ! next) = None \<or> t_pinned_cpu (tasks s3 ! next) = Some (of_nat cpu))"
    using pn
  proof
    assume "next < length (tasks s3) \<and> eligible cpu (tasks s3 ! next) \<and> s4 = s3\<lparr>rr_cursor := next\<rparr>"
    then show ?thesis by (auto simp: eligible_def split: option.splits)
  next
    assume "(\<forall>j<length (tasks s3). \<not> eligible cpu (tasks s3 ! j)) \<and> cpu < length (cpus s3) \<and>
      next = p_idle_idx (cpus s3 ! cpu) \<and> s4 = s3"
    then show ?thesis using parked_idle [OF inv3 c] reg s3(2) by simp
  qed
  obtain sp s' where sw: "switch_to cpu next s4 = Some (sp, s')"
    using switch_to_Some [of "next" s4 cpu] n c len s4 by auto
  have inv4: "cpu_inv_but cpu s4" using inv3 cpu_inv_cong [of s4 s3] s4 by simp
  have inv': "cpu_inv s'"
    by (rule cpu_inv_switch [OF inv4 c _ _ _ _ sw]) (use n reg s4 s3 in auto)
  note s' = switch_to_SomeD [OF sw]
  let ?ts = "parked_tasks (tick_now cpu timer s) cur rsp timer (tasks s)"
  show thesis
  proof (rule that [OF cur refl, of "next" s'])
    show "eligible cpu (?ts ! next) \<and> rr_cursor s' = next \<or>
      (\<forall>j < length ?ts. \<not> eligible cpu (?ts ! j)) \<and> next = p_idle_idx (cpus s ! cpu) \<and> rr_cursor s' = rr_cursor s"
      using pn s' s3 by auto
  qed (use n tick p sw s' s4 s3 inv' in simp_all)
qed

end
