(* ===== verification/Sched_Ipc.thy ===== *)
theory Sched_Ipc
  imports Sched_Inv
begin

text \<open>
  What the blocking primitives do to the task vector, and the invariant they share: task identities
  are unique, a task blocked for a reply waits on a live task with an empty reply slot, and a task
  blocked for a request has an empty inbox.
\<close>

section \<open>The primitives as updates of the task vector\<close>

definition frame_of :: "Scheduler \<Rightarrow> Scheduler \<Rightarrow> bool" where
  "frame_of s s' \<longleftrightarrow> cpus s' = cpus s \<and> rr_cursor s' = rr_cursor s \<and> jiffies s' = jiffies s \<and> next_id s' = next_id s"

lemma frame_of_refl [simp]: "frame_of s s"
  by (simp add: frame_of_def)

definition delivered :: "Rqb \<Rightarrow> TaskControlBlock \<Rightarrow> TaskControlBlock" where
  "delivered m t = t\<lparr>t_inbox := t_inbox t @ [m],
     t_state := (if t_state t = WaitingRqb then Ready else t_state t)\<rparr>"

definition blocked_on :: "u32 \<Rightarrow> TaskControlBlock \<Rightarrow> TaskControlBlock" where
  "blocked_on r t = t\<lparr>t_state := WaitingReply, t_wait_for := r, t_reply := None\<rparr>"

definition answered :: "Rqb \<Rightarrow> TaskControlBlock \<Rightarrow> TaskControlBlock" where
  "answered m t = t\<lparr>t_reply := Some m, t_state := Ready\<rparr>"

definition awaits :: "u32 \<Rightarrow> TaskControlBlock \<Rightarrow> bool" where
  "awaits tid t \<longleftrightarrow> t_state t = WaitingReply \<and> t_wait_for t = tid \<and> t_reply t = None"

definition abort_msg :: "u32 \<Rightarrow> TaskControlBlock \<Rightarrow> Rqb" where
  "abort_msg tid t = (set_status rqb_new Aborted)\<lparr>rqb_sender_id := tid, rqb_receiver_id := t_id t\<rparr>"

definition aborted :: "u32 \<Rightarrow> TaskControlBlock \<Rightarrow> TaskControlBlock" where
  "aborted tid t = (if awaits tid t then answered (abort_msg tid t) t else t)"

definition gone :: "TaskControlBlock \<Rightarrow> TaskControlBlock" where
  "gone t = t\<lparr>t_state := Exited, t_inbox := []\<rparr>"

lemmas task_updates = delivered_def blocked_on_def answered_def gone_def

lemma delivered_fields [simp]:
  "t_id (delivered m t) = t_id t" "t_on_cpu (delivered m t) = t_on_cpu t"
  "t_pinned_cpu (delivered m t) = t_pinned_cpu t" "t_priority (delivered m t) = t_priority t"
  "t_reply (delivered m t) = t_reply t" "t_wait_for (delivered m t) = t_wait_for t"
  "t_reaped (delivered m t) = t_reaped t" "t_inbox (delivered m t) = t_inbox t @ [m]"
  "t_state (delivered m t) = (if t_state t = WaitingRqb then Ready else t_state t)"
  by (simp_all add: delivered_def)

lemma blocked_on_fields [simp]:
  "t_id (blocked_on r t) = t_id t" "t_on_cpu (blocked_on r t) = t_on_cpu t"
  "t_pinned_cpu (blocked_on r t) = t_pinned_cpu t" "t_priority (blocked_on r t) = t_priority t"
  "t_reply (blocked_on r t) = None" "t_wait_for (blocked_on r t) = r"
  "t_reaped (blocked_on r t) = t_reaped t" "t_inbox (blocked_on r t) = t_inbox t"
  "t_state (blocked_on r t) = WaitingReply"
  by (simp_all add: blocked_on_def)

lemma answered_fields [simp]:
  "t_id (answered m t) = t_id t" "t_on_cpu (answered m t) = t_on_cpu t"
  "t_pinned_cpu (answered m t) = t_pinned_cpu t" "t_priority (answered m t) = t_priority t"
  "t_reply (answered m t) = Some m" "t_wait_for (answered m t) = t_wait_for t"
  "t_reaped (answered m t) = t_reaped t" "t_inbox (answered m t) = t_inbox t"
  "t_state (answered m t) = Ready"
  by (simp_all add: answered_def)

lemma gone_fields [simp]:
  "t_id (gone t) = t_id t" "t_on_cpu (gone t) = t_on_cpu t"
  "t_pinned_cpu (gone t) = t_pinned_cpu t" "t_priority (gone t) = t_priority t"
  "t_reply (gone t) = t_reply t" "t_wait_for (gone t) = t_wait_for t"
  "t_reaped (gone t) = t_reaped t" "t_inbox (gone t) = []" "t_state (gone t) = Exited"
  by (simp_all add: gone_def)

lemma aborted_fields [simp]:
  "t_id (aborted tid t) = t_id t" "t_on_cpu (aborted tid t) = t_on_cpu t"
  "t_pinned_cpu (aborted tid t) = t_pinned_cpu t" "t_priority (aborted tid t) = t_priority t"
  "t_wait_for (aborted tid t) = t_wait_for t" "t_reaped (aborted tid t) = t_reaped t"
  "t_inbox (aborted tid t) = t_inbox t"
  by (simp_all add: aborted_def)

lemma current_idx_Some [simp]:
  "current_idx cpu s = Some i \<longleftrightarrow>
     cpu < length (cpus s) \<and> p_current (cpus s ! cpu) = Some i \<and> i < length (tasks s)"
  by (auto simp: current_idx_def bind_eq_Some_conv)

lemma find_live_SomeD:
  "find_live tid s = Some i \<Longrightarrow> i < length (tasks s) \<and> t_id (tasks s ! i) = tid \<and> t_state (tasks s ! i) \<noteq> Exited"
  by (auto simp: find_live_def dest: position_SomeD)

lemma find_live_None_iff:
  "find_live tid s = None \<longleftrightarrow> (\<forall>t \<in> set (tasks s). t_id t = tid \<longrightarrow> t_state t = Exited)"
  by (auto simp: find_live_def position_None_iff)

lemma post_request_OkE:
  assumes "post_request cpu r msg s = Some (Ok k, s')"
  obtains me ri m where "current_idx cpu s = Some me" "find_live r s = Some ri" "r \<noteq> t_id (tasks s ! me)"
    "m = msg\<lparr>rqb_sender_id := t_id (tasks s ! me), rqb_receiver_id := r\<rparr>"
    "length (t_inbox (tasks s ! ri)) < INBOX_CAPACITY" "me \<noteq> ri"
    "tasks s' = (tasks s)[ri := delivered m (tasks s ! ri), me := blocked_on r (tasks s ! me)]" "frame_of s s'"
proof -
  from assms obtain me ri where me: "current_idx cpu s = Some me" and ri: "find_live r s = Some ri"
    and ne: "r \<noteq> t_id (tasks s ! me)" and cap: "length (t_inbox (tasks s ! ri)) < INBOX_CAPACITY"
    by (auto simp: post_request_def Let_def bind_eq_Some_conv simp del: current_idx_Some
        split: if_splits option.splits prod.splits)
  have "me \<noteq> ri" using find_live_SomeD [OF ri] ne by auto
  let ?m = "msg\<lparr>rqb_sender_id := t_id (tasks s ! me), rqb_receiver_id := r\<rparr>"
  have "tasks s' = (tasks s)[ri := delivered ?m (tasks s ! ri), me := blocked_on r (tasks s ! me)] \<and> frame_of s s'"
    using assms me ri ne cap \<open>me \<noteq> ri\<close> find_live_SomeD [OF ri]
    by (auto simp: post_request_def Let_def make_ready_def frame_simps frame_of_def task_updates
        list_update_swap simp del: current_idx_Some split: if_splits)
  with that [OF me ri ne refl cap \<open>me \<noteq> ri\<close>] show thesis by blast
qed

lemma post_request_Err: "post_request cpu r msg s = Some (Err e, s') \<Longrightarrow> s' = s"
  by (auto simp: post_request_def Let_def bind_eq_Some_conv split: if_splits option.splits prod.splits)

lemma post_reply_OkE:
  assumes "post_reply cpu sender msg s = Some (Ok k, s')"
  obtains me si m where "current_idx cpu s = Some me" "find_live sender s = Some si"
    "m = msg\<lparr>rqb_sender_id := t_id (tasks s ! me), rqb_receiver_id := sender\<rparr>"
    "awaits (t_id (tasks s ! me)) (tasks s ! si)"
    "tasks s' = (tasks s)[si := answered m (tasks s ! si)]" "frame_of s s'"
proof -
  obtain me where me: "current_idx cpu s = Some me"
    using assms by (cases "current_idx cpu s") (auto simp: post_reply_def)
  obtain si where si: "find_live sender s = Some si"
    using assms me by (cases "find_live sender s") (auto simp: post_reply_def Let_def simp del: current_idx_Some)
  have aw: "awaits (t_id (tasks s ! me)) (tasks s ! si)"
    using assms me si by (auto simp: post_reply_def Let_def awaits_def simp del: current_idx_Some split: if_splits)
  let ?m = "msg\<lparr>rqb_sender_id := t_id (tasks s ! me), rqb_receiver_id := sender\<rparr>"
  have "tasks s' = (tasks s)[si := answered ?m (tasks s ! si)] \<and> frame_of s s'"
    using assms me si aw find_live_SomeD [OF si]
    by (auto simp: post_reply_def Let_def make_ready_def frame_simps frame_of_def task_updates awaits_def
        simp del: current_idx_Some split: if_splits prod.splits)
  with that [OF me si refl aw] show thesis by blast
qed

lemma post_reply_Err: "post_reply cpu sender msg s = Some (Err e, s') \<Longrightarrow> s' = s"
  by (cases "current_idx cpu s"; cases "find_live sender s")
    (simp_all add: post_reply_def Let_def case_prod_beta del: current_idx_Some split: if_splits)

lemma take_requestE:
  assumes "take_request cpu block s = Some (r, s')"
  obtains (msg) me m rest where "current_idx cpu s = Some me" "r = Some m" "t_inbox (tasks s ! me) = m # rest"
      "tasks s' = (tasks s)[me := (tasks s ! me)\<lparr>t_inbox := rest\<rparr>]" "frame_of s s'"
  | (wait) me where "current_idx cpu s = Some me" "r = None" "t_inbox (tasks s ! me) = []" "block"
      "tasks s' = (tasks s)[me := (tasks s ! me)\<lparr>t_state := WaitingRqb\<rparr>]" "frame_of s s'"
  | (empty) me where "current_idx cpu s = Some me" "r = None" "t_inbox (tasks s ! me) = []" "\<not> block" "s' = s"
proof -
  from assms obtain me where me: "current_idx cpu s = Some me"
    by (auto simp: take_request_def bind_eq_Some_conv simp del: current_idx_Some)
  with assms that [of me] show thesis
    by (cases "t_inbox (tasks s ! me)")
      (auto simp: take_request_def frame_simps frame_of_def simp del: current_idx_Some split: if_splits)
qed

lemma sleep_untilE:
  assumes "sleep_until cpu until s = Some s'"
  obtains me where "current_idx cpu s = Some me" "frame_of s s'"
    "tasks s' = (tasks s)[me := (tasks s ! me)\<lparr>t_wake_tick := until, t_state := Sleeping\<rparr>]"
  using assms
  by (auto simp: sleep_until_def bind_eq_Some_conv frame_simps frame_of_def simp del: current_idx_Some)

lemma send_checkE:
  assumes "send_check cpu s = Some (r, s')"
  obtains me where "current_idx cpu s = Some me" "r = t_reply (tasks s ! me)" "frame_of s s'"
    "tasks s' = (tasks s)[me := (tasks s ! me)\<lparr>t_reply := None,
       t_state := (if r = None then WaitingReply else t_state (tasks s ! me))\<rparr>]"
proof -
  from assms obtain me where me: "current_idx cpu s = Some me" and r: "r = t_reply (tasks s ! me)"
    by (auto simp: send_check_def Let_def bind_eq_Some_conv simp del: current_idx_Some)
  then have "me < length (tasks s)" by simp
  with assms me r that [OF me r] show thesis
    by (auto simp: send_check_def Let_def frame_simps frame_of_def simp del: current_idx_Some
        split: option.splits)
qed

text \<open>The loop of \<open>mark_exited\<close> is a map over the task vector.\<close>

lemma abort_waiter_tasks:
  "i < length (tasks (snd ks)) \<Longrightarrow>
     tasks (snd (abort_waiter cpu tid i ks)) = (tasks (snd ks))[i := aborted tid (tasks (snd ks) ! i)] \<and>
     frame_of (snd ks) (snd (abort_waiter cpu tid i ks))"
  by (cases ks) (auto simp: abort_waiter_def Let_def make_ready_def aborted_def awaits_def answered_def
      abort_msg_def frame_simps frame_of_def)

lemma abort_loop:
  "k \<le> length (tasks s) \<Longrightarrow>
     tasks (snd (fold (abort_waiter cpu tid) [0..<k] (kk, s))) =
       map (aborted tid) (take k (tasks s)) @ drop k (tasks s) \<and>
     frame_of s (snd (fold (abort_waiter cpu tid) [0..<k] (kk, s)))"
proof (induction k)
  case (Suc k)
  let ?ks = "fold (abort_waiter cpu tid) [0..<k] (kk, s)"
  from Suc have k: "k < length (tasks s)" by simp
  from Suc have ih: "tasks (snd ?ks) = map (aborted tid) (take k (tasks s)) @ drop k (tasks s)"
    "frame_of s (snd ?ks)" by simp_all
  with k have "tasks (snd ?ks) ! k = tasks s ! k" "k < length (tasks (snd ?ks))" by (simp_all add: nth_append)
  moreover from k have "drop k (tasks s) = tasks s ! k # drop (Suc k) (tasks s)" by (simp add: Cons_nth_drop_Suc)
  ultimately show ?case
    using abort_waiter_tasks [of k ?ks cpu tid] ih k
    by (auto simp: frame_of_def list_update_append take_Suc_conv_app_nth)
qed simp

lemma mark_exitedE:
  assumes "mark_exited cpu s = Some (k, s')"
  obtains me where "current_idx cpu s = Some me" "frame_of s s'"
    "tasks s' = map (aborted (t_id (tasks s ! me))) ((tasks s)[me := gone (tasks s ! me)])"
proof -
  from assms obtain me where me: "current_idx cpu s = Some me"
    and f: "(k, s') = fold (abort_waiter cpu (t_id (tasks s ! me)))
      [0..<length (tasks s)] (None, upd_task me gone s)"
    by (auto simp: mark_exited_def Let_def bind_eq_Some_conv upd_task_def gone_def simp del: current_idx_Some)
  from arg_cong [OF f, of snd] abort_loop [of "length (tasks s)" "upd_task me gone s" cpu "t_id (tasks s ! me)" None]
  show thesis using that [OF me] by (simp add: frame_simps frame_of_def)
qed

section \<open>The IPC invariant\<close>

definition live_ids :: "TaskControlBlock list \<Rightarrow> u32 set" where
  "live_ids ts = {t_id (ts ! i) | i. i < length ts \<and> t_state (ts ! i) \<noteq> Exited}"

definition ipc_ok :: "u32 set \<Rightarrow> TaskControlBlock \<Rightarrow> bool" where
  "ipc_ok live t \<longleftrightarrow>
     (t_state t = WaitingReply \<longrightarrow> t_reply t = None \<and> t_wait_for t \<in> live \<and> t_wait_for t \<noteq> t_id t) \<and>
     (t_state t = WaitingRqb \<longrightarrow> t_inbox t = [])"

text \<open>Identities are positive, below the next one to be given out, and never shared.\<close>

definition ids_ok :: "u32 \<Rightarrow> TaskControlBlock list \<Rightarrow> bool" where
  "ids_ok n ts \<longleftrightarrow> distinct (map t_id ts) \<and> (\<forall>t \<in> set ts. 0 < t_id t \<and> t_id t < n)"

lemma ids_ok_nth_eq:
  "ids_ok n ts \<Longrightarrow> i < length ts \<Longrightarrow> j < length ts \<Longrightarrow> t_id (ts ! i) = t_id (ts ! j) \<longleftrightarrow> i = j"
  unfolding ids_ok_def by (metis distinct_conv_nth length_map nth_map)

lemma ids_ok_append: "ids_ok n (ts @ us) \<Longrightarrow> ids_ok n ts"
  by (simp add: ids_ok_def)

lemma ids_ok_same_ids: "map t_id ts' = map t_id ts \<Longrightarrow> ids_ok n ts \<Longrightarrow> ids_ok n ts'"
  unfolding ids_ok_def by (metis (no_types, lifting) in_set_conv_nth length_map nth_map)

lemma ids_ok_replace:
  assumes "ids_ok n (ts @ t # us)"
  shows "ids_ok n (ts[i := t] @ us)"
proof -
  have d: "distinct (map t_id ts)" "t_id t \<notin> t_id ` set ts" "distinct (map t_id us)" "t_id t \<notin> t_id ` set us"
    "t_id ` set ts \<inter> t_id ` set us = {}" and b: "\<forall>u \<in> insert t (set ts \<union> set us). 0 < t_id u \<and> t_id u < n"
    using assms by (auto simp: ids_ok_def)
  have sub: "set (ts[i := t]) \<subseteq> insert t (set ts)" by (rule set_update_subset_insert)
  have "distinct (map t_id (ts[i := t]))"
    using distinct_list_update [of "map t_id ts" "t_id t" i] d by (simp add: map_update)
  moreover have "t_id ` set (ts[i := t]) \<inter> t_id ` set us = {}" using sub d by blast
  ultimately show ?thesis using d b sub by (auto simp: ids_ok_def)
qed

lemma ids_ok_new:
  assumes "ids_ok n ts" and "n \<noteq> - 1" and "0 < n" and "t_id t = n"
  shows "ids_ok (n + 1) (ts @ [t])"
proof -
  have "\<forall>u \<in> set ts. t_id u < n" using assms(1) by (simp add: ids_ok_def)
  then have "n \<notin> t_id ` set ts" "\<forall>u \<in> set ts. t_id u \<le> n" by (auto intro: less_imp_le)
  with assms show ?thesis by (auto simp: ids_ok_def less_inc_iff)
qed

lemma live_ids_cong:
  "length ts' = length ts \<Longrightarrow>
   (\<And>i. i < length ts \<Longrightarrow> t_id (ts' ! i) = t_id (ts ! i) \<and> (t_state (ts' ! i) = Exited \<longleftrightarrow> t_state (ts ! i) = Exited)) \<Longrightarrow>
   live_ids ts' = live_ids ts"
  unfolding live_ids_def by (rule Collect_cong) metis

lemma find_live_in_live_ids: "find_live tid s = Some i \<Longrightarrow> tid \<in> live_ids (tasks s)"
  unfolding live_ids_def using find_live_SomeD by blast

lemma ipc_ok_mono: "ipc_ok L t \<Longrightarrow> L \<subseteq> L' \<Longrightarrow> ipc_ok L' t"
  by (auto simp: ipc_ok_def)

lemma ipc_ok_active: "is_active (t_state t) \<Longrightarrow> ipc_ok L t"
  by (auto simp: ipc_ok_def is_active_def)

end
