(* ===== verification/Sched_System.thy ===== *)
theory Sched_System
  imports Sched_Ipc
begin

text \<open>
  The kernel as a transition system: every critical section of the scheduler lock is one step, and
  timer ticks, reschedule interrupts and steps of other CPUs may fall between any two of them. A
  task that blocks is between two critical sections of its \<open>send_rqb\<close>, \<open>receive_rqb\<close> or \<open>sleep_ms\<close>
  loop; its phase says which one comes next. Tasks under construction (\<open>TaskControlBlock::new\<close> has
  given out the identity, \<open>add_task\<close> has not run) are kept apart.
\<close>

section \<open>Steps\<close>

datatype phase =
  Free
| SendYield | SendCheck
| RecvYield | RecvRetry
| SleepYield u64 | SleepCheck u64
| Dead

fun after_yield :: "phase \<Rightarrow> phase" where
  "after_yield SendYield = SendCheck"
| "after_yield RecvYield = RecvRetry"
| "after_yield (SleepYield u) = SleepCheck u"
| "after_yield p = p"

definition may_yield :: "phase \<Rightarrow> bool" where
  "may_yield p = (case p of SendCheck \<Rightarrow> False | RecvRetry \<Rightarrow> False | SleepCheck _ \<Rightarrow> False | _ \<Rightarrow> True)"

record System =
  sch :: Scheduler
  pend :: "TaskControlBlock list"
  pc :: "u32 \<Rightarrow> phase"

text \<open>Task \<open>i\<close> is executing on \<open>cpu\<close>.\<close>

definition executes :: "System \<Rightarrow> nat \<Rightarrow> nat \<Rightarrow> bool" where
  "executes y cpu i \<longleftrightarrow> cpu < MAX_CPUS \<and> p_registered (cpus (sch y) ! cpu) \<and>
     p_current (cpus (sch y) ! cpu) = Some i"

abbreviation tid_at :: "System \<Rightarrow> nat \<Rightarrow> u32" where
  "tid_at y i \<equiv> t_id (tasks (sch y) ! i)"

text \<open>A task other than an idle loop, in phase \<open>ph\<close>, is executing on \<open>cpu\<close>.\<close>

definition calls :: "System \<Rightarrow> nat \<Rightarrow> nat \<Rightarrow> phase \<Rightarrow> bool" where
  "calls y cpu i ph \<longleftrightarrow> executes y cpu i \<and> \<not> is_idle (sch y) i \<and> pc y (tid_at y i) = ph"

inductive sys_step :: "bool \<Rightarrow> System \<Rightarrow> System \<Rightarrow> bool" for ipi :: bool where
  register_ap:
    "cpu < MAX_CPUS \<Longrightarrow> \<not> p_registered (cpus (sch y) ! cpu) \<Longrightarrow> register_cpu cpu hw (sch y) = Some (tid, s') \<Longrightarrow>
     sys_step ipi y (y\<lparr>sch := s'\<rparr>)"
| interrupt:
    "executes y cpu i \<Longrightarrow> on_tick ipi cpu sp timer (sch y) = Some (sp', s') \<Longrightarrow>
     sys_step ipi y (y\<lparr>sch := s'\<rparr>)"
| yield:
    "executes y cpu i \<Longrightarrow> may_yield (pc y (tid_at y i)) \<Longrightarrow> on_tick ipi cpu sp False (sch y) = Some (sp', s') \<Longrightarrow>
     sys_step ipi y (y\<lparr>sch := s', pc := (pc y)(tid_at y i := after_yield (pc y (tid_at y i)))\<rparr>)"
| send:
    "calls y cpu i Free \<Longrightarrow> send_begin ipi cpu receiver rqb (sch y) = Some (None, rqb', s') \<Longrightarrow>
     sys_step ipi y (y\<lparr>sch := s', pc := (pc y)(tid_at y i := SendYield)\<rparr>)"
| send_fail:
    "calls y cpu i Free \<Longrightarrow> send_begin ipi cpu receiver rqb (sch y) = Some (Some e, rqb', s') \<Longrightarrow>
     sys_step ipi y (y\<lparr>sch := s'\<rparr>)"
| send_done:
    "calls y cpu i SendCheck \<Longrightarrow> send_check cpu (sch y) = Some (Some r, s') \<Longrightarrow>
     sys_step ipi y (y\<lparr>sch := s', pc := (pc y)(tid_at y i := Free)\<rparr>)"
| send_again:
    "calls y cpu i SendCheck \<Longrightarrow> send_check cpu (sch y) = Some (None, s') \<Longrightarrow>
     sys_step ipi y (y\<lparr>sch := s', pc := (pc y)(tid_at y i := SendYield)\<rparr>)"
| receive:
    "calls y cpu i ph \<Longrightarrow> ph = Free \<or> ph = RecvRetry \<Longrightarrow> take_request cpu True (sch y) = Some (Some m, s') \<Longrightarrow>
     sys_step ipi y (y\<lparr>sch := s', pc := (pc y)(tid_at y i := Free)\<rparr>)"
| receive_wait:
    "calls y cpu i ph \<Longrightarrow> ph = Free \<or> ph = RecvRetry \<Longrightarrow> take_request cpu True (sch y) = Some (None, s') \<Longrightarrow>
     sys_step ipi y (y\<lparr>sch := s', pc := (pc y)(tid_at y i := RecvYield)\<rparr>)"
| try_receive:
    "calls y cpu i Free \<Longrightarrow> take_request cpu False (sch y) = Some (r, s') \<Longrightarrow>
     sys_step ipi y (y\<lparr>sch := s'\<rparr>)"
| reply:
    "calls y cpu i Free \<Longrightarrow> reply_rqb ipi cpu sender rqb (sch y) = Some (st, s') \<Longrightarrow>
     sys_step ipi y (y\<lparr>sch := s'\<rparr>)"
| sleep:
    "calls y cpu i ph \<Longrightarrow> ph = Free \<or> ph = SleepCheck until \<Longrightarrow> sleep_until cpu until (sch y) = Some s' \<Longrightarrow>
     sys_step ipi y (y\<lparr>sch := s', pc := (pc y)(tid_at y i := SleepYield until)\<rparr>)"
| wake:
    "calls y cpu i (SleepCheck until) \<Longrightarrow> \<not> jiffies (sch y) < until \<Longrightarrow>
     sys_step ipi y (y\<lparr>pc := (pc y)(tid_at y i := Free)\<rparr>)"
| exit:
    "calls y cpu i Free \<Longrightarrow> mark_current_exited ipi cpu (sch y) = Some s' \<Longrightarrow>
     sys_step ipi y (y\<lparr>sch := s', pc := (pc y)(tid_at y i := Dead)\<rparr>)"
| new_task:
    "tcb_new entry stack prio name (sch y) = Some (t, s') \<Longrightarrow>
     sys_step ipi y (y\<lparr>sch := s', pend := pend y @ [t]\<rparr>)"
| new_user_task:
    "tcb_new_user placeholder entry sp arg space slot stack prio name (sch y) = Some (t, s') \<Longrightarrow>
     sys_step ipi y (y\<lparr>sch := s', pend := pend y @ [t\<lparr>t_high_res_time := h, t_spec_store_bypass_disable := d\<rparr>]\<rparr>)"
| add:
    "pend y = us @ t # vs \<Longrightarrow> add_task t (sch y) = (tid, s') \<Longrightarrow>
     sys_step ipi y (y\<lparr>sch := kick ipi (find_idle_cpu cpu s') s', pend := us @ vs\<rparr>)"
| collect:
    "collect_exited (sch y) = (batch, s') \<Longrightarrow> sys_step ipi y (y\<lparr>sch := s'\<rparr>)"
| released:
    "k \<le> reaping (sch y) \<Longrightarrow> sys_step ipi y (y\<lparr>sch := (sch y)\<lparr>reaping := reaping (sch y) - k\<rparr>\<rparr>)"
| store_bypass:
    "executes y cpu i \<Longrightarrow> set_store_bypass_disable change cpu requested (sch y) = Some (r, s') \<Longrightarrow>
     sys_step ipi y (y\<lparr>sch := s'\<rparr>)"

text \<open>The system once \<open>init\<close> has registered the boot CPU.\<close>

inductive reachable :: "bool \<Rightarrow> System \<Rightarrow> bool" for ipi :: bool where
  boot: "sched_init hw scheduler_new = Some s \<Longrightarrow> reachable ipi \<lparr>sch = s, pend = [], pc = (\<lambda>_. Free)\<rparr>"
| step: "reachable ipi y \<Longrightarrow> sys_step ipi y y' \<Longrightarrow> reachable ipi y'"

section \<open>The invariant\<close>

fun phase_ok :: "phase \<Rightarrow> TaskControlBlock \<Rightarrow> bool" where
  "phase_ok Free t \<longleftrightarrow> is_active (t_state t) \<and> t_reply t = None"
| "phase_ok SendYield t \<longleftrightarrow>
     t_state t = WaitingReply \<and> t_reply t = None \<or> is_active (t_state t) \<and> t_reply t \<noteq> None"
| "phase_ok SendCheck t \<longleftrightarrow>
     t_state t = WaitingReply \<and> t_reply t = None \<and> t_on_cpu t = None \<or>
     is_active (t_state t) \<and> t_reply t \<noteq> None"
| "phase_ok RecvYield t \<longleftrightarrow> (t_state t = WaitingRqb \<or> is_active (t_state t)) \<and> t_reply t = None"
| "phase_ok RecvRetry t \<longleftrightarrow>
     (t_state t = WaitingRqb \<and> t_on_cpu t = None \<or> is_active (t_state t)) \<and> t_reply t = None"
| "phase_ok (SleepYield u) t \<longleftrightarrow>
     (t_state t = Sleeping \<and> t_wake_tick t = u \<or> is_active (t_state t)) \<and> t_reply t = None"
| "phase_ok (SleepCheck u) t \<longleftrightarrow>
     (t_state t = Sleeping \<and> t_wake_tick t = u \<and> t_on_cpu t = None \<or> is_active (t_state t)) \<and> t_reply t = None"
| "phase_ok Dead t \<longleftrightarrow> t_state t = Exited"

definition sys_inv :: "System \<Rightarrow> bool" where
  "sys_inv y \<longleftrightarrow>
     cpu_inv (sch y) \<and>
     ids_ok (next_id (sch y)) (tasks (sch y) @ pend y) \<and>
     (\<forall>i < length (tasks (sch y)). ipc_ok (live_ids (tasks (sch y))) (tasks (sch y) ! i) \<and>
        phase_ok (pc y (tid_at y i)) (tasks (sch y) ! i)) \<and>
     (\<forall>t \<in> set (pend y). fresh_ok t \<and> pc y (t_id t) = Free) \<and>
     (\<forall>x. next_id (sch y) \<le> x \<longrightarrow> pc y x = Free) \<and> 0 < next_id (sch y)"

text \<open>
  The rule for a step that changes tasks one by one: it keeps identities, CPUs and pinning, does
  not let a task exit or come back, and every task is locally fine afterwards.
\<close>

definition same_place :: "TaskControlBlock \<Rightarrow> TaskControlBlock \<Rightarrow> bool" where
  "same_place t t' \<longleftrightarrow> t_id t' = t_id t \<and> t_on_cpu t' = t_on_cpu t \<and> t_pinned_cpu t' = t_pinned_cpu t \<and>
     t_priority t' = t_priority t"

lemma same_place_refl [simp]: "same_place t t"
  by (simp add: same_place_def)

lemma sys_inv_pointwise:
  assumes inv: "sys_inv y"
    and frame: "cpus (sch y') = cpus (sch y)" "next_id (sch y') = next_id (sch y)" "pend y' = pend y"
      "length (tasks (sch y')) = length (tasks (sch y))"
    and pc: "\<And>x. x \<notin> t_id ` set (tasks (sch y)) \<Longrightarrow> pc y' x = pc y x"
    and pt: "\<And>i. i < length (tasks (sch y)) \<Longrightarrow> same_place (tasks (sch y) ! i) (tasks (sch y') ! i)"
    and ex: "\<And>i. i < length (tasks (sch y)) \<Longrightarrow>
      t_state (tasks (sch y') ! i) = Exited \<longleftrightarrow> t_state (tasks (sch y) ! i) = Exited"
    and idle: "\<And>i. i < length (tasks (sch y)) \<Longrightarrow> is_idle (sch y) i \<Longrightarrow> is_active (t_state (tasks (sch y) ! i)) \<Longrightarrow>
      is_active (t_state (tasks (sch y') ! i))"
    and ok: "\<And>i. i < length (tasks (sch y)) \<Longrightarrow> task_ok (tasks (sch y) ! i) \<Longrightarrow> task_ok (tasks (sch y') ! i)"
    and loc: "\<And>i. i < length (tasks (sch y)) \<Longrightarrow> ipc_ok (live_ids (tasks (sch y))) (tasks (sch y) ! i) \<Longrightarrow>
      phase_ok (pc y (tid_at y i)) (tasks (sch y) ! i) \<Longrightarrow>
      ipc_ok (live_ids (tasks (sch y))) (tasks (sch y') ! i) \<and> phase_ok (pc y' (tid_at y i)) (tasks (sch y') ! i)"
  shows "sys_inv y'"
proof -
  have id: "t_id (tasks (sch y') ! i) = tid_at y i" if "i < length (tasks (sch y))" for i
    using pt [OF that] by (simp add: same_place_def)
  have cpu: "cpu_inv (sch y')"
    unfolding cpu_inv_def
    by (rule cpu_inv_transfer [of _ "sch y"])
      (use inv frame pt idle ok in \<open>auto simp: sys_inv_def cpu_inv_def same_place_def idle_ok_def\<close>)
  have "map t_id (tasks (sch y')) = map t_id (tasks (sch y))"
    using frame id by (intro nth_equalityI) simp_all
  then have ids: "ids_ok (next_id (sch y')) (tasks (sch y') @ pend y')"
    using inv frame by (auto simp: sys_inv_def intro: ids_ok_same_ids [of _ "tasks (sch y) @ pend y"])
  have live: "live_ids (tasks (sch y')) = live_ids (tasks (sch y))"
    by (rule live_ids_cong) (use frame id ex in auto)
  have far: "x \<notin> t_id ` set (tasks (sch y))" if "next_id (sch y) \<le> x" for x
  proof
    assume "x \<in> t_id ` set (tasks (sch y))"
    then have "x < next_id (sch y)" using inv by (auto simp: sys_inv_def ids_ok_def)
    with that show False by simp
  qed
  have pd: "t_id t \<notin> t_id ` set (tasks (sch y))" if "t \<in> set (pend y)" for t
    using inv that unfolding sys_inv_def ids_ok_def by auto
  show ?thesis
    using inv cpu ids live loc id frame pc far pd unfolding sys_inv_def by auto
qed

lemma sys_inv_ids: "sys_inv y \<Longrightarrow> ids_ok (next_id (sch y)) (tasks (sch y))"
  unfolding sys_inv_def using ids_ok_append by blast

lemma sys_inv_pend_id:
  assumes "sys_inv y" and "t \<in> set (pend y)" and "i < length (tasks (sch y))"
  shows "t_id t \<noteq> tid_at y i"
proof -
  have "t_id ` set (tasks (sch y)) \<inter> t_id ` set (pend y) = {}"
    using assms(1) by (simp add: sys_inv_def ids_ok_def)
  with assms(2,3) show ?thesis by (metis disjoint_iff imageI nth_mem)
qed

lemma sys_inv_id_less: "sys_inv y \<Longrightarrow> i < length (tasks (sch y)) \<Longrightarrow> tid_at y i < next_id (sch y)"
  by (simp add: sys_inv_def ids_ok_def)

lemma sys_inv_local:
  "sys_inv y \<Longrightarrow> i < length (tasks (sch y)) \<Longrightarrow>
     task_ok (tasks (sch y) ! i) \<and> ipc_ok (live_ids (tasks (sch y))) (tasks (sch y) ! i) \<and>
     phase_ok (pc y (tid_at y i)) (tasks (sch y) ! i)"
  unfolding sys_inv_def cpu_inv_def using cpu_inv_task_ok by blast

lemma executes_idx:
  assumes "sys_inv y" and "executes y cpu i"
  shows "i < length (tasks (sch y)) \<and> t_on_cpu (tasks (sch y) ! i) = Some (of_nat cpu) \<and> cpu < 64 \<and>
    p_registered (cpus (sch y) ! cpu) \<and> length (cpus (sch y)) = 64 \<and> current_idx cpu (sch y) = Some i"
proof -
  have inv: "cpu_inv (sch y)" using assms by (simp add: sys_inv_def)
  have c: "cpu < 64" "p_registered (cpus (sch y) ! cpu)" "p_current (cpus (sch y) ! cpu) = Some i"
    using assms(2) by (simp_all add: executes_def MAX_CPUS_def)
  from cpu_inv_current [OF inv c(1,2)] c(3) inv [unfolded cpu_inv_def, THEN cpu_inv_cpus] show ?thesis
    using c by (metis current_idx_Some option.inject)
qed

text \<open>A step in which one task changes and, with it, possibly its phase.\<close>

lemma sys_inv_one_task:
  assumes inv: "sys_inv y" and i: "i < length (tasks (sch y))" and fr: "frame_of (sch y) (sch y')"
    and ts: "tasks (sch y') = (tasks (sch y))[i := t']" and pd: "pend y' = pend y"
    and pc: "pc y' = (pc y)(tid_at y i := ph)"
    and idle: "is_idle (sch y) i \<Longrightarrow> is_active (t_state t')"
    and keep: "same_place (tasks (sch y) ! i) t'" "t_state t' \<noteq> Exited" "t_state (tasks (sch y) ! i) \<noteq> Exited"
    and ok: "task_ok t'" "ipc_ok (live_ids (tasks (sch y))) t'" "phase_ok ph t'"
  shows "sys_inv y'"
proof (rule sys_inv_pointwise [OF inv])
  note ne = ids_ok_nth_eq [OF sys_inv_ids [OF inv]]
  show "pc y' x = pc y x" if "x \<notin> t_id ` set (tasks (sch y))" for x
    using that i by (auto simp: pc)
  fix j assume j: "j < length (tasks (sch y))"
  show "same_place (tasks (sch y) ! j) (tasks (sch y') ! j)" using keep j by (auto simp: ts nth_upd)
  show "(t_state (tasks (sch y') ! j) = Exited) = (t_state (tasks (sch y) ! j) = Exited)"
    using keep j by (auto simp: ts nth_upd)
  show "is_active (t_state (tasks (sch y') ! j))" if "is_idle (sch y) j" "is_active (t_state (tasks (sch y) ! j))"
    using that idle j by (auto simp: ts nth_upd)
  show "task_ok (tasks (sch y') ! j)" if "task_ok (tasks (sch y) ! j)" using that ok j by (simp add: ts nth_upd)
  show "ipc_ok (live_ids (tasks (sch y))) (tasks (sch y') ! j) \<and> phase_ok (pc y' (tid_at y j)) (tasks (sch y') ! j)"
    if "ipc_ok (live_ids (tasks (sch y))) (tasks (sch y) ! j)" "phase_ok (pc y (tid_at y j)) (tasks (sch y) ! j)"
    using that ok i j ne [OF j i] by (auto simp: ts nth_upd pc)
qed (use fr ts pd in \<open>simp_all add: frame_of_def\<close>)

lemma sys_inv_frame:
  assumes "sys_inv y" "tasks (sch y') = tasks (sch y)" "cpus (sch y') = cpus (sch y)"
    "next_id (sch y') = next_id (sch y)" "pend y' = pend y" "pc y' = pc y"
  shows "sys_inv y'"
  by (rule sys_inv_pointwise [OF assms(1)]) (use assms in auto)

section \<open>Preservation\<close>

lemma callsD:
  assumes "sys_inv y" and "calls y cpu i ph"
  shows "i < length (tasks (sch y))" "current_idx cpu (sch y) = Some i" "\<not> is_idle (sch y) i"
    "pc y (tid_at y i) = ph" "phase_ok ph (tasks (sch y) ! i)" "task_ok (tasks (sch y) ! i)"
    "ipc_ok (live_ids (tasks (sch y))) (tasks (sch y) ! i)"
    "t_on_cpu (tasks (sch y) ! i) = Some (of_nat cpu)" "executes y cpu i"
  using assms executes_idx [OF assms(1)] sys_inv_local [OF assms(1)] unfolding calls_def by auto

lemma inv_deliver:
  assumes inv: "sys_inv y" and r: "ri < length (tasks (sch y))" "t_state (tasks (sch y) ! ri) \<noteq> Exited"
    and cap: "length (t_inbox (tasks (sch y) ! ri)) < INBOX_CAPACITY"
    and y': "y' = y\<lparr>sch := (sch y)\<lparr>tasks := (tasks (sch y))[ri := delivered m (tasks (sch y) ! ri)]\<rparr>\<rparr>"
  shows "sys_inv y'"
proof -
  note l = sys_inv_local [OF inv r(1)]
  show ?thesis
  proof (rule sys_inv_one_task [OF inv r(1), where ph = "pc y (tid_at y ri)"])
    show "is_active (t_state (delivered m (tasks (sch y) ! ri)))" if "is_idle (sch y) ri"
      using that inv by (auto simp: is_idle_def sys_inv_def cpu_inv_def cpu_inv_but_def idle_ok_def is_active_def)
    show "phase_ok (pc y (tid_at y ri)) (delivered m (tasks (sch y) ! ri))"
      using l by (cases "pc y (tid_at y ri)") (auto simp: is_active_def delivered_def)
    show "task_ok (delivered m (tasks (sch y) ! ri))"
      using l r cap by (auto simp: task_ok_def)
    show "ipc_ok (live_ids (tasks (sch y))) (delivered m (tasks (sch y) ! ri))"
      using l by (auto simp: ipc_ok_def)
  qed (use r in \<open>simp_all add: y' frame_of_def same_place_def\<close>)
qed

lemma inv_send:
  assumes inv: "sys_inv y" and c: "calls y cpu i Free"
    and post: "post_request cpu r msg (sch y) = Some (Ok k, s')"
    and y': "sch y' = kick ipi k s'" "pend y' = pend y" "pc y' = (pc y)(tid_at y i := SendYield)"
  shows "sys_inv y'"
proof -
  from post obtain ri m where ri: "find_live r (sch y) = Some ri" and ne: "r \<noteq> tid_at y i" "i \<noteq> ri"
    and cap: "length (t_inbox (tasks (sch y) ! ri)) < INBOX_CAPACITY"
    and ts: "tasks s' = (tasks (sch y))[ri := delivered m (tasks (sch y) ! ri), i := blocked_on r (tasks (sch y) ! i)]"
    and fr: "frame_of (sch y) s'"
    using callsD(2) [OF inv c] by (elim post_request_OkE) auto
  note rl = find_live_SomeD [OF ri]
  define y1 where "y1 = y\<lparr>sch := (sch y)\<lparr>tasks := (tasks (sch y))[ri := delivered m (tasks (sch y) ! ri)]\<rparr>\<rparr>"
  have inv1: "sys_inv y1"
    by (rule inv_deliver [OF inv _ _ cap y1_def]) (use rl in auto)
  have t1: "tasks (sch y1) ! i = tasks (sch y) ! i" "length (tasks (sch y1)) = length (tasks (sch y))"
    "pc y1 = pc y" "pend y1 = pend y"
    using ne by (simp_all add: y1_def)
  have live: "live_ids (tasks (sch y1)) = live_ids (tasks (sch y))"
    by (rule live_ids_cong) (auto simp: y1_def nth_upd rl)
  have idle: "is_idle (sch y1) = is_idle (sch y)" by (auto simp: is_idle_def y1_def fun_eq_iff)
  show ?thesis
  proof (rule sys_inv_one_task [OF inv1, of i _ "blocked_on r (tasks (sch y) ! i)" SendYield])
    show "frame_of (sch y1) (sch y')" using fr by (simp add: frame_of_def y' frame_simps y1_def)
    show "tasks (sch y') = (tasks (sch y1))[i := blocked_on r (tasks (sch y) ! i)]"
      by (simp add: y' frame_simps ts y1_def)
    show "ipc_ok (live_ids (tasks (sch y1))) (blocked_on r (tasks (sch y) ! i))"
      using find_live_in_live_ids [OF ri] ne by (simp add: live ipc_ok_def)
    show "task_ok (blocked_on r (tasks (sch y) ! i))"
      using callsD [OF inv c] by (auto simp: task_ok_def is_active_def)
  qed (use callsD [OF inv c] in \<open>auto simp: t1 y' idle same_place_def is_active_def\<close>)
qed

text \<open>Steps of the calling task that change only that task.\<close>

lemma inv_caller:
  assumes inv: "sys_inv y" and c: "calls y cpu i ph" and cur: "current_idx cpu (sch y) = Some me"
    and ph: "ph \<noteq> Dead" and fr: "frame_of (sch y) s'" and ts: "tasks s' = (tasks (sch y))[me := t']"
    and y': "sch y' = s'" "pend y' = pend y" "pc y' = (pc y)(tid_at y i := ph')"
    and keep: "same_place (tasks (sch y) ! i) t'" "t_state t' \<noteq> Exited"
    and ok: "task_ok t'" "ipc_ok (live_ids (tasks (sch y))) t'" "phase_ok ph' t'"
  shows "sys_inv y'"
proof -
  note cd = callsD [OF inv c]
  have me: "me = i" using cd(2) cur by simp
  have "t_state (tasks (sch y) ! i) \<noteq> Exited" using cd(5) ph by (cases ph) (auto simp: is_active_def)
  then show ?thesis
    using sys_inv_one_task [OF inv cd(1), of y' t' ph'] fr ts y' keep ok cd(3) by (simp add: me)
qed

lemma inv_send_check:
  assumes inv: "sys_inv y" and c: "calls y cpu i SendCheck" and sc: "send_check cpu (sch y) = Some (r, s')"
  shows "sys_inv (y\<lparr>sch := s', pc := (pc y)(tid_at y i := Free)\<rparr>) \<and> r = t_reply (tasks (sch y) ! i) \<and> r \<noteq> None"
  using sc
proof (cases rule: send_checkE)
  case (1 me)
  note cd = callsD [OF inv c]
  have me: "me = i" using cd(2) 1(1) by simp
  have a: "is_active (t_state (tasks (sch y) ! i))" "t_reply (tasks (sch y) ! i) \<noteq> None"
    using cd(5,8) by auto
  show ?thesis
  proof (intro conjI)
    show "sys_inv (y\<lparr>sch := s', pc := (pc y)(tid_at y i := Free)\<rparr>)"
      by (rule inv_caller [OF inv c 1(1) _ 1(3,4)])
        (use cd a 1(2) in \<open>auto simp: me same_place_def is_active_def task_ok_def ipc_ok_def\<close>)
  qed (use 1(2) a me in simp_all)
qed

lemma inv_receive:
  assumes inv: "sys_inv y" and c: "calls y cpu i ph" and ph: "ph = Free \<or> ph = RecvRetry"
    and tr: "take_request cpu True (sch y) = Some (r, s')"
  shows "sys_inv (y\<lparr>sch := s', pc := (pc y)(tid_at y i := (if r = None then RecvYield else Free))\<rparr>)"
proof -
  note cd = callsD [OF inv c]
  have a: "is_active (t_state (tasks (sch y) ! i))" "t_reply (tasks (sch y) ! i) = None"
    using cd(5,8) ph by auto
  show ?thesis
    using tr
  proof (cases rule: take_requestE)
    case (msg me m rest)
    then have "me = i" using cd(2) by simp
    with msg show ?thesis
      by (intro inv_caller [OF inv c msg(1) _ msg(5,4)])
        (use cd a ph in \<open>auto simp: same_place_def is_active_def task_ok_def ipc_ok_def\<close>)
  next
    case (wait me)
    then have "me = i" using cd(2) by simp
    with wait show ?thesis
      by (intro inv_caller [OF inv c wait(1) _ wait(6,5)])
        (use cd a ph in \<open>auto simp: same_place_def is_active_def task_ok_def ipc_ok_def\<close>)
  qed simp
qed

lemma inv_try_receive:
  assumes inv: "sys_inv y" and c: "calls y cpu i Free" and tr: "take_request cpu False (sch y) = Some (r, s')"
  shows "sys_inv (y\<lparr>sch := s'\<rparr>)"
proof -
  note cd = callsD [OF inv c]
  show ?thesis
    using tr
  proof (cases rule: take_requestE)
    case (msg me m rest)
    then have "me = i" using cd(2) by simp
    with msg show ?thesis
      by (intro inv_caller [OF inv c msg(1) _ msg(5,4), where ph' = Free])
        (use cd in \<open>auto simp: same_place_def is_active_def task_ok_def ipc_ok_def fun_upd_idem\<close>)
  qed (use inv in simp_all)
qed

lemma inv_sleep:
  assumes inv: "sys_inv y" and c: "calls y cpu i ph" and ph: "ph = Free \<or> ph = SleepCheck until"
    and sl: "sleep_until cpu until (sch y) = Some s'"
  shows "sys_inv (y\<lparr>sch := s', pc := (pc y)(tid_at y i := SleepYield until)\<rparr>)"
  using sl
proof (cases rule: sleep_untilE)
  case (1 me)
  note cd = callsD [OF inv c]
  have "me = i" using cd(2) 1(1) by simp
  with 1 show ?thesis
    by (intro inv_caller [OF inv c 1(1) _ 1(2,3)])
      (use cd ph in \<open>auto simp: same_place_def is_active_def task_ok_def ipc_ok_def\<close>)
qed

lemma inv_wake:
  assumes inv: "sys_inv y" and c: "calls y cpu i (SleepCheck until)"
  shows "sys_inv (y\<lparr>pc := (pc y)(tid_at y i := Free)\<rparr>)"
proof -
  note cd = callsD [OF inv c]
  show ?thesis
    by (rule inv_caller [OF inv c cd(2) _ frame_of_refl, of "tasks (sch y) ! i"])
      (use cd in \<open>auto simp: is_active_def\<close>)
qed

lemma inv_reply:
  assumes inv: "sys_inv y" and c: "calls y cpu i Free" and pr: "post_reply cpu sender msg (sch y) = Some (Ok k, s')"
  shows "sys_inv (y\<lparr>sch := kick ipi k s'\<rparr>)"
  using pr
proof (cases rule: post_reply_OkE)
  case (1 me si m)
  note rl = find_live_SomeD [OF 1(2)]
  note l = sys_inv_local [OF inv, of si]
  have aw: "t_state (tasks (sch y) ! si) = WaitingReply" using 1(4) by (simp add: awaits_def)
  show ?thesis
  proof (rule sys_inv_one_task [OF inv, of si _ "answered m (tasks (sch y) ! si)" "pc y (tid_at y si)"])
    show "phase_ok (pc y (tid_at y si)) (answered m (tasks (sch y) ! si))"
      using l rl aw by (cases "pc y (tid_at y si)") (auto simp: is_active_def)
    show "frame_of (sch y) (sch (y\<lparr>sch := kick ipi k s'\<rparr>))" using 1(6) by (simp add: frame_of_def frame_simps)
    show "tasks (sch (y\<lparr>sch := kick ipi k s'\<rparr>)) = (tasks (sch y))[si := answered m (tasks (sch y) ! si)]"
      using 1(5) by (simp add: frame_simps)
  qed (use rl l aw in \<open>auto simp: same_place_def is_active_def task_ok_def ipc_ok_def\<close>)
qed

text \<open>
  Exit: the task leaves the set of live tasks, and every task that waited on it has its answer.
\<close>

lemma aborted_ok:
  assumes "ipc_ok L t" and "t_reply t = None \<or> t_state t \<noteq> WaitingReply"
  shows "ipc_ok (L - {tid}) (aborted tid t)"
  using assms by (auto simp: ipc_ok_def aborted_def awaits_def)

lemma aborted_phase: "phase_ok p t \<Longrightarrow> phase_ok p (aborted tid t)"
  by (cases p) (auto simp: aborted_def awaits_def is_active_def)

lemma aborted_state:
  "t_state (aborted tid t) = t_state t \<or> t_state t = WaitingReply \<and> t_state (aborted tid t) = Ready"
  by (auto simp: aborted_def awaits_def)

lemma live_ids_exit:
  assumes ok: "ids_ok n ts" and i: "i < length ts" and len: "length ts' = length ts"
    and ids: "map t_id ts' = map t_id ts"
    and st: "\<And>j. j < length ts \<Longrightarrow> t_state (ts' ! j) \<noteq> Exited \<longleftrightarrow> j \<noteq> i \<and> t_state (ts ! j) \<noteq> Exited"
  shows "live_ids ts' = live_ids ts - {t_id (ts ! i)}"
proof -
  have id: "t_id (ts' ! j) = t_id (ts ! j)" if "j < length ts" for j
    using arg_cong [OF ids, of "\<lambda>xs. xs ! j"] that len by simp
  have "x \<in> live_ids ts' \<longleftrightarrow> (\<exists>j < length ts. x = t_id (ts ! j) \<and> j \<noteq> i \<and> t_state (ts ! j) \<noteq> Exited)" for x
    unfolding live_ids_def len using id st by (simp, metis)
  moreover have "x \<in> live_ids ts \<longleftrightarrow> (\<exists>j < length ts. x = t_id (ts ! j) \<and> t_state (ts ! j) \<noteq> Exited)" for x
    unfolding live_ids_def by auto
  ultimately show ?thesis
    using ids_ok_nth_eq [OF ok _ i] by (intro set_eqI) (metis Diff_iff singleton_iff)
qed

lemma inv_exit:
  assumes inv: "sys_inv y" and c: "calls y cpu i Free" and me: "mark_exited cpu (sch y) = Some (k, s')"
    and y': "sch y' = kick ipi k s'" "pend y' = pend y" "pc y' = (pc y)(tid_at y i := Dead)"
  shows "sys_inv y'"
  using me
proof (cases rule: mark_exitedE)
  case (1 m)
  note cd = callsD [OF inv c]
  let ?ts = "tasks (sch y)" and ?L = "live_ids (tasks (sch y))" and ?id = "tid_at y i"
  have m: "m = i" using cd(2) 1(1) by simp
  have fr: "frame_of (sch y) (sch y')" using 1(2) by (simp add: frame_of_def frame_simps y')
  have nth: "tasks (sch y') ! j = aborted ?id (if j = i then gone (?ts ! i) else ?ts ! j)" if "j < length ?ts" for j
    using 1(3) that by (simp add: m frame_simps nth_upd y')
  have len: "length (tasks (sch y')) = length ?ts" using 1(3) by (simp add: frame_simps y')
  have gone: "aborted ?id (gone (?ts ! i)) = gone (?ts ! i)" by (simp add: aborted_def awaits_def)
  note ne = ids_ok_nth_eq [OF sys_inv_ids [OF inv]]
  have ids: "map t_id (tasks (sch y')) = map t_id ?ts"
    using len by (intro nth_equalityI) (simp_all add: nth)
  have idj: "t_id (tasks (sch y') ! j) = tid_at y j" if "j < length ?ts" for j
    using that by (simp add: nth)
  have st: "t_state (tasks (sch y') ! j) \<noteq> Exited \<longleftrightarrow> j \<noteq> i \<and> t_state (?ts ! j) \<noteq> Exited" if "j < length ?ts" for j
    using that aborted_state [of ?id "?ts ! j"] by (auto simp: nth gone)
  have live: "live_ids (tasks (sch y')) = ?L - {?id}"
    by (rule live_ids_exit [OF sys_inv_ids [OF inv] cd(1) len ids]) (use st in auto)
  have cpu: "cpu_inv (sch y')"
    unfolding cpu_inv_def
  proof (rule cpu_inv_transfer [of _ "sch y"])
    fix j assume j: "j < length ?ts"
    show "idle_ok d (tasks (sch y') ! j)" if "is_idle (sch y) j" "idle_ok d (?ts ! j)" for d
      using that j cd(3) aborted_state [of ?id "?ts ! j"] by (auto simp: nth idle_ok_def is_active_def)
    show "task_ok (tasks (sch y') ! j)" if "task_ok (?ts ! j)"
      using that j by (auto simp: nth gone task_ok_def aborted_def awaits_def)
  qed (use inv fr len in \<open>auto simp: sys_inv_def cpu_inv_def frame_of_def nth\<close>)
  have loc: "ipc_ok (?L - {?id}) (tasks (sch y') ! j) \<and> phase_ok (pc y' (tid_at y j)) (tasks (sch y') ! j)"
    if j: "j < length ?ts" for j
  proof (cases "j = i")
    case True
    then show ?thesis using j by (simp add: nth gone ipc_ok_def y'(3))
  next
    case False
    then show ?thesis
      using j sys_inv_local [OF inv j] ne [OF j cd(1)]
      by (auto simp: nth y'(3) intro!: aborted_ok aborted_phase) (auto simp: ipc_ok_def)
  qed
  have "pc y' x = Free" if "pc y x = Free" "x \<noteq> ?id" for x using that by (simp add: y')
  moreover have "t_id t \<noteq> ?id" if "t \<in> set (pend y)" for t
    by (rule sys_inv_pend_id [OF inv that cd(1)])
  moreover have "x \<noteq> ?id" if "next_id (sch y) \<le> x" for x
    using sys_inv_id_less [OF inv cd(1)] that by auto
  moreover have "ids_ok (next_id (sch y')) (tasks (sch y') @ pend y')"
    using inv fr ids by (auto simp: y' sys_inv_def frame_of_def intro: ids_ok_same_ids [of _ "?ts @ pend y"])
  ultimately show ?thesis
    using inv cpu loc fr idj unfolding sys_inv_def frame_of_def live len y'(2) by simp
qed

text \<open>Creation: the identity is given out first, the task enters the vector later.\<close>

lemma next_task_id_SomeD:
  "next_task_id s = Some (i, s') \<Longrightarrow> i = next_id s \<and> next_id s \<noteq> - 1 \<and> s' = s\<lparr>next_id := next_id s + 1\<rparr>"
  by (auto simp: next_task_id_def split: if_splits)

lemma sys_inv_new_id:
  assumes inv: "sys_inv y" and n: "next_id (sch y) \<noteq> - 1" and t: "fresh_ok t" "t_id t = next_id (sch y)"
    and y': "tasks (sch y') = tasks (sch y)" "cpus (sch y') = cpus (sch y)"
      "next_id (sch y') = next_id (sch y) + 1" "pend y' = pend y @ [t]" "pc y' = pc y"
  shows "sys_inv y'"
proof -
  have "cpu_inv (sch y')" using inv cpu_inv_cong [of "sch y'" "sch y"] y' by (simp add: sys_inv_def cpu_inv_def)
  moreover have "ids_ok (next_id (sch y')) (tasks (sch y') @ pend y')"
    using inv t y' n ids_ok_new [of "next_id (sch y)" "tasks (sch y) @ pend y" t] by (simp add: sys_inv_def)
  moreover have "0 < next_id (sch y')" using n inv by (simp add: y' less_inc_iff)
  ultimately show ?thesis
    using inv t y' n by (auto simp: sys_inv_def inc_le_iff)
qed

lemma tcb_new_SomeD:
  "tcb_new entry stack prio name s = Some (t, s') \<Longrightarrow>
     fresh_ok t \<and> t_id t = next_id s \<and> next_id s \<noteq> - 1 \<and> tasks s' = tasks s \<and> cpus s' = cpus s \<and>
     next_id s' = next_id s + 1 \<and> rr_cursor s' = rr_cursor s \<and> jiffies s' = jiffies s"
  by (auto simp: tcb_new_def Let_def bind_eq_Some_conv fresh_ok_def frame_simps dest!: next_task_id_SomeD)

lemma tcb_new_user_SomeD:
  assumes "tcb_new_user ph entry sp arg space slot stack prio name s = Some (t, s')"
  shows "fresh_ok t \<and> t_id t = next_id s \<and> next_id s \<noteq> - 1 \<and> tasks s' = tasks s \<and> cpus s' = cpus s \<and>
     next_id s' = next_id s + 1"
proof -
  from assms obtain t0 s0 where n: "tcb_new ph stack prio name s = Some (t0, s0)"
    and t: "t = t0\<lparr>t_user := True, t_spec_store_bypass_disable := True, t_address_space := space,
       t_user_slot := Some slot\<rparr>"
    and s': "tasks s' = tasks s0" "cpus s' = cpus s0" "next_id s' = next_id s0"
    by (auto simp: tcb_new_user_def Let_def bind_eq_Some_conv frame_simps)
  from tcb_new_SomeD [OF n] show ?thesis by (simp add: s' t fresh_ok_def)
qed

lemma sys_inv_swap_pend:
  "sys_inv y \<Longrightarrow> pend y = us @ t # vs \<Longrightarrow>
     ids_ok (next_id (sch y)) (tasks (sch y) @ t # us @ vs) \<and> fresh_ok t \<and> pc y (t_id t) = Free"
  by (auto simp: sys_inv_def ids_ok_def)

lemma inv_add:
  assumes inv: "sys_inv y" and pd: "pend y = us @ t # vs"
    and y': "sch y' = kick ipi k (snd (add_task t (sch y)))" "pend y' = us @ vs" "pc y' = pc y"
  shows "sys_inv y'"
proof -
  let ?ts = "tasks (sch y)"
  note sw = sys_inv_swap_pend [OF inv pd]
  have fr: "cpus (sch y') = cpus (sch y)" "next_id (sch y') = next_id (sch y)"
    by (simp_all add: y' frame_simps add_task_def split: option.split)
  have cpu: "cpu_inv (sch y')"
    using cpu_inv_add_task [of "sch y" t] inv sw
    by (simp add: y' cpu_inv_def frame_simps sys_inv_def)
  have L: "ids_ok (next_id (sch y)) (tasks (sch y') @ pend y') \<and> live_ids ?ts \<subseteq> live_ids (tasks (sch y')) \<and>
    (\<forall>u \<in> set (tasks (sch y')). u = t \<or> u \<in> set ?ts)"
  proof (cases "position (\<lambda>t. t_state t = Exited \<and> t_reaped t) ?ts")
    case None
    then have ts: "tasks (sch y') = ?ts @ [t]" by (simp add: y' frame_simps add_task_def)
    show ?thesis using sw by (auto simp: ts y'(2) live_ids_def nth_append ids_ok_def)
  next
    case (Some i)
    then have ts: "tasks (sch y') = ?ts[i := t]" and i: "i < length ?ts" "t_state (?ts ! i) = Exited"
      by (auto simp: y' frame_simps add_task_def dest: position_SomeD)
    have "live_ids ?ts \<subseteq> live_ids (?ts[i := t])"
    proof
      fix x assume "x \<in> live_ids ?ts"
      then obtain j where "j < length ?ts" "x = t_id (?ts ! j)" "t_state (?ts ! j) \<noteq> Exited"
        unfolding live_ids_def by auto
      with i show "x \<in> live_ids (?ts[i := t])"
        unfolding live_ids_def by (cases "j = i") (auto intro!: exI [of _ j])
    qed
    moreover have "ids_ok (next_id (sch y)) (?ts[i := t] @ us @ vs)"
      using sw ids_ok_replace [of "next_id (sch y)" ?ts t "us @ vs" i] by simp
    ultimately show ?thesis using set_update_subset_insert [of ?ts i t] by (auto simp: ts y'(2))
  qed
  have loc: "ipc_ok (live_ids (tasks (sch y'))) u \<and> phase_ok (pc y (t_id u)) u" if u: "u \<in> set (tasks (sch y'))" for u
  proof (cases "u = t")
    case True
    then show ?thesis using sw by (auto simp: fresh_ok_def is_active_def intro: ipc_ok_active)
  next
    case False
    then obtain j where "j < length ?ts" "u = ?ts ! j" using L u by (metis in_set_conv_nth)
    then show ?thesis using sys_inv_local [OF inv] L ipc_ok_mono by blast
  qed
  show ?thesis
    using inv cpu L loc nth_mem unfolding sys_inv_def fr y'(2,3) by (auto simp: pd)
qed

lemma inv_register:
  assumes inv: "sys_inv y" and c: "cpu < 64" "\<not> p_registered (cpus (sch y) ! cpu)"
    and reg: "register_cpu cpu hw (sch y) = Some (tid, s')"
  shows "sys_inv (y\<lparr>sch := s'\<rparr>)"
  using reg
proof (rule register_cpuE)
  fix idle
  assume a: "t_id idle = next_id (sch y)" "t_state idle = Running" "t_reply idle = None"
    "next_id (sch y) \<noteq> - 1" "next_id s' = next_id (sch y) + 1" "tasks s' = tasks (sch y) @ [idle]"
  let ?ts = "tasks (sch y)" and ?n = "next_id (sch y)"
  have cpu: "cpu_inv s'"
    using cpu_inv_register_cpu [OF _ c reg] inv by (simp add: sys_inv_def)
  have n: "ids_ok (?n + 1) ((?ts @ pend y) @ [idle])"
    using ids_ok_new [of ?n "?ts @ pend y" idle] inv a by (simp add: sys_inv_def)
  then have ids: "ids_ok (?n + 1) (tasks s' @ pend y)"
    by (auto simp: a ids_ok_def)
  have sub: "live_ids ?ts \<subseteq> live_ids (tasks s')"
    unfolding live_ids_def a by (auto simp: nth_append intro: less_SucI)
  have loc: "ipc_ok (live_ids (tasks s')) (tasks s' ! i) \<and> phase_ok (pc y (t_id (tasks s' ! i))) (tasks s' ! i)"
    if i: "i < length (tasks s')" for i
  proof (cases "i < length ?ts")
    case True
    then show ?thesis using sys_inv_local [OF inv True] ipc_ok_mono [OF _ sub] by (simp add: a nth_append)
  next
    case False
    with i have "tasks s' ! i = idle" by (simp add: a nth_append less_Suc_eq)
    then show ?thesis using inv a by (simp add: ipc_ok_active is_active_def sys_inv_def)
  qed
  have "0 < next_id s'" using a inv by (simp add: less_inc_iff)
  then show ?thesis
    using inv cpu ids loc a by (simp add: sys_inv_def inc_le_iff less_imp_le)
qed

lemma reap_local:
  assumes r: "reapable_task t" and t': "t' = reap t"
  shows "same_place t t'" "t_state t' = Exited \<longleftrightarrow> t_state t = Exited" "is_active (t_state t') = is_active (t_state t)"
    "task_ok t \<Longrightarrow> task_ok t'" "ipc_ok L t'" "phase_ok p t \<Longrightarrow> phase_ok p t'"
proof -
  have e: "t_state t = Exited" "t_on_cpu t = None" using r by (simp_all add: reapable_task_def)
  then show "same_place t t'" "t_state t' = Exited \<longleftrightarrow> t_state t = Exited" "is_active (t_state t') = is_active (t_state t)"
    "task_ok t \<Longrightarrow> task_ok t'" "ipc_ok L t'"
    by (simp_all add: t' reap_def same_place_def task_ok_def ipc_ok_def)
  show "phase_ok p t'" if "phase_ok p t"
    using that e by (cases p) (simp_all add: t' reap_def is_active_def)
qed

lemma inv_collect:
  assumes inv: "sys_inv y"
    and y': "sch y' = snd (collect_exited (sch y))" "pend y' = pend y" "pc y' = pc y"
  shows "sys_inv y'"
proof (rule sys_inv_pointwise [OF inv])
  fix j assume j: "j < length (tasks (sch y))"
  have n: "tasks (sch y') ! j = tasks (sch y) ! j \<or>
    reapable_task (tasks (sch y) ! j) \<and> tasks (sch y') ! j = reap (tasks (sch y) ! j)"
    using collect_loop_nth [OF j, of "[]"] by (simp add: y')
  note r = reap_local [of "tasks (sch y) ! j" "tasks (sch y') ! j"]
  show "same_place (tasks (sch y) ! j) (tasks (sch y') ! j)" using n r(1) by (metis same_place_refl)
  show "(t_state (tasks (sch y') ! j) = Exited) = (t_state (tasks (sch y) ! j) = Exited)" using n r(2) by metis
  show "is_active (t_state (tasks (sch y') ! j))" if "is_active (t_state (tasks (sch y) ! j))"
    using n r(3) that by metis
  show "task_ok (tasks (sch y') ! j)" if "task_ok (tasks (sch y) ! j)" using n r(4) that by metis
  show "ipc_ok (live_ids (tasks (sch y))) (tasks (sch y') ! j) \<and> phase_ok (pc y' (tid_at y j)) (tasks (sch y') ! j)"
    if "ipc_ok (live_ids (tasks (sch y))) (tasks (sch y) ! j)" "phase_ok (pc y (tid_at y j)) (tasks (sch y) ! j)"
    using n r(5,6) that unfolding y'(3) by metis
qed (simp_all add: y' collect_exited_def case_prod_beta)

text \<open>
  A tick: what becomes of task \<open>j\<close> when \<open>cur\<close> is parked and \<open>nx\<close> is switched to. Its phase may
  advance past a yield only if it is the parked task.
\<close>

lemma tick_phase:
  assumes ph: "phase_ok p t" and p': "p' = p \<or> parked \<and> p' = after_yield p"
    and t1: "t1 = (if parked then saved_task rsp timer (woken_task now t) else woken_task now t)"
  shows "phase_ok p' t1 \<and> (t_state t1 = Ready \<longrightarrow> phase_ok p' (running_task cpu t1))"
  using ph p' by (cases p) (auto simp: t1 woken_task_def due_def is_active_def)

lemma tick_ipc:
  assumes "ipc_ok L t" and "t1 = (if parked then saved_task rsp timer (woken_task now t) else woken_task now t)"
  shows "ipc_ok L t1 \<and> ipc_ok L (running_task cpu t1)"
  using assms by (auto simp: ipc_ok_def woken_task_def)

lemma inv_tick:
  assumes inv: "sys_inv y" and ex: "executes y cpu i" and tick: "on_tick ipi cpu sp timer (sch y) = Some (sp', s')"
    and ph: "ph = pc y (tid_at y i) \<or> ph = after_yield (pc y (tid_at y i))"
    and y': "sch y' = s'" "pend y' = pend y" "pc y' = (pc y)(tid_at y i := ph)"
  shows "sys_inv y'"
proof -
  let ?ts = "tasks (sch y)" and ?L = "live_ids (tasks (sch y))"
  note e = executes_idx [OF inv ex]
  have inv0: "cpu_inv (sch y)" using inv by (simp add: sys_inv_def)
  from e have e1: "cpu < 64" and e2: "p_registered (cpus (sch y) ! cpu)" by simp_all
  obtain cur nx ts s1 where cur: "p_current (cpus (sch y) ! cpu) = Some cur"
    and ts: "ts = parked_tasks (tick_now cpu timer (sch y)) cur sp timer ?ts"
    and nx: "nx < length ?ts" "t_state (ts ! nx) = Ready"
    and s1: "on_tick ipi cpu sp timer (sch y) = Some (t_context_ptr (ts ! nx), s1)"
    and ts1: "tasks s1 = ts[nx := running_task cpu (ts ! nx)]" and n1: "next_id s1 = next_id (sch y)" and c1: "cpu_inv s1"
    by (rule on_tick_cases [OF inv0 e1 e2, where rsp = sp and timer = timer and ipi = ipi]) (rule that; assumption)
  from s1 tick have "s1 = s'" by simp
  note ts' = ts1 [unfolded this] and n = n1 [unfolded this] and c = c1 [unfolded this]
  have cur_i: "cur = i" using cur ex by (simp add: executes_def)
  have nth: "tasks s' ! j = (if j = nx then running_task cpu (ts ! j) else ts ! j)" if "j < length ?ts" for j
    using that by (auto simp: ts' ts nth_upd)
  have tj: "ts ! j = (if j = i then saved_task sp timer (woken_task (tick_now cpu timer (sch y)) (?ts ! j))
      else woken_task (tick_now cpu timer (sch y)) (?ts ! j))" if "j < length ?ts" for j
    using that by (simp add: ts nth_parked cur_i)
  have len: "length (tasks s') = length ?ts" by (simp add: ts' ts)
  have idj: "t_id (tasks s' ! j) = tid_at y j" if "j < length ?ts" for j
    using that by (simp add: nth tj)
  have stj: "t_state (tasks s' ! j) = Exited \<longleftrightarrow> t_state (?ts ! j) = Exited" if "j < length ?ts" for j
    using that nx(2) by (auto simp: nth tj woken_task_def due_def)
  have live: "live_ids (tasks s') = ?L" by (rule live_ids_cong [OF len]) (use idj stj in simp)
  have ids: "map t_id (tasks s') = map t_id ?ts"
    using len idj by (intro nth_equalityI) simp_all
  have loc: "ipc_ok ?L (tasks s' ! j) \<and> phase_ok (pc y' (tid_at y j)) (tasks s' ! j)" if j: "j < length ?ts" for j
  proof -
    have "pc y' (tid_at y j) = pc y (tid_at y j) \<or> j = i \<and> pc y' (tid_at y j) = after_yield (pc y (tid_at y j))"
      using ph ids_ok_nth_eq [OF sys_inv_ids [OF inv] j, of i] e by (auto simp: y')
    then show ?thesis
      using tick_phase [OF _ _ tj [OF j]] tick_ipc [OF _ tj [OF j]] sys_inv_local [OF inv j] nx(2)
      by (auto simp: nth j)
  qed
  have far: "pc y' x = pc y x" if "x \<noteq> tid_at y i" for x using that by (simp add: y')
  have "ids_ok (next_id (sch y')) (tasks (sch y') @ pend y')"
    using inv n ids by (auto simp: y' sys_inv_def intro: ids_ok_same_ids [of _ "?ts @ pend y"])
  moreover have "\<forall>t \<in> set (pend y). fresh_ok t \<and> pc y' (t_id t) = Free"
    using inv far sys_inv_pend_id [OF inv _ conjunct1 [OF e]] by (simp add: sys_inv_def)
  moreover have "\<forall>x. next_id (sch y) \<le> x \<longrightarrow> pc y' x = Free"
    using inv far sys_inv_id_less [OF inv conjunct1 [OF e]] by (auto simp: sys_inv_def)
  ultimately show ?thesis
    using inv c n loc idj live len unfolding sys_inv_def y'(1,2) by simp
qed

lemma inv_store_bypass:
  assumes inv: "sys_inv y" and ex: "executes y cpu i"
    and st: "set_store_bypass_disable change cpu requested (sch y) = Some (r, s')"
  shows "sys_inv (y\<lparr>sch := s'\<rparr>)"
proof (cases "change requested")
  case (Inl e)
  with st inv show ?thesis by (auto simp: set_store_bypass_disable_def)
next
  case (Inr u)
  note e = executes_idx [OF inv ex]
  let ?t = "(tasks (sch y) ! i)\<lparr>t_spec_store_bypass_disable := requested\<rparr>"
  have ts: "tasks s' = (tasks (sch y))[i := ?t]" and fr: "frame_of (sch y) s'"
    using st e Inr by (auto simp: set_store_bypass_disable_def Let_def frame_simps frame_of_def simp del: current_idx_Some)
  note l = sys_inv_local [OF inv, of i]
  show ?thesis
  proof (rule sys_inv_pointwise [OF inv])
    fix j assume j: "j < length (tasks (sch y))"
    let ?t' = "tasks (sch (y\<lparr>sch := s'\<rparr>)) ! j" and ?u = "tasks (sch y) ! j"
    have t': "?t' = (if j = i then ?u\<lparr>t_spec_store_bypass_disable := requested\<rparr> else ?u)"
      using j by (auto simp: ts nth_upd)
    show "same_place ?u ?t'" "(t_state ?t' = Exited) = (t_state ?u = Exited)"
      "is_active (t_state ?u) \<Longrightarrow> is_active (t_state ?t')" "task_ok ?u \<Longrightarrow> task_ok ?t'"
      unfolding t' by (auto simp: same_place_def task_ok_def)
    show "ipc_ok (live_ids (tasks (sch y))) ?t' \<and> phase_ok (pc (y\<lparr>sch := s'\<rparr>) (tid_at y j)) ?t'"
      if "ipc_ok (live_ids (tasks (sch y))) ?u" "phase_ok (pc y (tid_at y j)) ?u"
      using that unfolding t' by (cases "pc y (tid_at y j)") (auto simp: ipc_ok_def)
  qed (use fr ts in \<open>simp_all add: frame_of_def\<close>)
qed

section \<open>Every reachable state\<close>

lemma inv_boot:
  assumes "sched_init hw scheduler_new = Some s"
  shows "sys_inv \<lparr>sch = s, pend = [], pc = (\<lambda>_. Free)\<rparr>"
proof -
  let ?y0 = "\<lparr>sch = scheduler_new\<lparr>initialized := True\<rparr>, pend = [], pc = (\<lambda>_. Free)\<rparr>"
  have "sys_inv ?y0"
    using cpu_inv_new by (simp add: sys_inv_def cpu_inv_def frame_simps ids_ok_def) (simp add: scheduler_new_def)
  moreover from assms obtain tid where "register_cpu 0 hw (sch ?y0) = Some (tid, s)"
    by (auto simp: sched_init_def scheduler_new_def bind_eq_Some_conv)
  moreover have "\<not> p_registered (cpus (sch ?y0) ! 0)"
    by (simp add: scheduler_new_def MAX_CPUS_def percpu_empty_def)
  ultimately show ?thesis using inv_register [of ?y0 0 hw tid s] by simp
qed

lemma send_begin_cases:
  "send_begin ipi cpu r rqb s = Some (res, rqb', s') \<Longrightarrow>
     (\<exists>k s1. res = None \<and> post_request cpu r rqb s = Some (Ok k, s1) \<and> s' = kick ipi k s1) \<or>
     (\<exists>e. res = Some e \<and> rqb' = set_status rqb e \<and> post_request cpu r rqb s = Some (Err e, s'))"
  by (cases "post_request cpu r rqb s"; cases "fst (the (post_request cpu r rqb s))")
    (auto simp: send_begin_def)

lemma reply_rqb_cases:
  "reply_rqb ipi cpu r rqb s = Some (st, s') \<Longrightarrow>
     (\<exists>k s1. st = Success \<and> post_reply cpu r rqb s = Some (Ok k, s1) \<and> s' = kick ipi k s1) \<or>
     post_reply cpu r rqb s = Some (Err st, s')"
  by (cases "post_reply cpu r rqb s"; cases "fst (the (post_reply cpu r rqb s))")
    (auto simp: reply_rqb_def)

theorem sys_inv_step:
  assumes "sys_inv y" and "sys_step ipi y y'"
  shows "sys_inv y'"
  using assms(2)
proof cases
  case (register_ap cpu hw tid s')
  then show ?thesis using inv_register [OF assms(1)] by (simp add: MAX_CPUS_def)
next
  case (interrupt cpu i sp timer sp' s')
  then show ?thesis by (intro inv_tick [OF assms(1) interrupt(2,3), where ph = "pc y (tid_at y i)"]) simp_all
next
  case (yield cpu i sp sp' s')
  then show ?thesis by (intro inv_tick [OF assms(1) yield(2,4), where ph = "after_yield (pc y (tid_at y i))"]) simp_all
next
  case (send cpu i r rqb rqb' s')
  then obtain k s1 where "post_request cpu r rqb (sch y) = Some (Ok k, s1)" "s' = kick ipi k s1"
    using send_begin_cases by fastforce
  then show ?thesis using inv_send [OF assms(1) send(2)] send(1) by simp
next
  case (send_fail cpu i r rqb e rqb' s')
  then have "s' = sch y" using send_begin_cases [OF send_fail(3)] post_request_Err by auto
  then show ?thesis using send_fail(1) assms(1) by simp
next
  case (send_done cpu i r s')
  then show ?thesis using inv_send_check [OF assms(1)] by blast
next
  case (send_again cpu i s')
  then show ?thesis using inv_send_check [OF assms(1)] by blast
next
  case (receive cpu i ph m s')
  then show ?thesis using inv_receive [OF assms(1) receive(2-4)] by simp
next
  case (receive_wait cpu i ph s')
  then show ?thesis using inv_receive [OF assms(1) receive_wait(2-4)] by simp
next
  case (try_receive cpu i r s')
  then show ?thesis using inv_try_receive [OF assms(1)] by simp
next
  case (reply cpu i sender rqb st s')
  then show ?thesis
    using reply_rqb_cases [OF reply(3)] inv_reply [OF assms(1) reply(2)] assms(1)
    by (auto dest!: post_reply_Err)
next
  case (sleep cpu i ph u s')
  then show ?thesis using inv_sleep [OF assms(1) sleep(2-4)] by simp
next
  case (wake cpu i u)
  then show ?thesis using inv_wake [OF assms(1)] by simp
next
  case (exit cpu i s')
  then obtain k s1 where "mark_exited cpu (sch y) = Some (k, s1)" "s' = kick ipi k s1"
    by (auto simp: mark_current_exited_def bind_eq_Some_conv)
  then show ?thesis using inv_exit [OF assms(1) exit(2)] exit(1) by simp
next
  case (new_task entry stack prio name t s')
  then show ?thesis
    using tcb_new_SomeD [OF new_task(2)] by (intro sys_inv_new_id [OF assms(1), of t]) simp_all
next
  case (new_user_task placeholder entry sp arg space slot stack prio name t s' d h)
  note n = tcb_new_user_SomeD [OF new_user_task(2)]
  then show ?thesis
    using new_user_task(1)
    by (intro sys_inv_new_id [OF assms(1), of "t\<lparr>t_high_res_time := h, t_spec_store_bypass_disable := d\<rparr>"])
      (simp_all add: fresh_ok_def)
next
  case (add us t vs tid s' cpu)
  then show ?thesis using inv_add [OF assms(1) add(2), of y'] by simp
next
  case (collect batch s')
  then show ?thesis using inv_collect [OF assms(1), of y'] by simp
next
  case (released k)
  then show ?thesis by (intro sys_inv_frame [OF assms(1)]) simp_all
next
  case (store_bypass cpu i change requested r s')
  then show ?thesis using inv_store_bypass [OF assms(1)] by simp
qed

theorem reachable_inv: "reachable ipi y \<Longrightarrow> sys_inv y"
  by (induction rule: reachable.induct) (auto intro: inv_boot sys_inv_step)

end
