(* ===== verification/Sched_Theorems.thy ===== *)
theory Sched_Theorems
  imports Sched_System
begin

text \<open>
  What the scheduler guarantees: properties of every reachable state of the transition system, the
  round-robin guarantee, and the behaviour of the blocking primitives, with runs of the system that
  exercise them.
\<close>

section \<open>A run of the system\<close>

text \<open>
  A boot CPU and two tasks, numbered 2 and 3. Task 2 sends a request to task 3 and blocks; task 3
  receives it, answers and gives up the CPU; task 2 is switched back in.
\<close>

definition demo_stack :: KernelStack where
  "demo_stack = \<lparr>ks_virt = 0x100000, ks_phys = 0x5000, ks_size = TASK_STACK_SIZE\<rparr>"

definition demo_boot :: System where
  "demo_boot = \<lparr>sch = the (sched_init 0 scheduler_new), pend = [], pc = (\<lambda>_. Free)\<rparr>"

definition demo_new :: "System \<Rightarrow> System" where
  "demo_new y = (let (t, s) = the (tcb_new 0x1000 demo_stack PRIORITY_DEFAULT ''task'' (sch y))
     in y\<lparr>sch := s, pend := pend y @ [t]\<rparr>)"

definition demo_add :: "System \<Rightarrow> System" where
  "demo_add y = (let s = snd (add_task (hd (pend y)) (sch y))
     in y\<lparr>sch := kick True (find_idle_cpu 0 s) s, pend := tl (pend y)\<rparr>)"

definition demo_tick :: "System \<Rightarrow> System" where
  "demo_tick y = y\<lparr>sch := snd (the (on_tick True 0 0x2000 True (sch y)))\<rparr>"

definition demo_yield :: "nat \<Rightarrow> System \<Rightarrow> System" where
  "demo_yield i y = y\<lparr>sch := snd (the (on_tick True 0 0x2000 False (sch y))),
     pc := (pc y)(tid_at y i := after_yield (pc y (tid_at y i)))\<rparr>"

definition demo_send :: "System \<Rightarrow> System" where
  "demo_send y = y\<lparr>sch := snd (snd (the (send_begin True 0 3 (with_service SVC_TEXT_UPPER) (sch y)))),
     pc := (pc y)(tid_at y 1 := SendYield)\<rparr>"

definition demo_recv :: "System \<Rightarrow> System" where
  "demo_recv y = y\<lparr>sch := snd (the (take_request 0 True (sch y))), pc := (pc y)(tid_at y 2 := Free)\<rparr>"

definition demo_reply :: "System \<Rightarrow> System" where
  "demo_reply y = y\<lparr>sch := snd (the (reply_rqb True 0 2 rqb_new (sch y)))\<rparr>"

definition demo_ready :: System where
  "demo_ready = demo_add (demo_new (demo_add (demo_new demo_boot)))"

definition demo_sending :: System where
  "demo_sending = demo_send (demo_tick demo_ready)"

definition demo_serving :: System where
  "demo_serving = demo_recv (demo_yield 1 demo_sending)"

definition demo_answered :: System where
  "demo_answered = demo_yield 2 (demo_reply demo_serving)"

lemma reachable_new:
  "reachable True y \<Longrightarrow> next_id (sch y) \<noteq> - 1 \<Longrightarrow> reachable True (demo_new y)"
  by (auto simp: demo_new_def tcb_new_def next_task_id_def Let_def frame_simps split: if_splits
      intro!: reachable.step [of True y] sys_step.new_task simp: tcb_new_def)

lemma reachable_add:
  assumes "reachable True y" and "pend y \<noteq> []"
  shows "reachable True (demo_add y)"
proof -
  from assms(2) obtain t ts where p: "pend y = t # ts" by (cases "pend y") auto
  have "sys_step True y (demo_add y)"
    using sys_step.add [of y "[]" t ts, OF _ prod.collapse [symmetric], of True 0] p
    by (simp add: demo_add_def Let_def)
  with assms(1) show ?thesis by (rule reachable.step)
qed

lemma reachable_tick:
  "reachable True y \<Longrightarrow> executes y 0 i \<Longrightarrow> on_tick True 0 0x2000 True (sch y) \<noteq> None \<Longrightarrow> reachable True (demo_tick y)"
  by (rule reachable.step, assumption) (auto simp: demo_tick_def intro!: sys_step.interrupt)

lemma reachable_yield:
  "reachable True y \<Longrightarrow> executes y 0 i \<Longrightarrow> may_yield (pc y (tid_at y i)) \<Longrightarrow>
     on_tick True 0 0x2000 False (sch y) \<noteq> None \<Longrightarrow> reachable True (demo_yield i y)"
  by (rule reachable.step, assumption) (auto simp: demo_yield_def intro!: sys_step.yield)

lemma reachable_send:
  "reachable True y \<Longrightarrow> calls y 0 1 Free \<Longrightarrow>
     map_option fst (send_begin True 0 3 (with_service SVC_TEXT_UPPER) (sch y)) = Some None \<Longrightarrow> reachable True (demo_send y)"
  by (rule reachable.step, assumption) (auto simp: demo_send_def intro!: sys_step.send)

lemma reachable_recv:
  "reachable True y \<Longrightarrow> calls y 0 2 Free \<Longrightarrow> (\<exists>m s. take_request 0 True (sch y) = Some (Some m, s)) \<Longrightarrow>
     reachable True (demo_recv y)"
  by (rule reachable.step, assumption) (auto simp: demo_recv_def intro!: sys_step.receive)

lemma reachable_reply:
  "reachable True y \<Longrightarrow> calls y 0 2 Free \<Longrightarrow> reply_rqb True 0 2 rqb_new (sch y) \<noteq> None \<Longrightarrow>
     reachable True (demo_reply y)"
  by (rule reachable.step, assumption) (auto simp: demo_reply_def intro!: sys_step.reply)

lemma demo_ready_reachable: "reachable True demo_ready"
proof -
  have "reachable True demo_boot"
    unfolding demo_boot_def by (rule reachable.boot [of 0]) (simp add: sched_init_def register_cpu_def
      scheduler_new_def adopt_current_def next_task_id_def Let_def MAX_CPUS_def)
  then have "reachable True (demo_new demo_boot)" by (rule reachable_new) code_simp
  then have "reachable True (demo_add (demo_new demo_boot))" by (rule reachable_add) code_simp
  then have "reachable True (demo_new (demo_add (demo_new demo_boot)))" by (rule reachable_new) code_simp
  then show ?thesis unfolding demo_ready_def by (rule reachable_add) code_simp
qed

lemma demo_sending_reachable: "reachable True demo_sending"
proof -
  have "reachable True (demo_tick demo_ready)"
    by (rule reachable_tick [of _ 0]) (rule demo_ready_reachable, code_simp, code_simp)
  then show ?thesis unfolding demo_sending_def by (rule reachable_send) (code_simp, code_simp)
qed

lemma demo_serving_reachable: "reachable True demo_serving"
proof -
  have y: "reachable True (demo_yield 1 demo_sending)"
    by (rule reachable_yield) (rule demo_sending_reachable, code_simp, code_simp, code_simp)
  have "\<exists>m s. take_request 0 True (sch (demo_yield 1 demo_sending)) = Some (Some m, s)"
  proof -
    have "case take_request 0 True (sch (demo_yield 1 demo_sending)) of Some (Some m, s) \<Rightarrow> True | _ \<Rightarrow> False"
      by code_simp
    then show ?thesis by (auto split: option.splits)
  qed
  moreover have "calls (demo_yield 1 demo_sending) 0 2 Free" by code_simp
  ultimately show ?thesis unfolding demo_serving_def using reachable_recv [OF y] by blast
qed

lemma demo_answered_reachable: "reachable True demo_answered"
proof -
  have "reachable True (demo_reply demo_serving)"
    by (rule reachable_reply) (rule demo_serving_reachable, code_simp, code_simp)
  then show ?thesis unfolding demo_answered_def by (rule reachable_yield) (code_simp, code_simp, code_simp)
qed

section \<open>Round robin\<close>

text \<open>
  The offset at which \<open>pick_next\<close> looks at index \<open>i\<close> when the cursor is \<open>r\<close>: between 1 and \<open>n\<close>.
\<close>

definition rr_off :: "nat \<Rightarrow> nat \<Rightarrow> nat \<Rightarrow> nat" where
  "rr_off n r i = (if i > r mod n then i - r mod n else i + n - r mod n)"

lemma rr_off_bounds: "i < n \<Longrightarrow> 1 \<le> rr_off n r i \<and> rr_off n r i \<le> n"
  using mod_less_divisor [of n r] by (cases "n = 0") (auto simp: rr_off_def simp del: mod_less_divisor)

lemma rr_off_reaches: "i < n \<Longrightarrow> (r + rr_off n r i) mod n = i"
proof -
  assume i: "i < n"
  define q where "q = r mod n"
  have q: "q < n" using i by (simp add: q_def)
  then have "q + rr_off n r i = (if i > q then i else i + n)" using i by (simp add: rr_off_def q_def [symmetric])
  then have "(q + rr_off n r i) mod n = i" using i by simp
  then show ?thesis by (simp add: q_def mod_add_left_eq)
qed

lemma rr_off_unique_le:
  assumes "(r + k) mod n = (r + l) mod n" and "k \<le> l" and "l - k < (n :: nat)"
  shows "k = l"
proof -
  have "n dvd (r + l) - (r + k)"
    using assms(1,2) mod_eq_dvd_iff_nat [of "r + k" "r + l" n] by auto
  then have "n dvd l - k" by simp
  with assms show ?thesis using nat_dvd_not_less [of "l - k" n] by (cases "l = k") auto
qed

lemma rr_off_unique:
  assumes "1 \<le> k" "k \<le> n" "1 \<le> l" "l \<le> n" "(r + k) mod n = (r + l) mod n"
  shows "k = (l :: nat)"
proof (cases "k \<le> l")
  case True
  show ?thesis by (rule rr_off_unique_le [OF assms(5) True]) (use assms in arith)
next
  case False
  then have "l \<le> k" by simp
  then show ?thesis by (rule rr_off_unique_le [OF assms(5) [symmetric], symmetric]) (use assms in arith)
qed

lemma rr_off_eq: "1 \<le> k \<Longrightarrow> k \<le> n \<Longrightarrow> i < n \<Longrightarrow> (r + k) mod n = i \<Longrightarrow> rr_off n r i = k"
  using rr_off_unique [of "rr_off n r i" n k r] rr_off_bounds [of i n r] rr_off_reaches [of i n r] by simp

lemma pick_next_first:
  assumes "pick_next cpu s = Some (j, s')" and i: "i < length (tasks s)" and el: "eligible cpu (tasks s ! i)"
  shows "j < length (tasks s) \<and> eligible cpu (tasks s ! j) \<and> s' = s\<lparr>rr_cursor := j\<rparr> \<and>
    rr_off (length (tasks s)) (rr_cursor s) j \<le> rr_off (length (tasks s)) (rr_cursor s) i"
proof -
  let ?n = "length (tasks s)" and ?r = "rr_cursor s"
  have j: "j < ?n" "eligible cpu (tasks s ! j)" "s' = s\<lparr>rr_cursor := j\<rparr>"
    using pick_next_SomeD [OF assms(1)] i el by auto
  let ?is = "map (\<lambda>off. (?r + off) mod ?n) [1..<Suc ?n]"
  have f: "find (\<lambda>i. eligible cpu (tasks s ! i)) ?is = Some j"
  proof -
    have "i \<in> set ?is" using round_robin_covers [OF i, of ?r] by (auto simp del: upt_Suc)
    then have "find (\<lambda>i. eligible cpu (tasks s ! i)) ?is \<noteq> None"
      unfolding find_None_iff using el by blast
    then show ?thesis using assms(1) unfolding pick_next_def Let_def by (auto simp del: upt_Suc)
  qed
  from f obtain k where k: "k < ?n" "j = (?r + Suc k) mod ?n"
    and min: "\<And>l. l < k \<Longrightarrow> \<not> eligible cpu (tasks s ! ((?r + Suc l) mod ?n))"
    unfolding find_Some_iff by (auto simp del: upt_Suc)
  have oj: "rr_off ?n ?r j = Suc k" using rr_off_eq [of "Suc k" ?n j ?r] k j by simp
  have "Suc k \<le> rr_off ?n ?r i"
  proof (rule ccontr)
    assume "\<not> Suc k \<le> rr_off ?n ?r i"
    with rr_off_bounds [OF i, of ?r] obtain l where "rr_off ?n ?r i = Suc l" "l < k"
      by (cases "rr_off ?n ?r i") auto
    with min [of l] rr_off_reaches [OF i, of ?r] el show False by simp
  qed
  with j oj show ?thesis by simp
qed

lemma rr_off_closer:
  assumes "i < n" "j < n" "i \<noteq> j" "rr_off n r j \<le> rr_off n r i"
  shows "rr_off n j i < rr_off n r i"
proof -
  let ?k = "rr_off n r i - rr_off n r j"
  have ne: "rr_off n r j < rr_off n r i"
    using assms rr_off_reaches [of i n r] rr_off_reaches [of j n r] by (metis le_neq_implies_less)
  have "(j + ?k) mod n = (r + rr_off n r j + ?k) mod n"
    using rr_off_reaches [OF assms(2), of r] by (metis mod_add_left_eq)
  also have "\<dots> = i" using rr_off_reaches [OF assms(1), of r] ne by simp
  finally have "rr_off n j i = ?k"
    using rr_off_eq [of ?k n i j] rr_off_bounds [OF assms(1), of r] ne assms(1) by simp
  then show ?thesis using rr_off_bounds [OF assms(2), of r] ne by linarith
qed

text \<open>A task that any CPU may pick.\<close>

definition runnable :: "Scheduler \<Rightarrow> nat \<Rightarrow> bool" where
  "runnable s i \<longleftrightarrow> i < length (tasks s) \<and> t_state (tasks s ! i) = Ready \<and> t_on_cpu (tasks s ! i) = None \<and>
     t_pinned_cpu (tasks s ! i) = None \<and> t_priority (tasks s ! i) \<noteq> PRIORITY_IDLE"

text \<open>Ticks, reschedule interrupts and yields, each on some CPU.\<close>

fun run_ticks :: "bool \<Rightarrow> (nat \<times> u64 \<times> bool) list \<Rightarrow> Scheduler \<Rightarrow> Scheduler option" where
  "run_ticks ipi [] s = Some s"
| "run_ticks ipi ((c, sp, timer) # es) s = do { (_, s) \<leftarrow> on_tick ipi c sp timer s; run_ticks ipi es s }"

lemma tick_closer:
  assumes inv: "cpu_inv s" and c: "cpu < 64" and reg: "p_registered (cpus s ! cpu)" and i: "runnable s i"
  obtains sp' s' where "on_tick ipi cpu sp timer s = Some (sp', s')" "cpu_inv s'"
    "length (tasks s') = length (tasks s)" "\<forall>d. p_registered (cpus s' ! d) = p_registered (cpus s ! d)"
    "p_current (cpus s' ! cpu) = Some i \<or> runnable s' i \<and>
       rr_off (length (tasks s)) (rr_cursor s') i < rr_off (length (tasks s)) (rr_cursor s) i"
proof -
  let ?n = "length (tasks s)" and ?now = "tick_now cpu timer s"
  obtain cur0 s3 where cur0: "p_current (cpus s ! cpu) = Some cur0"
    and s3: "tasks s3 = parked_tasks ?now cur0 sp timer (tasks s)" "rr_cursor s3 = rr_cursor s"
    and tick3: "on_tick ipi cpu sp timer s = Option.bind (pick_next cpu s3) (\<lambda>(next, s). switch_to cpu next s)"
    by (rule on_tick_park [OF inv c reg, where rsp = sp and timer = timer and ipi = ipi]) (rule that; assumption)
  obtain cur nx ts s' where cur: "p_current (cpus s ! cpu) = Some cur"
    and ts: "ts = parked_tasks ?now cur sp timer (tasks s)" and nx: "nx < ?n"
    and tick: "on_tick ipi cpu sp timer s = Some (t_context_ptr (ts ! nx), s')"
    and s': "tasks s' = ts[nx := running_task cpu (ts ! nx)]"
      "cpus s' = (cpus s)[cpu := (cpus s ! cpu)\<lparr>p_current := Some nx\<rparr>]" "cpu_inv s'"
    by (rule on_tick_cases [OF inv c reg, where rsp = sp and timer = timer and ipi = ipi]) (rule that; assumption)
  have cc: "cur0 = cur" using cur cur0 by simp
  have len: "length (cpus s) = 64" using inv cpu_inv_cpus by (simp add: cpu_inv_def)
  have "t_on_cpu (tasks s ! cur) = Some (of_nat cpu)" using cpu_inv_current [OF inv c reg] cur by auto
  then have ic: "i \<noteq> cur" using i by (auto simp: runnable_def)
  have tsi: "ts ! i = tasks s ! i"
    using i ic by (auto simp: ts nth_parked runnable_def woken_task_def due_def)
  have el: "eligible cpu (tasks s3 ! i)" "i < length (tasks s3)"
    using i tsi by (simp_all add: s3 cc eligible_def runnable_def ts)
  obtain j s4 where p: "pick_next cpu s3 = Some (j, s4)" and sw: "switch_to cpu j s4 = Some (t_context_ptr (ts ! nx), s')"
    using tick tick3 by (auto simp: bind_eq_Some_conv)
  note f = pick_next_first [OF p el(2,1)]
  note w = switch_to_SomeD [OF sw]
  have cj: "p_current (cpus s' ! cpu) = Some j" using w c len f s'(2) by simp
  then have nj: "nx = j" using s'(2) c len by simp
  have r: "rr_cursor s' = j" using w(6) f by simp
  have regs: "p_registered (cpus s' ! d) = p_registered (cpus s ! d)" for d
    using s'(2) c len by (simp add: nth_list_update)
  have closer: "p_current (cpus s' ! cpu) = Some i \<or> runnable s' i \<and>
       rr_off ?n (rr_cursor s') i < rr_off ?n (rr_cursor s) i"
  proof (cases "i = j")
    case False
    have "tasks s' ! i = tasks s ! i" using False i by (simp add: s' nj tsi)
    moreover have "rr_off ?n j i < rr_off ?n (rr_cursor s) i"
      using rr_off_closer [of i ?n j "rr_cursor s"] f i False s3 by (simp add: runnable_def)
    ultimately show ?thesis using i by (simp add: runnable_def r s' ts)
  qed (use cj in simp)
  have "length (tasks s') = ?n" by (simp add: s' ts)
  then show thesis using that [OF tick s'(3)] regs closer by blast
qed

lemma round_robin_within:
  assumes "cpu_inv s" "runnable s i" "\<forall>(c, _) \<in> set es. c < 64 \<and> p_registered (cpus s ! c)"
    "rr_off (length (tasks s)) (rr_cursor s) i \<le> length es"
  shows "\<exists>k < length es. \<exists>s1 sp s2. run_ticks ipi (take k es) s = Some s1 \<and>
    on_tick ipi (fst (es ! k)) (fst (snd (es ! k))) (snd (snd (es ! k))) s1 = Some (sp, s2) \<and>
    p_current (cpus s2 ! fst (es ! k)) = Some i"
  using assms
proof (induction es arbitrary: s)
  case Nil
  then show ?case using rr_off_bounds [of i "length (tasks s)" "rr_cursor s"] by (simp add: runnable_def)
next
  case (Cons e es)
  obtain c sp timer where e: "e = (c, sp, timer)" by (cases e)
  have c: "c < 64" "p_registered (cpus s ! c)" using Cons.prems(3) e by auto
  obtain sp' s' where t: "on_tick ipi c sp timer s = Some (sp', s')" "cpu_inv s'"
    "length (tasks s') = length (tasks s)" "\<forall>d. p_registered (cpus s' ! d) = p_registered (cpus s ! d)"
    "p_current (cpus s' ! c) = Some i \<or> runnable s' i \<and>
       rr_off (length (tasks s)) (rr_cursor s') i < rr_off (length (tasks s)) (rr_cursor s) i"
    by (rule tick_closer [OF Cons.prems(1) c Cons.prems(2), of ipi sp timer])
  show ?case
  proof (cases "p_current (cpus s' ! c) = Some i")
    case True
    then show ?thesis using t(1) e by (intro exI [of _ 0]) simp
  next
    case False
    then obtain k s1 sp2 s2 where "k < length es" "run_ticks ipi (take k es) s' = Some s1"
      "on_tick ipi (fst (es ! k)) (fst (snd (es ! k))) (snd (snd (es ! k))) s1 = Some (sp2, s2)"
      "p_current (cpus s2 ! fst (es ! k)) = Some i"
      using Cons.IH [of s'] t Cons.prems by (auto simp: e)
    then show ?thesis using t(1) e by (intro exI [of _ "Suc k"]) auto
  qed
qed

section \<open>Collection and lookup\<close>

lemma collect_loop_batch:
  "length out \<le> REAP_BATCH \<Longrightarrow>
     fst (collect_loop out ts) = out @ map reap_record (take (REAP_BATCH - length out) (filter reapable_task ts))"
proof (induction ts arbitrary: out)
  case (Cons t ts)
  show ?case
  proof (cases "reapable_task t \<and> length out < REAP_BATCH")
    case True
    then have "REAP_BATCH - length out = Suc (REAP_BATCH - length (out @ [reap_record t]))" by auto
    then show ?thesis using True Cons.IH [of "out @ [reap_record t]"] Cons.prems
      by (simp add: collect_loop_Cons del: collect_loop.simps(2))
  next
    case False
    then show ?thesis using Cons by (auto simp: collect_loop_Cons simp del: collect_loop.simps(2))
  qed
qed simp

lemma collect_loop_tasks:
  "i < length ts \<Longrightarrow> length out \<le> REAP_BATCH \<Longrightarrow>
     snd (collect_loop out ts) ! i =
       (if reapable_task (ts ! i) \<and> length out + length (filter reapable_task (take i ts)) < REAP_BATCH
        then reap (ts ! i) else ts ! i)"
proof (induction ts arbitrary: out i)
  case (Cons t ts)
  then show ?case
    by (cases i) (auto simp: collect_loop_Cons simp del: collect_loop.simps(2))
qed simp

lemma find_live_at:
  assumes "ids_ok n (tasks s)" and "i < length (tasks s)" and "t_state (tasks s ! i) \<noteq> Exited"
  shows "find_live (t_id (tasks s ! i)) s = Some i"
proof (cases "find_live (t_id (tasks s ! i)) s")
  case None
  then show ?thesis using assms(2,3) nth_mem by (auto simp: find_live_None_iff)
next
  case (Some j)
  then show ?thesis using find_live_SomeD [OF Some] ids_ok_nth_eq [OF assms(1) _ assms(2)] by auto
qed

section \<open>Properties\<close>

text \<open>
  C1. No task runs on two CPUs: in every reachable state, whatever interrupts and other CPUs did,
  the task a CPU executes is executed by no other CPU, is marked with that CPU, and is either
  unpinned or pinned to it.
\<close>

theorem one_cpu_per_task:
  assumes "reachable ipi y" and "executes y c i" and "executes y c' i"
  shows "c = c' \<and> t_on_cpu (tasks (sch y) ! i) = Some (of_nat c) \<and>
    (t_pinned_cpu (tasks (sch y) ! i) = None \<or> t_pinned_cpu (tasks (sch y) ! i) = Some (of_nat c))"
proof -
  have inv: "sys_inv y" by (rule reachable_inv [OF assms(1)])
  note e = executes_idx [OF inv assms(2)]
  have "c = c'"
    using current_unique [of "sch y" c c' i] inv assms(2,3) by (simp add: sys_inv_def executes_def MAX_CPUS_def)
  then show ?thesis using e sys_inv_local [OF inv, of i] by (auto simp: task_ok_def)
qed

theorem one_cpu_per_task_witness:
  "reachable True demo_answered \<and> executes demo_answered 0 1 \<and>
   t_on_cpu (tasks (sch demo_answered) ! 1) = Some 0"
proof -
  have e: "executes demo_answered 0 1" by code_simp
  show ?thesis using one_cpu_per_task [OF demo_answered_reachable e e] e demo_answered_reachable by simp
qed

text \<open>
  C2. A blocked sender never wakes without its answer: in every reachable state, when a task in
  \<open>send_rqb\<close> executes the check after its yield, the reply slot is full, so the branch that blocks
  again on a spurious wake-up is never taken.
\<close>

theorem send_wakes_with_reply:
  assumes "reachable ipi y" and "calls y cpu i SendCheck"
  shows "\<exists>r s'. send_check cpu (sch y) = Some (Some r, s') \<and> t_reply (tasks (sch y) ! i) = Some r"
proof -
  have inv: "sys_inv y" by (rule reachable_inv [OF assms(1)])
  have "current_idx cpu (sch y) = Some i" by (rule callsD [OF inv assms(2)])
  then obtain r s' where "send_check cpu (sch y) = Some (r, s')" by (simp add: send_check_def Let_def del: current_idx_Some)
  with inv_send_check [OF inv assms(2) this] show ?thesis by auto
qed

theorem send_wakes_with_reply_witness:
  "calls demo_answered 0 1 SendCheck \<and> (\<exists>r s'. send_check 0 (sch demo_answered) = Some (Some r, s'))"
proof -
  have c: "calls demo_answered 0 1 SendCheck" by code_simp
  show ?thesis using send_wakes_with_reply [OF demo_answered_reachable c] c by blast
qed

text \<open>
  C3. Nobody waits for nothing: in every reachable state a task blocked for a reply has an empty
  reply slot and waits on another task that has not exited, and a task blocked for a request has an
  empty inbox, so no wake-up is lost.
\<close>

theorem blocked_tasks_have_a_waker:
  assumes "reachable ipi y" and "t \<in> set (tasks (sch y))"
  shows "(t_state t = WaitingReply \<longrightarrow> t_reply t = None \<and>
            (\<exists>u \<in> set (tasks (sch y)). t_id u = t_wait_for t \<and> t_id u \<noteq> t_id t \<and> t_state u \<noteq> Exited)) \<and>
         (t_state t = WaitingRqb \<longrightarrow> t_inbox t = [])"
proof -
  obtain i where i: "i < length (tasks (sch y))" "t = tasks (sch y) ! i" using assms(2) by (metis in_set_conv_nth)
  have "ipc_ok (live_ids (tasks (sch y))) t" using sys_inv_local [OF reachable_inv [OF assms(1)] i(1)] i(2) by simp
  then show ?thesis by (auto simp: ipc_ok_def live_ids_def)
qed

theorem blocked_tasks_have_a_waker_witness:
  "t_state (tasks (sch demo_sending) ! 1) = WaitingReply \<and>
   (\<exists>u \<in> set (tasks (sch demo_sending)). t_id u = 3 \<and> t_state u \<noteq> Exited)"
proof -
  have m: "tasks (sch demo_sending) ! 1 \<in> set (tasks (sch demo_sending))" by (rule nth_mem) code_simp
  have w: "t_state (tasks (sch demo_sending) ! 1) = WaitingReply" "t_wait_for (tasks (sch demo_sending) ! 1) = 3"
    by (code_simp, code_simp)
  show ?thesis using blocked_tasks_have_a_waker [OF demo_sending_reachable m] w by auto
qed

text \<open>
  C5. The scheduler does not panic: in every reachable state, on a CPU that executes a task, the
  tick and every primitive the task may call return (no index is out of range, no CPU lacks its
  current task); creating a task fails only when all \<open>u32\<close> identities are used up.
\<close>

theorem scheduler_never_panics:
  assumes "reachable ipi y" and "executes y cpu i"
  shows "on_tick ipi cpu sp timer (sch y) \<noteq> None \<and> post_request cpu r msg (sch y) \<noteq> None \<and>
    post_reply cpu r msg (sch y) \<noteq> None \<and> take_request cpu block (sch y) \<noteq> None \<and>
    send_check cpu (sch y) \<noteq> None \<and> mark_exited cpu (sch y) \<noteq> None \<and> sleep_until cpu u (sch y) \<noteq> None \<and>
    current_id cpu (sch y) = Some (tid_at y i) \<and>
    (create_task ipi cpu entry stack prio name (sch y) = None \<longleftrightarrow> next_id (sch y) = - 1)"
proof -
  have inv: "sys_inv y" by (rule reachable_inv [OF assms(1)])
  note e = executes_idx [OF inv assms(2)]
  from e have c: "current_idx cpu (sch y) = Some i" and c1: "cpu < 64" and c2: "p_registered (cpus (sch y) ! cpu)"
    by blast+
  have ci: "cpu_inv (sch y)" using inv by (simp add: sys_inv_def)
  show ?thesis
  proof (intro conjI)
    show "on_tick ipi cpu sp timer (sch y) \<noteq> None"
      by (rule on_tick_cases [OF ci c1 c2, where rsp = sp and timer = timer and ipi = ipi]) simp
    show "current_id cpu (sch y) = Some (tid_at y i)"
      using e assms(2) by (simp add: current_id_def executes_def)
    show "create_task ipi cpu entry stack prio name (sch y) = None \<longleftrightarrow> next_id (sch y) = - 1"
      by (simp add: create_task_def tcb_new_def next_task_id_def Let_def frame_simps case_prod_beta)
  qed (use c in \<open>simp_all add: post_request_def post_reply_def take_request_def send_check_def mark_exited_def
        sleep_until_def Let_def case_prod_beta del: current_idx_Some split: option.split list.split\<close>)
qed

theorem scheduler_never_panics_witness:
  "executes demo_serving 0 2 \<and> mark_exited 0 (sch demo_serving) \<noteq> None \<and> current_id 0 (sch demo_serving) = Some 3"
proof -
  have e: "executes demo_serving 0 2" by code_simp
  have "tid_at demo_serving 2 = 3" by code_simp
  then show ?thesis using scheduler_never_panics [OF demo_serving_reachable e] e by simp
qed

text \<open>
  C4. Round robin is fair: a ready task that is on no CPU, unpinned and not an idle task is switched
  to within as many ticks, interrupts or yields (on any registered CPUs, in any order) as there are
  entries in the task vector.
\<close>

theorem round_robin_bounded_wait:
  assumes "cpu_inv s" and "runnable s i"
    and "\<forall>(c, _) \<in> set es. c < 64 \<and> p_registered (cpus s ! c)" and "length (tasks s) \<le> length es"
  shows "\<exists>k < length es. \<exists>s1 sp s2. run_ticks ipi (take k es) s = Some s1 \<and>
    on_tick ipi (fst (es ! k)) (fst (snd (es ! k))) (snd (snd (es ! k))) s1 = Some (sp, s2) \<and>
    p_current (cpus s2 ! fst (es ! k)) = Some i"
proof -
  have "rr_off (length (tasks s)) (rr_cursor s) i \<le> length es"
    using rr_off_bounds [of i "length (tasks s)" "rr_cursor s"] assms(2,4) by (simp add: runnable_def)
  with assms(1-3) show ?thesis by (rule round_robin_within)
qed

theorem round_robin_bounded_wait_witness:
  "runnable (sch demo_ready) 2 \<and>
   (\<exists>k < 3. \<exists>s1 sp s2. run_ticks True (take k (replicate 3 (0, 0x2000, True))) (sch demo_ready) = Some s1 \<and>
      on_tick True 0 0x2000 True s1 = Some (sp, s2) \<and> p_current (cpus s2 ! 0) = Some 2)"
proof -
  have inv: "cpu_inv (sch demo_ready)" using reachable_inv [OF demo_ready_reachable] by (simp add: sys_inv_def)
  have r: "runnable (sch demo_ready) 2" by code_simp
  have p: "p_registered (cpus (sch demo_ready) ! 0)" "length (tasks (sch demo_ready)) = 3" by (code_simp, code_simp)
  define es :: "(nat \<times> u64 \<times> bool) list" where "es = replicate 3 (0, 0x2000, True)"
  have es: "es ! k = (0, 0x2000, True)" if "k < 3" for k using that unfolding es_def by (rule nth_replicate)
  have l: "length es = 3" by (simp add: es_def)
  have "\<exists>k < length es. \<exists>s1 sp s2. run_ticks True (take k es) (sch demo_ready) = Some s1 \<and>
      on_tick True (fst (es ! k)) (fst (snd (es ! k))) (snd (snd (es ! k))) s1 = Some (sp, s2) \<and>
      p_current (cpus s2 ! fst (es ! k)) = Some 2"
    by (rule round_robin_bounded_wait [OF inv r]) (use p l in \<open>auto simp: es_def\<close>)
  then obtain k s1 sp s2 where k: "k < 3" "run_ticks True (take k es) (sch demo_ready) = Some s1"
    "on_tick True 0 0x2000 True s1 = Some (sp, s2)" "p_current (cpus s2 ! 0) = Some 2"
    using es l by auto
  then show ?thesis using r unfolding es_def by blast
qed

text \<open>
  C6. The reaper takes what no CPU can still use: in every reachable state \<open>collect_exited\<close> returns
  the resources of the first sixteen exited, not yet reaped tasks that are on no CPU, in order;
  exactly these tasks are marked and lose their resources, the others are untouched; none of them is
  the current task of a CPU; and a task that was handed over is never handed over again.
\<close>

theorem reaper_takes_parked_tasks_once:
  assumes "reachable ipi y" and "collect_exited (sch y) = (batch, s')"
  shows "batch = map reap_record (take REAP_BATCH (filter reapable_task (tasks (sch y)))) \<and>
    length (tasks s') = length (tasks (sch y)) \<and>
    (\<forall>i < length (tasks (sch y)). tasks s' ! i =
       (if reapable_task (tasks (sch y) ! i) \<and>
           length (filter reapable_task (take i (tasks (sch y)))) < REAP_BATCH
        then reap (tasks (sch y) ! i) else tasks (sch y) ! i)) \<and>
    (\<forall>i < length (tasks (sch y)). \<forall>c < MAX_CPUS. reapable_task (tasks (sch y) ! i) \<longrightarrow>
       p_current (cpus (sch y) ! c) \<noteq> Some i) \<and>
    (\<forall>t. reapable_task t \<longleftrightarrow> t_state t = Exited \<and> \<not> t_reaped t \<and> t_on_cpu t = None) \<and>
    (\<forall>t. \<not> reapable_task (reap t))"
proof -
  have inv: "sys_inv y" by (rule reachable_inv [OF assms(1)])
  have b: "batch = fst (collect_loop [] (tasks (sch y)))" "tasks s' = snd (collect_loop [] (tasks (sch y)))"
    using assms(2) by (auto simp: collect_exited_def split: prod.splits)
  have "p_current (cpus (sch y) ! c) \<noteq> Some i" if "i < length (tasks (sch y))" "c < 64" "reapable_task (tasks (sch y) ! i)" for c i
  proof
    assume p: "p_current (cpus (sch y) ! c) = Some i"
    have "cpu_inv_but MAX_CPUS (sch y)" using inv by (simp add: sys_inv_def cpu_inv_def)
    from cpu_inv_current_reg [OF this that(2) p] have "executes y c i"
      using p that(2) by (simp add: executes_def MAX_CPUS_def)
    from executes_idx [OF inv this] that(3) show False by (simp add: reapable_task_def)
  qed
  then show ?thesis
    using collect_loop_batch [of "[]"] collect_loop_tasks [of _ _ "[]"]
    by (simp add: b MAX_CPUS_def) (simp add: reapable_task_def reap_def)
qed

text \<open>The run continues: task 3, which has answered, exits and is switched out.\<close>

definition demo_exited :: System where
  "demo_exited = demo_yield 2 (let y = demo_reply demo_serving
     in y\<lparr>sch := the (mark_current_exited True 0 (sch y)), pc := (pc y)(tid_at y 2 := Dead)\<rparr>)"

lemma demo_exited_reachable: "reachable True demo_exited"
proof -
  let ?y = "demo_reply demo_serving"
  let ?z = "?y\<lparr>sch := the (mark_current_exited True 0 (sch ?y)), pc := (pc ?y)(tid_at ?y 2 := Dead)\<rparr>"
  have r: "reachable True ?y"
    by (rule reachable_reply) (rule demo_serving_reachable, code_simp, code_simp)
  have "calls ?y 0 2 Free" by code_simp
  moreover have "mark_current_exited True 0 (sch ?y) \<noteq> None" by code_simp
  ultimately have "sys_step True ?y ?z" by (intro sys_step.exit) auto
  with r have z: "reachable True ?z" by (rule reachable.step)
  show ?thesis unfolding demo_exited_def Let_def
    by (rule reachable_yield [OF z]) (code_simp, code_simp, code_simp)
qed

theorem reaper_takes_parked_tasks_once_witness:
  "fst (collect_exited (sch demo_exited)) = [reap_record (tasks (sch demo_exited) ! 2)]"
proof -
  have "filter reapable_task (tasks (sch demo_exited)) = [tasks (sch demo_exited) ! 2]" by code_simp
  then show ?thesis
    using reaper_takes_parked_tasks_once [OF demo_exited_reachable, of "fst (collect_exited (sch demo_exited))"
      "snd (collect_exited (sch demo_exited))"] by (simp add: REAP_BATCH_def)
qed

text \<open>
  C8. A task that exits leaves no one hanging: every task that waits for its answer, and no other,
  becomes ready with an \<open>Aborted\<close> reply from it; all other tasks are unchanged, and the exiting task
  has an empty inbox.
\<close>

theorem exit_aborts_waiters:
  assumes "mark_exited cpu s = Some (k, s')" and "p_current (cpus s ! cpu) = Some me" and "me < length (tasks s)"
    and "j < length (tasks s)"
  shows "tasks s' ! j =
    (if j = me then (tasks s ! j)\<lparr>t_state := Exited, t_inbox := []\<rparr>
     else if t_state (tasks s ! j) = WaitingReply \<and> t_wait_for (tasks s ! j) = t_id (tasks s ! me) \<and>
             t_reply (tasks s ! j) = None
     then (tasks s ! j)\<lparr>t_state := Ready, t_reply := Some ((set_status rqb_new Aborted)
            \<lparr>rqb_sender_id := t_id (tasks s ! me), rqb_receiver_id := t_id (tasks s ! j)\<rparr>)\<rparr>
     else tasks s ! j)"
  using assms(1)
proof (cases rule: mark_exitedE)
  case (1 m)
  then have m: "m = me" using assms(2) by simp
  show ?thesis
    using assms(3,4) 1(3)
    by (auto simp: m nth_upd aborted_def awaits_def answered_def abort_msg_def gone_def)
qed

theorem exit_aborts_waiters_witness:
  "\<exists>k s'. mark_exited 0 (sch demo_serving) = Some (k, s') \<and> t_state (tasks s' ! 1) = Ready \<and>
     map_option (\<lambda>r. status_from (rqb_status r)) (t_reply (tasks s' ! 1)) = Some Aborted"
proof -
  have w: "p_current (cpus (sch demo_serving) ! 0) = Some 2" "2 < length (tasks (sch demo_serving))"
    "1 < length (tasks (sch demo_serving))" by (code_simp, code_simp, code_simp)
  have t: "t_state (tasks (sch demo_serving) ! 1) = WaitingReply \<and>
      t_wait_for (tasks (sch demo_serving) ! 1) = t_id (tasks (sch demo_serving) ! 2) \<and>
      t_reply (tasks (sch demo_serving) ! 1) = None" by code_simp
  have "mark_exited 0 (sch demo_serving) \<noteq> None" by code_simp
  then obtain k s' where m: "mark_exited 0 (sch demo_serving) = Some (k, s')" by auto
  show ?thesis using exit_aborts_waiters [OF m w] t m by (simp add: set_status_def status_from_def)
qed

text \<open>
  C7. A request makes the round trip: when one task sends to another that runs on a second CPU with
  an empty inbox, the receiver takes exactly that message, stamped by the kernel with the sender's
  identity; its answer to that identity is accepted; and the sender finds exactly the answer.
\<close>

theorem request_reply_roundtrip:
  assumes ids: "ids_ok n (tasks s)"
    and a: "current_idx cpu s = Some a" "t_state (tasks s ! a) \<noteq> Exited"
    and b: "current_idx cpu' s = Some b" "t_state (tasks s ! b) \<noteq> Exited" "t_inbox (tasks s ! b) = []"
    and ab: "a \<noteq> b"
  shows "\<exists>k s1 m s2 k' s3 s4.
    post_request cpu (t_id (tasks s ! b)) msg s = Some (Ok k, s1) \<and>
    take_request cpu' blk s1 = Some (Some m, s2) \<and>
    m = msg\<lparr>rqb_sender_id := t_id (tasks s ! a), rqb_receiver_id := t_id (tasks s ! b)\<rparr> \<and>
    post_reply cpu' (rqb_sender_id m) ans s2 = Some (Ok k', s3) \<and>
    send_check cpu s3 = Some (Some (ans\<lparr>rqb_sender_id := t_id (tasks s ! b), rqb_receiver_id := t_id (tasks s ! a)\<rparr>), s4)"
proof -
  let ?a = "t_id (tasks s ! a)" and ?b = "t_id (tasks s ! b)"
  have la: "a < length (tasks s)" and lb: "b < length (tasks s)" using a b by auto
  have ne: "?b \<noteq> ?a" using ids_ok_nth_eq [OF ids lb la] ab by simp
  have fb: "find_live ?b s = Some b" by (rule find_live_at [OF ids lb b(2)])
  obtain k s1 where p: "post_request cpu ?b msg s = Some (Ok k, s1)"
    using a(1) fb ne b(3) by (cases "post_request cpu ?b msg s")
      (auto simp: post_request_def Let_def INBOX_CAPACITY_def case_prod_beta simp del: current_idx_Some)
  let ?m = "msg\<lparr>rqb_sender_id := ?a, rqb_receiver_id := ?b\<rparr>"
  have s1: "tasks s1 = (tasks s)[b := delivered ?m (tasks s ! b), a := blocked_on ?b (tasks s ! a)]" "cpus s1 = cpus s"
    using p a(1) fb by (auto elim!: post_request_OkE simp: frame_of_def)
  have c1: "current_idx cpu' s1 = Some b" using b(1) s1 by simp
  have b1: "tasks s1 ! b = delivered ?m (tasks s ! b)" using ab lb by (simp add: s1)
  define s2 where "s2 = upd_task b (\<lambda>t. t\<lparr>t_inbox := []\<rparr>) s1"
  have t: "take_request cpu' blk s1 = Some (Some ?m, s2)"
    using c1 b(3) by (simp add: take_request_def b1 s2_def del: current_idx_Some)
  have s2: "cpus s2 = cpus s" "length (tasks s2) = length (tasks s)"
    "tasks s2 ! a = blocked_on ?b (tasks s ! a)" "t_id (tasks s2 ! b) = ?b"
    using ab la lb by (simp_all add: s2_def s1 frame_simps)
  have ids2: "map t_id (tasks s2) = map t_id (tasks s)"
    by (intro nth_equalityI) (auto simp: s2_def s1 frame_simps nth_upd)
  have c2: "current_idx cpu' s2 = Some b" using b(1) s2 by simp
  have fa: "find_live ?a s2 = Some a"
    using find_live_at [OF ids_ok_same_ids [OF ids2 ids], of a] la s2 by simp
  obtain k' s3 where r: "post_reply cpu' ?a ans s2 = Some (Ok k', s3)"
    using c2 fa s2 by (cases "post_reply cpu' ?a ans s2")
      (auto simp: post_reply_def Let_def case_prod_beta simp del: current_idx_Some)
  let ?r = "ans\<lparr>rqb_sender_id := ?b, rqb_receiver_id := ?a\<rparr>"
  have s3: "tasks s3 = (tasks s2)[a := answered ?r (tasks s2 ! a)]" "cpus s3 = cpus s"
    using r c2 fa s2 by (auto elim!: post_reply_OkE simp: frame_of_def)
  have "current_idx cpu s3 = Some a" using a(1) s2 s3 by simp
  then have "\<exists>s4. send_check cpu s3 = Some (Some ?r, s4)"
    using la s2 by (simp add: send_check_def Let_def s3 del: current_idx_Some)
  with p t r show ?thesis by simp
qed

text \<open>Two CPUs, each running a task.\<close>

definition demo_smp :: Scheduler where
  "demo_smp =
     (let s = the (sched_init 0 scheduler_new);
          s = snd (the (register_cpu 1 7 s));
          s = snd (the (create_task True 0 0x1000 demo_stack PRIORITY_DEFAULT ''client'' s));
          s = snd (the (create_task True 0 0x1000 demo_stack PRIORITY_DEFAULT ''server'' s));
          s = snd (the (on_tick True 0 0x2000 True s))
      in snd (the (on_tick True 1 0x3000 True s)))"

theorem request_reply_roundtrip_witness:
  "\<exists>k s1 m s2 k' s3 s4.
    post_request 0 4 (with_service SVC_TEXT_UPPER) demo_smp = Some (Ok k, s1) \<and>
    take_request 1 True s1 = Some (Some m, s2) \<and> rqb_sender_id m = 3 \<and>
    post_reply 1 (rqb_sender_id m) rqb_new s2 = Some (Ok k', s3) \<and>
    send_check 0 s3 = Some (Some (rqb_new\<lparr>rqb_sender_id := 4, rqb_receiver_id := 3\<rparr>), s4)"
proof -
  have i: "ids_ok 5 (tasks demo_smp)" by code_simp
  have a: "current_idx 0 demo_smp = Some 2" "t_state (tasks demo_smp ! 2) \<noteq> Exited" by (code_simp, code_simp)
  have b: "current_idx 1 demo_smp = Some 3" "t_state (tasks demo_smp ! 3) \<noteq> Exited" "t_inbox (tasks demo_smp ! 3) = []"
    by (code_simp, code_simp, code_simp)
  have n: "t_id (tasks demo_smp ! 2) = 3" "t_id (tasks demo_smp ! 3) = 4" by (code_simp, code_simp)
  from request_reply_roundtrip [OF i a b, of "with_service SVC_TEXT_UPPER" True rqb_new] show ?thesis
    unfolding n by fastforce
qed



text \<open>
  A task created with the documented lowest priority is never picked: the value is also the mark of
  the idle tasks.
\<close>

lemma lowest_priority_never_runs:
  assumes inv: "cpu_inv s" and c: "cpu < 64" "p_registered (cpus s ! cpu)"
    and i: "i < length (tasks s)" "t_priority (tasks s ! i) = PRIORITY_LOWEST" "i \<noteq> p_idle_idx (cpus s ! cpu)"
    and t: "on_tick ipi cpu sp timer s = Some (sp', s')"
  shows "p_current (cpus s' ! cpu) \<noteq> Some i"
proof -
  have len: "length (cpus s) = 64" using inv cpu_inv_cpus by (simp add: cpu_inv_def)
  obtain cur nx ts s1 where ts: "ts = parked_tasks (tick_now cpu timer s) cur sp timer (tasks s)"
    and nx: "eligible cpu (ts ! nx) \<and> rr_cursor s1 = nx \<or>
     (\<forall>j < length ts. \<not> eligible cpu (ts ! j)) \<and> nx = p_idle_idx (cpus s ! cpu) \<and> rr_cursor s1 = rr_cursor s"
    and s1: "on_tick ipi cpu sp timer s = Some (t_context_ptr (ts ! nx), s1)"
      "cpus s1 = (cpus s)[cpu := (cpus s ! cpu)\<lparr>p_current := Some nx\<rparr>]"
    by (rule on_tick_cases [OF inv c, where rsp = sp and timer = timer and ipi = ipi]) (rule that; assumption)
  have "t_priority (ts ! i) = PRIORITY_IDLE"
    using i by (auto simp: ts nth_parked PRIORITY_LOWEST_def PRIORITY_IDLE_def)
  then have "nx \<noteq> i" using nx i(3) by (auto simp: eligible_def)
  then show ?thesis using s1 t c len by simp
qed

end
