(* ===== verification/Block_Device.thy ===== *)
theory Block_Device
  imports Kernel_Prelude
begin

text \<open>
  The block device as the file systems see it through \<open>virtio::blk\<close>: 512-byte sectors that are read
  and written one at a time, where any request can fail. The outcomes of the coming requests are part
  of the state: a request can complete, fail with a status error, or time out, after which the driver
  is poisoned and every later request fails. A write that fails can leave anything in its sector.
  Once the list of outcomes is used up every request completes.

  This is the contract of the block driver and not its code; theory \<open>Virtio_Blk\<close> models the code
  (\<open>src/virtio/blk.rs\<close>) and shows that it refines this contract. The locale \<open>block_device\<close> states the
  laws of the contract that do not depend on the outcomes.
\<close>

section \<open>The laws of a block device\<close>

locale block_device =
  fixes rd :: "u64 \<Rightarrow> 'd \<Rightarrow> bytes option \<times> 'd"
    and wr :: "u64 \<Rightarrow> bytes \<Rightarrow> 'd \<Rightarrow> bool \<times> 'd"
    and content :: "'d \<Rightarrow> u64 \<Rightarrow> bytes"
    and ok :: "'d \<Rightarrow> bool"
  assumes rd_some: "ok d \<Longrightarrow> rd lba d = (Some b, d') \<Longrightarrow> b = content d lba"
    and rd_content: "ok d \<Longrightarrow> rd lba d = (r, d') \<Longrightarrow> content d' = content d"
    and rd_ok: "ok d \<Longrightarrow> rd lba d = (r, d') \<Longrightarrow> ok d'"
    and wr_done: "ok d \<Longrightarrow> length b = 512 \<Longrightarrow> wr lba b d = (True, d') \<Longrightarrow> content d' = (content d)(lba := b)"
    and wr_other: "ok d \<Longrightarrow> length b = 512 \<Longrightarrow> wr lba b d = (fin, d') \<Longrightarrow> lba' \<noteq> lba \<Longrightarrow>
      content d' lba' = content d lba'"
    and wr_ok: "ok d \<Longrightarrow> length b = 512 \<Longrightarrow> wr lba b d = (fin, d') \<Longrightarrow> ok d'"
    and content_length: "ok d \<Longrightarrow> length (content d lba) = 512"
begin

text \<open>What is written and read back later, with only reads in between, is what was written.\<close>

fun reads :: "u64 list \<Rightarrow> 'd \<Rightarrow> 'd" where
  "reads [] d = d"
| "reads (l # ls) d = reads ls (snd (rd l d))"

lemma reads_content: "ok d \<Longrightarrow> content (reads ls d) = content d \<and> ok (reads ls d)"
proof (induction ls arbitrary: d)
  case Nil
  then show ?case by simp
next
  case (Cons l ls)
  obtain r d' where r: "rd l d = (r, d')" by (cases "rd l d")
  from rd_content [OF Cons.prems r] rd_ok [OF Cons.prems r] Cons.IH [of d'] r
  show ?case by simp
qed

lemma read_back:
  assumes "ok d" and "length b = 512" and "wr lba b d = (True, d')"
    and "rd lba (reads ls d') = (Some b', d'')"
  shows "b' = b"
proof -
  have "ok d'" using wr_ok [OF assms(1-3)] .
  then have "b' = content (reads ls d') lba" using rd_some assms(4) reads_content by blast
  also have "\<dots> = content d' lba" using reads_content [OF \<open>ok d'\<close>] by simp
  also have "\<dots> = b" using wr_done [OF assms(1-3)] by simp
  finally show ?thesis .
qed

text \<open>A run of writes to other sectors, failed ones included, leaves a sector alone.\<close>

fun writes :: "(u64 \<times> bytes) list \<Rightarrow> 'd \<Rightarrow> 'd" where
  "writes [] d = d"
| "writes (w # ws) d = writes ws (snd (wr (fst w) (snd w) d))"

lemma writes_other:
  "ok d \<Longrightarrow> (\<forall>w\<in>set ws. length (snd w) = 512) \<Longrightarrow> lba \<notin> fst ` set ws \<Longrightarrow>
     content (writes ws d) lba = content d lba \<and> ok (writes ws d)"
proof (induction ws arbitrary: d)
  case Nil
  then show ?case by simp
next
  case (Cons w ws)
  obtain r d' where r: "wr (fst w) (snd w) d = (r, d')" by (cases "wr (fst w) (snd w) d")
  have len: "length (snd w) = 512" and ne: "lba \<noteq> fst w" using Cons.prems by auto
  from wr_other [OF Cons.prems(1) len r ne] wr_ok [OF Cons.prems(1) len r] Cons.IH [of d'] Cons.prems r
  show ?case by simp
qed

end

section \<open>The device the file systems run on\<close>

abbreviation SECTOR :: nat where "SECTOR \<equiv> 512"

datatype outcome = Done | Fault bool "bytes option"

record disk =
  dk_capacity :: u64
  dk_data :: "u64 \<Rightarrow> bytes"
  dk_outcomes :: "outcome list"
  dk_failed :: bool

definition dk_next :: "disk \<Rightarrow> outcome" where
  "dk_next d = (case dk_outcomes d of [] \<Rightarrow> Done | r # _ \<Rightarrow> r)"

text \<open>The request is sent and its outcome consumed; a fault may poison the driver.\<close>

definition dk_sent :: "disk \<Rightarrow> disk" where
  "dk_sent d = d\<lparr>dk_outcomes := tl (dk_outcomes d),
     dk_failed := (case dk_next d of Done \<Rightarrow> False | Fault p _ \<Rightarrow> p)\<rparr>"

definition dk_read :: "u64 \<Rightarrow> disk \<Rightarrow> bytes option \<times> disk" where
  "dk_read lba d =
     (if dk_failed d \<or> dk_capacity d \<le> lba then (None, d)
      else (case dk_next d of
              Done \<Rightarrow> (Some (dk_data d lba), dk_sent d)
            | Fault _ _ \<Rightarrow> (None, dk_sent d)))"

definition dk_write :: "u64 \<Rightarrow> bytes \<Rightarrow> disk \<Rightarrow> bool \<times> disk" where
  "dk_write lba b d =
     (if dk_failed d \<or> dk_capacity d \<le> lba then (False, d)
      else (case dk_next d of
              Done \<Rightarrow> (True, (dk_sent d)\<lparr>dk_data := (dk_data d)(lba := b)\<rparr>)
            | Fault _ None \<Rightarrow> (False, dk_sent d)
            | Fault _ (Some b') \<Rightarrow> (False, (dk_sent d)\<lparr>dk_data := (dk_data d)(lba := b')\<rparr>)))"

text \<open>Sectors have 512 bytes, also the ones a fault leaves behind.\<close>

definition outcome_ok :: "outcome \<Rightarrow> bool" where
  "outcome_ok r = (case r of Fault _ (Some b) \<Rightarrow> length b = SECTOR | _ \<Rightarrow> True)"

definition disk_ok :: "disk \<Rightarrow> bool" where
  "disk_ok d \<longleftrightarrow> (\<forall>lba. length (dk_data d lba) = SECTOR) \<and> (\<forall>r\<in>set (dk_outcomes d). outcome_ok r)"

text \<open>No request of the device will fail any more, but for an address beyond its end.\<close>

definition reliable :: "disk \<Rightarrow> bool" where
  "reliable d \<longleftrightarrow> dk_outcomes d = [] \<and> \<not> dk_failed d"

lemma dk_sent_fields [simp]:
  "dk_data (dk_sent d) = dk_data d"
  "dk_capacity (dk_sent d) = dk_capacity d"
  "dk_outcomes (dk_sent d) = tl (dk_outcomes d)"
  by (simp_all add: dk_sent_def)

lemma disk_ok_sent [simp]: "disk_ok d \<Longrightarrow> disk_ok (dk_sent d)"
  by (cases "dk_outcomes d") (auto simp: disk_ok_def)

lemma disk_ok_next: "disk_ok d \<Longrightarrow> outcome_ok (dk_next d)"
  by (cases "dk_outcomes d") (auto simp: disk_ok_def dk_next_def outcome_ok_def)

lemma disk_ok_put: "disk_ok d \<Longrightarrow> length b = SECTOR \<Longrightarrow> disk_ok (d\<lparr>dk_data := (dk_data d)(lba := b)\<rparr>)"
  by (simp add: disk_ok_def)

lemma dk_read_reliable:
  assumes "reliable d" and "lba < dk_capacity d"
  shows "dk_read lba d = (Some (dk_data d lba), d)"
proof -
  have "dk_next d = Done" and "dk_sent d = d"
    using assms(1) by (simp_all add: reliable_def dk_next_def dk_sent_def)
  with assms show ?thesis by (simp add: dk_read_def reliable_def)
qed

lemma dk_write_reliable:
  assumes "reliable d" and "lba < dk_capacity d"
  shows "dk_write lba b d = (True, d\<lparr>dk_data := (dk_data d)(lba := b)\<rparr>)"
proof -
  have "dk_next d = Done" and "dk_sent d = d"
    using assms(1) by (simp_all add: reliable_def dk_next_def dk_sent_def)
  with assms show ?thesis by (simp add: dk_write_def reliable_def)
qed

lemma dk_write_keeps_reliable:
  "dk_write lba b d = (r, d') \<Longrightarrow> reliable d \<Longrightarrow> reliable d'"
  using dk_write_reliable [of d lba b]
  by (cases "lba < dk_capacity d") (auto simp: dk_write_def reliable_def not_less)

lemma dk_read_keeps_reliable:
  "dk_read lba d = (r, d') \<Longrightarrow> reliable d \<Longrightarrow> reliable d'"
  using dk_read_reliable [of d lba]
  by (cases "lba < dk_capacity d") (auto simp: dk_read_def reliable_def not_less)

lemma dk_read_cases:
  assumes "dk_read lba d = (r, d')"
  shows "dk_data d' = dk_data d \<and> dk_capacity d' = dk_capacity d \<and> (disk_ok d \<longrightarrow> disk_ok d')
    \<and> (\<forall>b. r = Some b \<longrightarrow> b = dk_data d lba)"
  using assms by (auto simp: dk_read_def split: if_splits outcome.splits)

lemma dk_write_cases:
  assumes "dk_write lba b d = (r, d')" and "length b = SECTOR"
  shows "(\<forall>l. l \<noteq> lba \<longrightarrow> dk_data d' l = dk_data d l) \<and> dk_capacity d' = dk_capacity d
    \<and> (disk_ok d \<longrightarrow> disk_ok d') \<and> (r \<longrightarrow> dk_data d' = (dk_data d)(lba := b))"
proof (cases "dk_failed d \<or> dk_capacity d \<le> lba")
  case True
  with assms(1) show ?thesis by (auto simp: dk_write_def)
next
  case False
  show ?thesis
  proof (cases "dk_next d")
    case Done
    then have d': "r" "d' = (dk_sent d)\<lparr>dk_data := (dk_data (dk_sent d))(lba := b)\<rparr>"
      using assms(1) False by (auto simp: dk_write_def)
    then show ?thesis
      using disk_ok_put [of "dk_sent d" b lba] assms(2) by simp
  next
    case (Fault p x)
    show ?thesis
    proof (cases x)
      case None
      with assms(1) False Fault show ?thesis by (auto simp: dk_write_def)
    next
      case (Some b')
      then have d': "\<not> r" "d' = (dk_sent d)\<lparr>dk_data := (dk_data (dk_sent d))(lba := b')\<rparr>"
        using assms(1) False Fault by (auto simp: dk_write_def)
      have "disk_ok d \<Longrightarrow> length b' = SECTOR"
        using disk_ok_next [of d] Fault Some by (simp add: outcome_ok_def)
      then show ?thesis using d' disk_ok_put [of "dk_sent d" b' lba] by simp
    qed
  qed
qed

interpretation disks: block_device dk_read dk_write dk_data disk_ok
proof unfold_locales
  fix d :: disk and lba :: u64 and b d' r
  assume ok: "disk_ok d"
  show "length (dk_data d lba) = 512" using ok by (simp add: disk_ok_def)
  show "b = dk_data d lba" if "dk_read lba d = (Some b, d')"
    using dk_read_cases [OF that] by simp
  show "dk_data d' = dk_data d" and "disk_ok d'" if "dk_read lba d = (r, d')" for r
    using dk_read_cases [OF that] ok by simp_all
  assume len: "length b = 512"
  show "dk_data d' = (dk_data d)(lba := b)" if "dk_write lba b d = (True, d')"
    using dk_write_cases [OF that len] by simp
  show "disk_ok d'" if "dk_write lba b d = (r, d')" for r
    using dk_write_cases [OF that len] ok by simp
  show "dk_data d' lba' = dk_data d lba'" if "dk_write lba b d = (r, d')" "lba' \<noteq> lba" for r lba'
    using dk_write_cases [OF that(1) len] that(2) by simp
qed

section \<open>Requests as operations of a larger state\<close>

text \<open>A read or write that turns a failed request into the error \<open>msg\<close>.\<close>

definition rd_or :: "'e \<Rightarrow> u64 \<Rightarrow> (disk, 'e, bytes) op" where
  "rd_or msg lba = (\<lambda>d. case dk_read lba d of
     (Some b, d') \<Rightarrow> Some (Ok b, d')
   | (None, d') \<Rightarrow> Some (Err msg, d'))"

text \<open>The loop over \<open>chunks_mut(SECTOR)\<close> that reads \<open>n\<close> sectors from \<open>lba\<close> on.\<close>

definition read_run :: "'e \<Rightarrow> u64 \<Rightarrow> nat \<Rightarrow> (disk, 'e, bytes) op" where
  "read_run msg lba n =
     andThen (map_each (\<lambda>i. rd_or msg (lba + of_nat i)) [0..<n]) (\<lambda>cs. ret (concat cs))"

definition sectors :: "disk \<Rightarrow> u64 \<Rightarrow> nat \<Rightarrow> bytes" where
  "sectors d lba n = concat (map (\<lambda>i. dk_data d (lba + of_nat i)) [0..<n])"

text \<open>Reading leaves the contents and the capacity alone.\<close>

definition same_data :: "disk \<Rightarrow> disk \<Rightarrow> bool" where
  "same_data d d' \<longleftrightarrow> dk_data d' = dk_data d \<and> dk_capacity d' = dk_capacity d \<and> (disk_ok d \<longrightarrow> disk_ok d')
     \<and> (reliable d \<longrightarrow> reliable d')"

lemma same_data_refl [simp]: "same_data d d"
  by (simp add: same_data_def)

lemma same_data_trans: "same_data d d' \<Longrightarrow> same_data d' d'' \<Longrightarrow> same_data d d''"
  by (simp add: same_data_def)

lemma same_data_sectors: "same_data d d' \<Longrightarrow> sectors d' lba n = sectors d lba n"
  by (simp add: same_data_def sectors_def)

lemma length_sectors: "disk_ok d \<Longrightarrow> length (sectors d lba n) = SECTOR * n"
  by (induction n) (simp_all add: sectors_def disk_ok_def)

lemma rd_or_cases:
  obtains (Ok) d' where "rd_or msg lba d = Some (Ok (dk_data d lba), d')" "same_data d d'"
        | (Err) d' where "rd_or msg lba d = Some (Err msg, d')" "same_data d d'"
            "lba < dk_capacity d \<Longrightarrow> \<not> reliable d"
proof -
  obtain r d' where r: "dk_read lba d = (r, d')" by (cases "dk_read lba d")
  note facts = dk_read_cases [OF r] dk_read_keeps_reliable [OF r]
  show ?thesis
  proof (cases r)
    case None
    then have "lba < dk_capacity d \<Longrightarrow> \<not> reliable d" using r dk_read_reliable [of d lba] by auto
    with None r facts show ?thesis by (intro Err [of d']) (simp_all add: rd_or_def same_data_def)
  next
    case (Some b)
    with r facts show ?thesis by (intro Ok [of d']) (simp_all add: rd_or_def same_data_def)
  qed
qed

lemma rd_or_reliable: "reliable d \<Longrightarrow> lba < dk_capacity d \<Longrightarrow> rd_or msg lba d = Some (Ok (dk_data d lba), d)"
  by (simp add: rd_or_def dk_read_reliable)

lemma map_each_rd_cases:
  obtains (Ok) d' where "map_each (\<lambda>i. rd_or msg (f i)) is d = Some (Ok (map (\<lambda>i. dk_data d (f i)) is), d')"
                        "same_data d d'"
        | (Err) d' where "map_each (\<lambda>i. rd_or msg (f i)) is d = Some (Err msg, d')" "same_data d d'"
            "(\<forall>i\<in>set is. f i < dk_capacity d) \<Longrightarrow> \<not> reliable d"
proof (induction "is" arbitrary: d thesis)
  case Nil
  then show ?case by simp
next
  case (Cons i "is")
  show ?case
  proof (cases rule: rd_or_cases [of msg "f i" d])
    case (Err d')
    then show ?thesis by (intro Cons.prems(2) [of d']) simp_all
  next
    case (Ok d')
    have data: "dk_data d' = dk_data d" using Ok(2) by (simp add: same_data_def)
    show ?thesis
    proof (rule Cons.IH [of d'])
      fix d''
      assume "map_each (\<lambda>i. rd_or msg (f i)) is d' = Some (Ok (map (\<lambda>i. dk_data d' (f i)) is), d'')"
        and "same_data d' d''"
      then show ?thesis
        using Ok same_data_trans by (intro Cons.prems(1) [of d'']) (auto simp: data)
    next
      fix d''
      assume "map_each (\<lambda>i. rd_or msg (f i)) is d' = Some (Err msg, d'')" and "same_data d' d''"
        and "(\<forall>i\<in>set is. f i < dk_capacity d') \<Longrightarrow> \<not> reliable d'"
      then show ?thesis
        using Ok same_data_trans by (intro Cons.prems(2) [of d'']) (auto simp: same_data_def)
    qed
  qed
qed

lemma read_run_cases:
  obtains (Ok) d' where "read_run msg lba n d = Some (Ok (sectors d lba n), d')" "same_data d d'"
        | (Err) d' where "read_run msg lba n d = Some (Err msg, d')" "same_data d d'"
            "(\<And>i. i < n \<Longrightarrow> lba + of_nat i < dk_capacity d) \<Longrightarrow> \<not> reliable d"
  by (cases rule: map_each_rd_cases [of msg "\<lambda>i. lba + of_nat i" "[0..<n]" d])
     (simp_all add: read_run_def sectors_def)

lemma map_each_rd_reliable:
  "reliable d \<Longrightarrow> (\<forall>i\<in>set is. f i < dk_capacity d) \<Longrightarrow>
     map_each (\<lambda>i. rd_or msg (f i)) is d = Some (Ok (map (\<lambda>i. dk_data d (f i)) is), d)"
  by (induction "is") (simp_all add: rd_or_reliable)

lemma read_run_reliable:
  assumes "reliable d" and "\<And>i. i < n \<Longrightarrow> lba + of_nat i < dk_capacity d"
  shows "read_run msg lba n d = Some (Ok (sectors d lba n), d)"
  using map_each_rd_reliable [of d "[0..<n]" "\<lambda>i. lba + of_nat i" msg] assms
  by (simp add: read_run_def sectors_def)

end
