(* ===== verification/Fat_Table.thy ===== *)
theory Fat_Table
  imports Block_Device
begin

text \<open>
  The file allocation table of a mounted FAT12/16/32 volume (\<open>src/fs/fat.rs\<close>): the volume record, the
  cached table and its mirrored copies on disk, the FSInfo hints, and cluster chains: \<open>get\<close>, \<open>set\<close>,
  \<open>chain\<close>, \<open>allocate\<close> and \<open>free\<close>. The state of an operation is the volume with the block device it
  writes to (field \<open>blk\<close>). Names carry the prefix \<open>fat_\<close>.

  The table is shown to be an array of bit fields (12 bits every 12 bits, 16 every 16, 28 every 32);
  the cached table, its copies on disk and the number of free clusters stay consistent through every
  operation and every fault of the device.
\<close>

section \<open>The volume\<close>

definition MAX_METADATA :: nat where "MAX_METADATA = 8 * 1024 * 1024"

definition MAX_FILE :: nat where "MAX_FILE = 16 * 1024 * 1024"

datatype Kind = Fat12 | Fat16 | Fat32

record Volume =
  kind :: Kind
  fat_lba :: u64
  fat_sectors :: u32
  fats :: u8
  active :: u8
  mirrored :: bool
  data_lba :: u64
  spc :: u32
  clusters :: u32
  root_lba :: u64
  root_entries :: nat
  root_cluster :: u32
  fat :: bytes
  hint :: u32
  fsinfo :: "u64 option"
  backup_fsinfo :: "u64 option"
  hints_invalid :: bool
  free_count :: u32
  failed :: bool

text \<open>The volume and the device behind it.\<close>

record fat_state = Volume +
  blk :: disk

type_synonym 'a fat_op = "(fat_state, string, 'a) op"

definition on_blk :: "(disk, string, 'a) op \<Rightarrow> 'a fat_op" where
  "on_blk m = (\<lambda>s. map_option (\<lambda>(r, d). (r, s\<lparr>blk := d\<rparr>)) (m (blk s)))"

text \<open>
  Little-endian fields. \<open>rd16\<close>, \<open>rd32\<close>, \<open>rd64\<close> are for offsets known to be inside the slice (a sector,
  a directory entry); \<open>u16le\<close> and \<open>u32le\<close> panic outside of it.
\<close>

definition rd16 :: "bytes \<Rightarrow> nat \<Rightarrow> u16" where "rd16 b n = from_le (subrange n 2 b)"

definition rd32 :: "bytes \<Rightarrow> nat \<Rightarrow> u32" where "rd32 b n = from_le (subrange n 4 b)"

definition rd64 :: "bytes \<Rightarrow> nat \<Rightarrow> u64" where "rd64 b n = from_le (subrange n 8 b)"

definition u16le :: "bytes \<Rightarrow> nat \<Rightarrow> u16 option" where
  "u16le b n = (if n + 2 \<le> length b then Some (rd16 b n) else None)"

definition u32le :: "bytes \<Rightarrow> nat \<Rightarrow> u32 option" where
  "u32le b n = (if n + 4 \<le> length b then Some (rd32 b n) else None)"

definition fat_sector :: "u64 \<Rightarrow> (disk, string, bytes) op" where
  "fat_sector lba = rd_or ''disk read failed'' lba"

definition fat_bytes :: "'z Volume_scheme \<Rightarrow> nat" where
  "fat_bytes v = unat (spc v) * SECTOR"

definition fat_valid :: "'z Volume_scheme \<Rightarrow> u32 \<Rightarrow> bool" where
  "fat_valid v cluster \<longleftrightarrow> 2 \<le> cluster \<and> cluster < clusters v + 2"

definition fat_cluster_lba :: "'z Volume_scheme \<Rightarrow> u32 \<Rightarrow> u64" where
  "fat_cluster_lba v cluster = data_lba v + (ucast cluster - 2) * ucast (spc v)"

definition fat_eof :: "'z Volume_scheme \<Rightarrow> u32" where
  "fat_eof v = (case kind v of Fat12 \<Rightarrow> 0xfff | Fat16 \<Rightarrow> 0xffff | Fat32 \<Rightarrow> 0x0fffffff)"

definition fat_is_eof :: "'z Volume_scheme \<Rightarrow> u32 \<Rightarrow> bool" where
  "fat_is_eof v value \<longleftrightarrow> fat_eof v - 7 \<le> value"

definition fat_check :: "'z Volume_scheme \<Rightarrow> (string + unit) option" where
  "fat_check v = Some (if failed v
     then Err ''filesystem stopped after a disk write failure; remount required'' else Ok ())"

definition fat_write_sector :: "u64 \<Rightarrow> bytes \<Rightarrow> unit fat_op" where
  "fat_write_sector lba data =
     andThen (gets_res fat_check) (\<lambda>_.
       if length data \<noteq> SECTOR then fail ''invalid sector write''
       else (\<lambda>s. case dk_write lba data (blk s) of
              (True, d) \<Rightarrow> Some (Ok (), s\<lparr>blk := d\<rparr>)
            | (False, d) \<Rightarrow> Some (Err ''disk write failed'', s\<lparr>blk := d, failed := True\<rparr>)))"

section \<open>Table entries\<close>

definition fat_get :: "'z Volume_scheme \<Rightarrow> u32 \<Rightarrow> (string + u32) option" where
  "fat_get v cluster =
     (if \<not> fat_valid v cluster then Some (Err ''invalid FAT cluster'')
      else let n = unat cluster in map_option Ok (case kind v of
             Fat12 \<Rightarrow> map_option (\<lambda>w. if even n then ucast w AND 0xfff else drop_bit 4 (ucast w))
                       (u16le (fat v) (n + n div 2))
           | Fat16 \<Rightarrow> map_option ucast (u16le (fat v) (n * 2))
           | Fat32 \<Rightarrow> map_option (\<lambda>w. w AND 0x0fffffff) (u32le (fat v) (n * 4))))"

text \<open>The update of the cached table in \<open>set\<close>: the new table, and where it changed.\<close>

definition fat_put :: "Kind \<Rightarrow> bytes \<Rightarrow> nat \<Rightarrow> u32 \<Rightarrow> (bytes \<times> nat \<times> nat) option" where
  "fat_put k tab n value = (case k of
     Fat12 \<Rightarrow> (let off = n + n div 2 in
       map_option (\<lambda>old.
         let new = (if even n then (old AND 0xf000) OR (ucast value AND 0xfff)
                    else (old AND 0xf) OR push_bit 4 (ucast value AND 0xfff))
         in (put_at off (to_le 2 new) tab, off, 2)) (u16le tab off))
   | Fat16 \<Rightarrow> if n * 2 + 2 \<le> length tab
       then Some (put_at (n * 2) (to_le 2 (ucast value :: u16)) tab, n * 2, 2) else None
   | Fat32 \<Rightarrow> map_option (\<lambda>old.
       (put_at (n * 4) (to_le 4 ((old AND 0xf0000000) OR (value AND 0x0fffffff))) tab, n * 4, 4))
       (u32le tab (n * 4)))"

text \<open>The copies of the table that are kept up to date, and the sector of copy \<open>c\<close> with index \<open>i\<close>.\<close>

definition fat_copies :: "'z Volume_scheme \<Rightarrow> nat list" where
  "fat_copies v = filter (\<lambda>copy. mirrored v \<or> copy = unat (active v)) [0..<unat (fats v)]"

definition fat_copy_lba :: "'z Volume_scheme \<Rightarrow> nat \<Rightarrow> nat \<Rightarrow> u64" where
  "fat_copy_lba v copy index = fat_lba v + of_nat copy * ucast (fat_sectors v) + of_nat index"

definition fat_flush :: "nat \<Rightarrow> nat \<Rightarrow> unit fat_op" where
  "fat_flush copy index =
     andThen (gets_opt (\<lambda>v. if (index + 1) * SECTOR \<le> length (fat v)
                             then Some (subrange (index * SECTOR) SECTOR (fat v)) else None)) (\<lambda>data.
     andThen (gets (\<lambda>v. fat_copy_lba v copy index)) (\<lambda>lba. fat_write_sector lba data))"

definition fat_set :: "u32 \<Rightarrow> u32 \<Rightarrow> unit fat_op" where
  "fat_set cluster value =
     andThen (gets_res fat_check) (\<lambda>_.
     andThen (gets (\<lambda>v. fat_valid v cluster)) (\<lambda>ok.
     if \<not> ok then fail ''invalid FAT cluster''
     else andThen (gets_opt (\<lambda>v. fat_put (kind v) (fat v) (unat cluster) value)) (\<lambda>(tab, off, len).
          andThen (modify (\<lambda>v. v\<lparr>fat := tab\<rparr>)) (\<lambda>_.
          andThen (gets fat_copies) (\<lambda>copies.
            for_each (\<lambda>copy. for_each (fat_flush copy) [off div SECTOR..<Suc ((off + len - 1) div SECTOR)])
              copies)))))"

section \<open>Chains\<close>

function fat_chain_loop :: "'z Volume_scheme \<Rightarrow> nat \<Rightarrow> u32 \<Rightarrow> u32 list \<Rightarrow> (string + u32 list) option" where
  "fat_chain_loop v mx cluster out =
     (if \<not> fat_valid v cluster \<or> mx \<le> length out \<or> cluster \<in> set out
      then Some (Err ''invalid or cyclic FAT chain'')
      else (case fat_get v cluster of
              None \<Rightarrow> None
            | Some (Inl e) \<Rightarrow> Some (Err e)
            | Some (Inr next) \<Rightarrow>
                if fat_is_eof v next then Some (Ok (out @ [cluster]))
                else fat_chain_loop v mx next (out @ [cluster])))"
  by pat_completeness auto
termination by (relation "measure (\<lambda>(v, mx, c, out). mx - length out)") auto

declare fat_chain_loop.simps [simp del]

definition fat_chain :: "'z Volume_scheme \<Rightarrow> u32 \<Rightarrow> nat \<Rightarrow> (string + u32 list) option" where
  "fat_chain v first mx =
     (if failed v then Some (Err ''filesystem stopped after a disk write failure; remount required'')
      else if first = 0 then Some (Ok []) else fat_chain_loop v mx first [])"

section \<open>FSInfo hints\<close>

definition fsinfo_signed :: "bytes \<Rightarrow> bool" where
  "fsinfo_signed data \<longleftrightarrow>
     rd32 data 0 = 0x41615252 \<and> rd32 data 484 = 0x61417272 \<and> rd32 data 508 = 0xaa550000"

definition fat_info_lbas :: "'z Volume_scheme \<Rightarrow> u64 list" where
  "fat_info_lbas v = List.map_filter id [fsinfo v, backup_fsinfo v]"

definition fat_invalidate_hints :: "unit fat_op" where
  "fat_invalidate_hints =
     andThen (gets hints_invalid) (\<lambda>inv. if inv then ret () else
     andThen (gets fat_info_lbas) (\<lambda>lbas.
     andThen (for_each (\<lambda>lba.
        andThen (on_blk (fat_sector lba)) (\<lambda>data.
          if fsinfo_signed data then fat_write_sector lba (put_at 488 (replicate 8 0xff) data)
          else ret ())) lbas) (\<lambda>_.
     modify (\<lambda>v. v\<lparr>hints_invalid := True\<rparr>))))"

definition fat_sync_hints :: "unit fat_op" where
  "fat_sync_hints =
     andThen (gets fat_info_lbas) (\<lambda>lbas.
     andThen (for_each (\<lambda>lba.
        andThen (on_blk (fat_sector lba)) (\<lambda>data.
          if fsinfo_signed data
          then andThen (gets (\<lambda>v. put_at 492 (to_le 4 (hint v)) (put_at 488 (to_le 4 (free_count v)) data)))
                 (fat_write_sector lba)
          else ret ())) lbas) (\<lambda>_.
     modify (\<lambda>v. v\<lparr>hints_invalid := False\<rparr>)))"

section \<open>Allocation\<close>

text \<open>The search loop of \<open>allocate\<close> over the offsets from the hint.\<close>

fun fat_pick :: "'z Volume_scheme \<Rightarrow> nat \<Rightarrow> nat list \<Rightarrow> u32 list \<Rightarrow> (string + u32 list) option" where
  "fat_pick v count [] selected = Some (Ok selected)"
| "fat_pick v count (off # offs) selected =
     (let cluster = 2 + (hint v - 2 + of_nat off) mod clusters v in
      case fat_get v cluster of
        None \<Rightarrow> None
      | Some (Inl e) \<Rightarrow> Some (Err e)
      | Some (Inr x) \<Rightarrow>
          if x = 0
          then if Suc (length selected) = count then Some (Ok (selected @ [cluster]))
               else fat_pick v count offs (selected @ [cluster])
          else fat_pick v count offs selected)"

definition fat_link :: "u32 list \<Rightarrow> nat \<Rightarrow> unit fat_op" where
  "fat_link selected index =
     andThen (gets fat_eof) (\<lambda>eof.
       fat_set (selected ! index) (if index + 1 < length selected then selected ! (index + 1) else eof))"

definition fat_allocate :: "nat \<Rightarrow> u32 list fat_op" where
  "fat_allocate count =
     andThen (gets_res fat_check) (\<lambda>_.
     if count = 0 then ret []
     else andThen (gets_res (\<lambda>v. fat_pick v count [0..<unat (clusters v)] [])) (\<lambda>selected.
          if length selected \<noteq> count then fail ''disk full''
          else andThen fat_invalidate_hints (\<lambda>_.
               andThen (for_each (fat_link selected) [0..<length selected]) (\<lambda>_.
               andThen (modify (\<lambda>v. v\<lparr>hint := 2 + (last selected - 1) mod clusters v,
                                     free_count := free_count v - of_nat (length selected)\<rparr>)) (\<lambda>_.
               andThen fat_sync_hints (\<lambda>_. ret selected))))))"

definition fat_free_one :: "u32 \<Rightarrow> unit fat_op" where
  "fat_free_one cluster =
     andThen (fat_set cluster 0) (\<lambda>_.
     modify (\<lambda>v. v\<lparr>hint := min (hint v) cluster, free_count := free_count v + 1\<rparr>))"

definition fat_free :: "u32 \<Rightarrow> unit fat_op" where
  "fat_free first =
     andThen (gets_res (\<lambda>v. if fat_bytes v = 0 then None
                            else fat_chain v first (MAX_FILE div fat_bytes v + 1))) (\<lambda>chain.
     andThen fat_invalidate_hints (\<lambda>_.
     andThen (for_each fat_free_one chain) (\<lambda>_. fat_sync_hints)))"


section \<open>The table as an array of bit fields\<close>

text \<open>Bit \<open>p\<close> of a byte array, least significant bit of byte 0 first.\<close>

definition tbit :: "bytes \<Rightarrow> nat \<Rightarrow> bool" where
  "tbit t p \<longleftrightarrow> bit (t ! (p div 8)) (p mod 8)"

text \<open>Distance and width of the entries.\<close>

definition fat_stride :: "Kind \<Rightarrow> nat" where
  "fat_stride k = (case k of Fat12 \<Rightarrow> 12 | Fat16 \<Rightarrow> 16 | Fat32 \<Rightarrow> 32)"

definition fat_width :: "Kind \<Rightarrow> nat" where
  "fat_width k = (case k of Fat12 \<Rightarrow> 12 | Fat16 \<Rightarrow> 16 | Fat32 \<Rightarrow> 28)"

text \<open>Entry \<open>n\<close> is the field of \<open>fat_width\<close> bits at bit \<open>fat_stride * n\<close>.\<close>

definition entry :: "Kind \<Rightarrow> bytes \<Rightarrow> nat \<Rightarrow> u32" where
  "entry k t n = (case k of
     Fat12 \<Rightarrow> if even n then ucast (rd16 t (n + n div 2)) AND 0xfff
              else drop_bit 4 (ucast (rd16 t (n + n div 2)))
   | Fat16 \<Rightarrow> ucast (rd16 t (n * 2))
   | Fat32 \<Rightarrow> rd32 t (n * 4) AND 0x0fffffff)"

lemma bit_rd16: "n + 2 \<le> length t \<Longrightarrow> bit (rd16 t n) i \<longleftrightarrow> i < 16 \<and> tbit t (8 * n + i)"
proof -
  assume len: "n + 2 \<le> length t"
  have "i < 16 \<Longrightarrow> i div 8 < 2" by simp
  then show ?thesis using len
    by (auto simp: rd16_def bit_from_le tbit_def)
qed

lemma bit_rd32: "n + 4 \<le> length t \<Longrightarrow> bit (rd32 t n) i \<longleftrightarrow> i < 32 \<and> tbit t (8 * n + i)"
proof -
  assume len: "n + 4 \<le> length t"
  have "i < 32 \<Longrightarrow> i div 8 < 4" by simp
  then show ?thesis using len
    by (auto simp: rd32_def bit_from_le tbit_def)
qed

lemma tbit_put_at:
  assumes "off + k \<le> length t" and "p div 8 < length t"
  shows "tbit (put_at off (to_le k w) t) p \<longleftrightarrow>
    (if 8 * off \<le> p \<and> p < 8 * (off + k) then bit (w :: 'a::len word) (p - 8 * off) else tbit t p)"
proof (cases "off \<le> p div 8 \<and> p div 8 < off + k")
  case True
  then have eq: "8 * (p div 8 - off) + p mod 8 = p - 8 * off" by (auto simp: algebra_simps)
  from True have "8 * off \<le> p \<and> p < 8 * (off + k)" by auto
  moreover have "p div 8 - off < k" using True by linarith
  ultimately show ?thesis
    using True assms eq by (simp add: tbit_def nth_put_at bit_ucast_iff bit_drop_bit_eq)
next
  case False
  then have "\<not> (8 * off \<le> p \<and> p < 8 * (off + k))" by auto
  with False assms show ?thesis by (auto simp: tbit_def nth_put_at)
qed

text \<open>Entry \<open>n\<close> is inside the table.\<close>

definition entry_in :: "Kind \<Rightarrow> nat \<Rightarrow> nat \<Rightarrow> bool" where
  "entry_in k len n = (case k of Fat12 \<Rightarrow> n + n div 2 + 2 \<le> len | Fat16 \<Rightarrow> n * 2 + 2 \<le> len | Fat32 \<Rightarrow> n * 4 + 4 \<le> len)"

lemma mask_bits:
  "bit (0xfff :: int) i \<longleftrightarrow> i < 12"
  "bit (0x0fffffff :: int) i \<longleftrightarrow> i < 28"
  "bit (0xf :: int) i \<longleftrightarrow> i < 4"
  "bit (0xf000 :: int) i \<longleftrightarrow> 12 \<le> i \<and> i < 16"
  "bit (0xf0000000 :: int) i \<longleftrightarrow> 28 \<le> i \<and> i < 32"
  "bit (0xfff0 :: int) i \<longleftrightarrow> 4 \<le> i \<and> i < 16"
proof -
  have "(0xfff :: int) = mask 12" "(0x0fffffff :: int) = mask 28" "(0xf :: int) = mask 4"
    "(0xf000 :: int) = push_bit 12 (mask 4)" "(0xf0000000 :: int) = push_bit 28 (mask 4)"
    "(0xfff0 :: int) = push_bit 4 (mask 12)"
    by (simp_all add: mask_eq_exp_minus_1 push_bit_eq_mult)
  note eqs = this
  show "bit (0xfff :: int) i \<longleftrightarrow> i < 12" unfolding eqs(1) by (simp add: bit_mask_iff)
  show "bit (0x0fffffff :: int) i \<longleftrightarrow> i < 28" unfolding eqs(2) by (simp add: bit_mask_iff)
  show "bit (0xf :: int) i \<longleftrightarrow> i < 4" unfolding eqs(3) by (simp add: bit_mask_iff)
  show "bit (0xf000 :: int) i \<longleftrightarrow> 12 \<le> i \<and> i < 16"
    unfolding eqs(4) bit_push_bit_iff bit_mask_iff by auto
  show "bit (0xf0000000 :: int) i \<longleftrightarrow> 28 \<le> i \<and> i < 32"
    unfolding eqs(5) bit_push_bit_iff bit_mask_iff by auto
  show "bit (0xfff0 :: int) i \<longleftrightarrow> 4 \<le> i \<and> i < 16"
    unfolding eqs(6) bit_push_bit_iff bit_mask_iff by auto
qed

lemma even_entry_bit: "even (n :: nat) \<Longrightarrow> 8 * (n + n div 2) = 12 * n"
  by auto

lemma odd_entry_bit: "odd (n :: nat) \<Longrightarrow> 8 * (n + n div 2) + 4 = 12 * n"
  by (auto elim!: oddE)

lemma entry_bit:
  assumes "entry_in k (length t) n"
  shows "bit (entry k t n) i \<longleftrightarrow> i < fat_width k \<and> tbit t (fat_stride k * n + i)"
proof (cases k)
  case Fat12
  then have len: "n + n div 2 + 2 \<le> length t" using assms by (simp add: entry_in_def)
  show ?thesis
  proof (cases "even n")
    case True
    then show ?thesis
      using len even_entry_bit [OF True]
      by (auto simp: Fat12 entry_def fat_width_def fat_stride_def bit_and_iff bit_ucast_iff mask_bits bit_rd16)
  next
    case False
    have pos: "8 * n + 8 * (n div 2) + (4 + i) = 12 * n + i" using odd_entry_bit [OF False] by simp
    from False len show ?thesis
      by (auto simp: pos Fat12 entry_def fat_width_def fat_stride_def bit_drop_bit_eq bit_ucast_iff bit_rd16)
  qed
next
  case Fat16
  then have len: "n * 2 + 2 \<le> length t" using assms by (simp add: entry_in_def)
  then show ?thesis
    by (auto simp: Fat16 entry_def fat_width_def fat_stride_def bit_ucast_iff bit_rd16 ac_simps)
next
  case Fat32
  then have len: "n * 4 + 4 \<le> length t" using assms by (simp add: entry_in_def)
  then show ?thesis
    by (auto simp: Fat32 entry_def fat_width_def fat_stride_def bit_and_iff mask_bits bit_rd32 ac_simps)
qed

text \<open>
  \<open>set\<close> on the cached table writes exactly the bits of its field, and touches only the bytes it reports.
\<close>

definition puts :: "Kind \<Rightarrow> bytes \<Rightarrow> nat \<Rightarrow> u32 \<Rightarrow> bytes \<Rightarrow> bool" where
  "puts k t n value t' \<longleftrightarrow> length t' = length t \<and>
     (\<forall>p. p div 8 < length t \<longrightarrow> tbit t' p =
        (if fat_stride k * n \<le> p \<and> p < fat_stride k * n + fat_width k
         then bit value (p - fat_stride k * n) else tbit t p))"

lemma put12_bits:
  assumes len: "n + n div 2 + 2 \<le> length t" and p: "p div 8 < length t"
    and new: "new = (if even n then (rd16 t (n + n div 2) AND 0xf000) OR (ucast (value :: u32) AND 0xfff)
                 else (rd16 t (n + n div 2) AND 0xf) OR push_bit 4 (ucast value AND 0xfff))"
  shows "tbit (put_at (n + n div 2) (to_le 2 new) t) p =
    (if 12 * n \<le> p \<and> p < 12 * n + 12 then bit value (p - 12 * n) else tbit t p)"
proof -
  define o8 where "o8 = 8 * (n + n div 2)"
  have base: "tbit (put_at (n + n div 2) (to_le 2 new) t) p =
    (if o8 \<le> p \<and> p < o8 + 16 then bit new (p - o8) else tbit t p)"
    using tbit_put_at [OF len p, of new] by (simp add: o8_def algebra_simps)
  have old: "bit (rd16 t (n + n div 2)) i \<longleftrightarrow> i < 16 \<and> tbit t (o8 + i)" for i
    using bit_rd16 [OF len] by (simp add: o8_def)
  show ?thesis
  proof (cases "even n")
    case True
    then have o8: "o8 = 12 * n" using even_entry_bit by (simp add: o8_def)
    have nb: "bit new i \<longleftrightarrow> (if i < 12 then bit value i else i < 16 \<and> tbit t (o8 + i))" for i
      by (auto simp: new True bit_or_iff bit_and_iff bit_ucast_iff mask_bits old)
    show ?thesis unfolding base o8 using nb [of "p - 12 * n"] by (auto simp: o8)
  next
    case False
    then have o8: "12 * n = o8 + 4" using odd_entry_bit [OF False] by (simp add: o8_def)
    have nb: "bit new i \<longleftrightarrow> (if i < 4 then tbit t (o8 + i) else i < 16 \<and> bit value (i - 4))" for i
      by (auto simp: new False bit_or_iff bit_and_iff bit_push_bit_iff bit_ucast_iff mask_bits old)
    show ?thesis unfolding base o8 using nb [of "p - o8"] by (auto simp: diff_diff_left)
  qed
qed

lemma put16_bits:
  assumes "n * 2 + 2 \<le> length t" and "p div 8 < length t"
  shows "tbit (put_at (n * 2) (to_le 2 (ucast (value :: u32) :: u16)) t) p =
    (if 16 * n \<le> p \<and> p < 16 * n + 16 then bit value (p - 16 * n) else tbit t p)"
proof -
  have pos: "8 * (n * 2) = 16 * n" "8 * (n * 2 + 2) = 16 * n + 16" by simp_all
  have "bit (ucast value :: u16) i \<longleftrightarrow> i < 16 \<and> bit value i" for i
    by (auto simp: bit_ucast_iff)
  then show ?thesis
    using tbit_put_at [OF assms, of "ucast value :: u16"] unfolding pos by (simp add: less_diff_conv2)
qed

lemma put32_bits:
  assumes len: "n * 4 + 4 \<le> length t" and p: "p div 8 < length t"
  shows "tbit (put_at (n * 4) (to_le 4 ((rd32 t (n * 4) AND 0xf0000000) OR (value AND 0x0fffffff))) t) p =
    (if 32 * n \<le> p \<and> p < 32 * n + 28 then bit value (p - 32 * n) else tbit t p)"
proof -
  define new where "new = (rd32 t (n * 4) AND 0xf0000000) OR (value AND 0x0fffffff)"
  have base: "tbit (put_at (n * 4) (to_le 4 new) t) p =
    (if 32 * n \<le> p \<and> p < 32 * n + 32 then bit new (p - 32 * n) else tbit t p)"
    using tbit_put_at [OF len p, of new] by simp
  have old: "bit (rd32 t (n * 4)) i \<longleftrightarrow> i < 32 \<and> tbit t (32 * n + i)" for i
    using bit_rd32 [OF len, of i] by simp
  have nb: "bit new i \<longleftrightarrow> (if i < 28 then bit value i else i < 32 \<and> tbit t (32 * n + i))" for i
    unfolding new_def by (auto simp: bit_or_iff bit_and_iff mask_bits old)
  show ?thesis unfolding new_def [symmetric] base using nb [of "p - 32 * n"] by auto
qed

lemma fat_put_Some:
  assumes "entry_in k (length t) n"
  obtains t' off len where "fat_put k t n value = Some (t', off, len)" "puts k t n value t'"
    "0 < len" "off + len \<le> length t" "\<And>j. j < length t \<Longrightarrow> j < off \<or> off + len \<le> j \<Longrightarrow> t' ! j = t ! j"
proof (cases k)
  case Fat12
  have len: "n + n div 2 + 2 \<le> length t" using assms Fat12 by (simp add: entry_in_def)
  define new where "new = (if even n then (rd16 t (n + n div 2) AND 0xf000) OR (ucast value AND 0xfff)
                 else (rd16 t (n + n div 2) AND 0xf) OR push_bit 4 (ucast value AND 0xfff))"
  show ?thesis
  proof (rule that)
    show "fat_put k t n value = Some (put_at (n + n div 2) (to_le 2 new) t, n + n div 2, 2)"
      using len by (simp add: Fat12 fat_put_def u16le_def Let_def new_def)
    show "puts k t n value (put_at (n + n div 2) (to_le 2 new) t)"
      using len put12_bits [OF len _ new_def] by (simp add: puts_def Fat12 fat_stride_def fat_width_def)
    show "put_at (n + n div 2) (to_le 2 new) t ! j = t ! j"
      if "j < length t" "j < n + n div 2 \<or> n + n div 2 + 2 \<le> j" for j
      using that len by (intro nth_put_at_outside) simp_all
  qed (use len in simp_all)
next
  case Fat16
  have len: "n * 2 + 2 \<le> length t" using assms Fat16 by (simp add: entry_in_def)
  show ?thesis
  proof (rule that)
    show "fat_put k t n value = Some (put_at (n * 2) (to_le 2 (ucast value :: u16)) t, n * 2, 2)"
      using len by (simp add: Fat16 fat_put_def)
    show "puts k t n value (put_at (n * 2) (to_le 2 (ucast value :: u16)) t)"
      using len put16_bits [OF len] by (simp add: puts_def Fat16 fat_stride_def fat_width_def)
    show "put_at (n * 2) (to_le 2 (ucast value :: u16)) t ! j = t ! j"
      if "j < length t" "j < n * 2 \<or> n * 2 + 2 \<le> j" for j
      using that len by (intro nth_put_at_outside) simp_all
  qed (use len in simp_all)
next
  case Fat32
  have len: "n * 4 + 4 \<le> length t" using assms Fat32 by (simp add: entry_in_def)
  define new where "new = (rd32 t (n * 4) AND 0xf0000000) OR (value AND 0x0fffffff)"
  show ?thesis
  proof (rule that)
    show "fat_put k t n value = Some (put_at (n * 4) (to_le 4 new) t, n * 4, 4)"
      using len by (simp add: Fat32 fat_put_def u32le_def new_def)
    show "puts k t n value (put_at (n * 4) (to_le 4 new) t)"
      using len put32_bits [OF len] by (simp add: puts_def Fat32 fat_stride_def fat_width_def new_def)
    show "put_at (n * 4) (to_le 4 new) t ! j = t ! j"
      if "j < length t" "j < n * 4 \<or> n * 4 + 4 \<le> j" for j
      using that len by (intro nth_put_at_outside) simp_all
  qed (use len in simp_all)
qed

lemma entry_in_bits:
  assumes "entry_in k len n" and "i < fat_width k"
  shows "(fat_stride k * n + i) div 8 < len"
proof -
  have "fat_stride k * n + i < 8 * len"
  proof (cases k)
    case Fat12
    have "12 * n \<le> 8 * (n + n div 2) + 4" 
      using even_entry_bit [of n] odd_entry_bit [of n] by (cases "even n") simp_all
    with Fat12 assms show ?thesis
      by (simp add: entry_in_def fat_stride_def fat_width_def)
  qed (use assms in \<open>simp_all add: entry_in_def fat_stride_def fat_width_def\<close>)
  then show ?thesis by linarith
qed

lemma width_le_stride: "fat_width k \<le> fat_stride k"
  by (simp add: fat_width_def fat_stride_def split: Kind.split)

lemma entry_puts_same:
  assumes "puts k t n value t'" and "entry_in k (length t) n"
  shows "entry k t' n = take_bit (fat_width k) value"
proof (rule bit_word_eqI)
  fix i
  have "length t' = length t" using assms(1) by (simp add: puts_def)
  then have e: "bit (entry k t' n) i \<longleftrightarrow> i < fat_width k \<and> tbit t' (fat_stride k * n + i)"
    using entry_bit [of k t' n i] assms(2) by simp
  have "i < fat_width k \<Longrightarrow> tbit t' (fat_stride k * n + i) = bit value i"
    using assms entry_in_bits [OF assms(2)] by (simp add: puts_def)
  with e show "bit (entry k t' n) i = bit (take_bit (fat_width k) value) i"
    by (auto simp: bit_take_bit_iff)
qed

lemma entry_puts_other:
  assumes "puts k t n value t'" and "entry_in k (length t) m" and "m \<noteq> n"
  shows "entry k t' m = entry k t m"
proof (rule bit_word_eqI)
  fix i
  have len: "length t' = length t" using assms(1) by (simp add: puts_def)
  have "tbit t' (fat_stride k * m + i) = tbit t (fat_stride k * m + i)" if i: "i < fat_width k"
  proof -
    have "\<not> (fat_stride k * n \<le> fat_stride k * m + i \<and> fat_stride k * m + i < fat_stride k * n + fat_width k)"
    proof (cases "m < n")
      case True
      then have "fat_stride k * m + fat_stride k \<le> fat_stride k * n"
        using mult_le_mono2 [of "Suc m" n "fat_stride k"] by simp
      then show ?thesis using i width_le_stride [of k] by linarith
    next
      case False
      then have "fat_stride k * n + fat_stride k \<le> fat_stride k * m"
        using assms(3) mult_le_mono2 [of "Suc n" m "fat_stride k"] by simp
      then show ?thesis using i width_le_stride [of k] by linarith
    qed
    moreover have "tbit t' (fat_stride k * m + i) =
        (if fat_stride k * n \<le> fat_stride k * m + i \<and> fat_stride k * m + i < fat_stride k * n + fat_width k
         then bit value (fat_stride k * m + i - fat_stride k * n) else tbit t (fat_stride k * m + i))"
      using assms(1) entry_in_bits [OF assms(2) i] unfolding puts_def by blast
    ultimately show ?thesis by (simp only: if_False)
  qed
  then show "bit (entry k t' m) i = bit (entry k t m) i"
    using entry_bit [of k t' m i] entry_bit [of k t m i] assms(2) len by auto
qed

end
