(* ===== verification/Fat_Alloc.thy ===== *)
theory Fat_Alloc
  imports Fat_Table
begin

text \<open>
  The invariant of a mounted FAT volume and the correctness of \<open>set\<close>, \<open>chain\<close>, \<open>allocate\<close> and
  \<open>free\<close>: the cached table has room for every cluster, the active copy on disk equals it, the count
  of free clusters is exact, and the operations write to table and FSInfo sectors only. A fault of
  the device in the middle of an update latches \<open>failed\<close>, after which no operation writes again.
\<close>

section \<open>Invariant\<close>

definition fat_need :: "Kind \<Rightarrow> nat \<Rightarrow> nat" where
  "fat_need k n = (case k of Fat12 \<Rightarrow> (n * 3 + 1) div 2 | Fat16 \<Rightarrow> n * 2 | Fat32 \<Rightarrow> n * 4)"

text \<open>The largest number of clusters of each kind.\<close>

definition fat_limit :: "Kind \<Rightarrow> nat" where
  "fat_limit k = (case k of Fat12 \<Rightarrow> 4084 | Fat16 \<Rightarrow> 65524 | Fat32 \<Rightarrow> 268435438)"

definition fat_shape :: "'z Volume_scheme \<Rightarrow> bool" where
  "fat_shape v \<longleftrightarrow>
     length (fat v) = SECTOR * unat (fat_sectors v)
   \<and> fat_need (kind v) (unat (clusters v) + 2) \<le> length (fat v)
   \<and> 1 \<le> unat (clusters v) \<and> unat (clusters v) \<le> fat_limit (kind v)
   \<and> unat (fats v) \<le> 2 \<and> unat (active v) < unat (fats v)
   \<and> 2 \<le> hint v \<and> hint v < clusters v + 2
   \<and> 1 \<le> unat (spc v) \<and> unat (spc v) \<le> 128"

definition fat_root_sectors :: "'z Volume_scheme \<Rightarrow> nat" where
  "fat_root_sectors v = (root_entries v * 32 + 511) div 512"

text \<open>FSInfo, table copies, fixed root and clusters follow each other and end inside the device.\<close>

definition fat_geom :: "fat_state \<Rightarrow> bool" where
  "fat_geom s \<longleftrightarrow>
     (\<forall>l\<in>set (fat_info_lbas s). l < fat_lba s)
   \<and> unat (fat_lba s) + unat (fats s) * unat (fat_sectors s) = unat (root_lba s)
   \<and> unat (root_lba s) + fat_root_sectors s = unat (data_lba s)
   \<and> unat (data_lba s) + unat (clusters s) * unat (spc s) \<le> unat (dk_capacity (blk s))"

definition ent :: "'z Volume_scheme \<Rightarrow> u32 \<Rightarrow> u32" where
  "ent v c = entry (kind v) (fat v) (unat c)"

definition fat_free_set :: "'z Volume_scheme \<Rightarrow> u32 set" where
  "fat_free_set v = {c. fat_valid v c \<and> ent v c = 0}"

text \<open>
  A copy of the table on disk equals the cached table. The invariant asks it of the copy that was
  read at mount time; a further mirrored copy that agreed at mount time keeps agreeing.
\<close>

definition copy_synced :: "fat_state \<Rightarrow> nat \<Rightarrow> bool" where
  "copy_synced s copy \<longleftrightarrow> (\<forall>i<unat (fat_sectors s).
     dk_data (blk s) (fat_copy_lba s copy i) = subrange (i * SECTOR) SECTOR (fat s))"

definition fat_synced :: "fat_state \<Rightarrow> bool" where
  "fat_synced s \<longleftrightarrow> copy_synced s (unat (active s))"

definition fat_ok :: "fat_state \<Rightarrow> bool" where
  "fat_ok s \<longleftrightarrow> fat_shape s \<and> fat_geom s \<and> disk_ok (blk s) \<and> (\<not> failed s \<longrightarrow> fat_synced s)"

definition fat_inv :: "fat_state \<Rightarrow> bool" where
  "fat_inv s \<longleftrightarrow> fat_ok s \<and> (\<not> failed s \<longrightarrow> unat (free_count s) = card (fat_free_set s))"

text \<open>What no operation changes.\<close>

definition geo where
  "geo v = (kind v, fat_lba v, fat_sectors v, fats v, active v, mirrored v, data_lba v, spc v,
     clusters v, root_lba v, root_entries v, root_cluster v, fsinfo v, backup_fsinfo v)"

definition same_geo :: "fat_state \<Rightarrow> fat_state \<Rightarrow> bool" where
  "same_geo s s' \<longleftrightarrow> geo s' = geo s \<and> dk_capacity (blk s') = dk_capacity (blk s)"

text \<open>The sectors of the table copies and of FSInfo; every other sector is left alone.\<close>

definition meta_lba :: "'z Volume_scheme \<Rightarrow> u64 set" where
  "meta_lba v = {l. unat (fat_lba v) \<le> unat l \<and> unat l < unat (root_lba v)} \<union> set (fat_info_lbas v)"

definition keeps_data :: "fat_state \<Rightarrow> fat_state \<Rightarrow> bool" where
  "keeps_data s s' \<longleftrightarrow> same_geo s s' \<and> (\<forall>l. l \<notin> meta_lba s \<longrightarrow> dk_data (blk s') l = dk_data (blk s) l)"

lemma same_geo_fields:
  assumes "same_geo s s'"
  shows "kind s' = kind s" "fat_lba s' = fat_lba s" "fat_sectors s' = fat_sectors s" "fats s' = fats s"
    "active s' = active s" "mirrored s' = mirrored s" "data_lba s' = data_lba s" "spc s' = spc s"
    "clusters s' = clusters s" "root_lba s' = root_lba s" "root_entries s' = root_entries s"
    "root_cluster s' = root_cluster s" "fsinfo s' = fsinfo s" "backup_fsinfo s' = backup_fsinfo s"
    "dk_capacity (blk s') = dk_capacity (blk s)"
  using assms by (simp_all add: same_geo_def geo_def)

lemma same_geo_defs:
  assumes "same_geo s s'"
  shows "fat_copies s' = fat_copies s" "fat_copy_lba s' = fat_copy_lba s" "fat_valid s' = fat_valid s"
    "fat_bytes s' = fat_bytes s" "fat_eof s' = fat_eof s" "fat_is_eof s' = fat_is_eof s"
    "fat_cluster_lba s' = fat_cluster_lba s" "fat_info_lbas s' = fat_info_lbas s" "meta_lba s' = meta_lba s"
    "fat_root_sectors s' = fat_root_sectors s" "fat_geom s' = fat_geom s"
  using same_geo_fields [OF assms]
  by (simp_all add: fat_copies_def fat_copy_lba_def fat_valid_def fat_bytes_def fat_eof_def fat_is_eof_def
      fat_cluster_lba_def fat_info_lbas_def meta_lba_def fat_root_sectors_def fat_geom_def fun_eq_iff)

lemma same_geo_refl [simp]: "same_geo s s"
  by (simp add: same_geo_def)

lemma same_geo_trans: "same_geo s s' \<Longrightarrow> same_geo s' s'' \<Longrightarrow> same_geo s s''"
  by (simp add: same_geo_def)

lemma keeps_data_refl [simp]: "keeps_data s s"
  by (simp add: keeps_data_def)

lemma keeps_data_trans: "keeps_data s s' \<Longrightarrow> keeps_data s' s'' \<Longrightarrow> keeps_data s s''"
  using same_geo_defs(9) [of s s'] by (auto simp: keeps_data_def intro: same_geo_trans)

lemma same_geo_upd [simp]:
  "dk_capacity d = dk_capacity (blk s) \<Longrightarrow> same_geo s (s\<lparr>blk := d\<rparr>)"
  "same_geo s (s\<lparr>fat := t\<rparr>)" "same_geo s (s\<lparr>failed := b\<rparr>)" "same_geo s (s\<lparr>hint := h\<rparr>)"
  "same_geo s (s\<lparr>free_count := c\<rparr>)" "same_geo s (s\<lparr>hints_invalid := b\<rparr>)"
  by (simp_all add: same_geo_def geo_def)

section \<open>Reading the table\<close>

lemma fat_limit_bound: "fat_limit k \<le> 268435438"
  by (simp add: fat_limit_def split: Kind.split)

lemma shape_clusters:
  assumes "fat_shape v"
  shows "unat (clusters v + 2) = unat (clusters v) + 2"
proof -
  have "unat (clusters v) \<le> 268435438" using assms fat_limit_bound [of "kind v"] by (simp add: fat_shape_def)
  then have "unat (clusters v) + unat (2 :: u32) < 2 ^ LENGTH(32)" by simp
  then show ?thesis by (subst unat_add_lem [THEN iffD1]) simp_all
qed

lemma fat_valid_iff:
  "fat_shape v \<Longrightarrow> fat_valid v c \<longleftrightarrow> 2 \<le> unat c \<and> unat c < unat (clusters v) + 2"
  by (simp add: fat_valid_def word_le_nat_alt word_less_nat_alt shape_clusters)

lemma entry_in_need:
  assumes "fat_need k n \<le> len" and "m < n"
  shows "entry_in k len m"
proof (cases k)
  case Fat12
  have "m + m div 2 + 2 \<le> (Suc m * 3 + 1) div 2" by (cases "even m") (auto elim!: evenE oddE)
  also have "\<dots> \<le> (n * 3 + 1) div 2" using assms(2) by (intro div_le_mono) simp
  finally show ?thesis using assms(1) Fat12 by (simp add: fat_need_def entry_in_def)
qed (use assms in \<open>simp_all add: fat_need_def entry_in_def\<close>)

lemma valid_entry_in:
  assumes "fat_shape v" and "fat_valid v c"
  shows "entry_in (kind v) (length (fat v)) (unat c)"
proof (rule entry_in_need)
  show "fat_need (kind v) (unat (clusters v) + 2) \<le> length (fat v)" using assms(1) by (simp add: fat_shape_def)
  show "unat c < unat (clusters v) + 2" using assms by (simp add: fat_valid_iff)
qed

lemma fat_get_in:
  "entry_in (kind v) (length (fat v)) (unat c) \<Longrightarrow> fat_valid v c \<Longrightarrow> fat_get v c = Some (Ok (ent v c))"
  by (cases "kind v") (simp_all add: fat_get_def ent_def entry_def entry_in_def u16le_def u32le_def Let_def)

lemma fat_get_valid: "fat_shape v \<Longrightarrow> fat_valid v c \<Longrightarrow> fat_get v c = Some (Ok (ent v c))"
  by (simp add: fat_get_in valid_entry_in)

lemma fat_get_invalid: "\<not> fat_valid v c \<Longrightarrow> fat_get v c = Some (Err ''invalid FAT cluster'')"
  by (simp add: fat_get_def)

lemma finite_fat_free_set [simp]: "finite (fat_free_set v)"
  by (rule finite_subset [of _ UNIV]) simp_all

section \<open>Writing sectors and table entries\<close>

lemma fat_write_sector_cases:
  assumes "\<not> failed s" and "length data = SECTOR" and "disk_ok (blk s)"
  obtains (Ok) d where "fat_write_sector lba data s = Some (Ok (), s\<lparr>blk := d\<rparr>)"
      "dk_data d = (dk_data (blk s))(lba := data)" "dk_capacity d = dk_capacity (blk s)" "disk_ok d"
      "reliable (blk s) \<Longrightarrow> reliable d"
    | (Err) d where "fat_write_sector lba data s = Some (Err ''disk write failed'', s\<lparr>blk := d, failed := True\<rparr>)"
      "\<And>l. l \<noteq> lba \<Longrightarrow> dk_data d l = dk_data (blk s) l" "dk_capacity d = dk_capacity (blk s)" "disk_ok d"
      "lba < dk_capacity (blk s) \<Longrightarrow> \<not> reliable (blk s)"
proof -
  obtain r d where w: "dk_write lba data (blk s) = (r, d)" by (cases "dk_write lba data (blk s)")
  note facts = dk_write_cases [OF w assms(2)]
  have run: "fat_write_sector lba data s =
    Some (if r then (Ok (), s\<lparr>blk := d\<rparr>) else (Err ''disk write failed'', s\<lparr>blk := d, failed := True\<rparr>))"
    using assms(1,2) w by (simp add: fat_write_sector_def fat_check_def)
  show ?thesis
  proof (cases r)
    case True
    have "reliable (blk s) \<Longrightarrow> reliable d"
      using dk_write_keeps_reliable [OF w] by simp
    with True run facts assms(3) show ?thesis by (intro Ok [of d]) simp_all
  next
    case False
    then have "lba < dk_capacity (blk s) \<Longrightarrow> \<not> reliable (blk s)"
      using dk_write_reliable [of "blk s" lba data] w by auto
    with False run facts assms(3) show ?thesis by (intro Err [of d]) simp_all
  qed
qed

lemma fat_write_sector_failed: "failed s \<Longrightarrow> fat_write_sector lba data s =
    Some (Err ''filesystem stopped after a disk write failure; remount required'', s)"
  by (simp add: fat_write_sector_def fat_check_def)

lemma fat_copy_lba_unat:
  assumes "fat_geom s" and "copy < unat (fats s)" and "i < unat (fat_sectors s)"
  shows "unat (fat_copy_lba s copy i) = unat (fat_lba s) + copy * unat (fat_sectors s) + i"
proof -
  have "copy * unat (fat_sectors s) + i < unat (fats s) * unat (fat_sectors s)"
    using mult_le_mono1 [of "Suc copy" "unat (fats s)" "unat (fat_sectors s)"] assms(2,3) by simp
  moreover have "unat (fat_lba s) + unat (fats s) * unat (fat_sectors s) < 2 ^ 64"
    using assms(1) unat_lt_u64 [of "root_lba s"] by (simp add: fat_geom_def)
  ultimately have "unat (fat_lba s) + copy * unat (fat_sectors s) + i < 2 ^ LENGTH(64)" by simp
  moreover have "fat_copy_lba s copy i = of_nat (unat (fat_lba s) + copy * unat (fat_sectors s) + i)"
    by (simp add: fat_copy_lba_def)
  ultimately show ?thesis by (simp only: unat_of_nat_small)
qed

lemma fat_copies_less: "copy \<in> set (fat_copies s) \<Longrightarrow> copy < unat (fats s)"
  by (simp add: fat_copies_def)

lemma fat_copy_lba_inj:
  assumes "fat_geom s" and "copy < unat (fats s)" "i < unat (fat_sectors s)"
    and "copy' < unat (fats s)" "i' < unat (fat_sectors s)"
    and "fat_copy_lba s copy i = fat_copy_lba s copy' i'"
  shows "copy = copy' \<and> i = i'"
proof -
  define n where "n = unat (fat_sectors s)"
  have eq: "copy * n + i = copy' * n + i'"
    using fat_copy_lba_unat [OF assms(1-3)] fat_copy_lba_unat [OF assms(1,4,5)] assms(6) by (simp add: n_def)
  have "(copy * n + i) div n = copy" "(copy' * n + i') div n = copy'" using assms(3,5) by (simp_all add: n_def)
  with eq have "copy = copy'" by simp
  with eq show ?thesis by simp
qed

lemma fat_copy_lba_meta:
  assumes "fat_geom s" and "copy < unat (fats s)" and "i < unat (fat_sectors s)"
  shows "fat_copy_lba s copy i \<in> meta_lba s"
proof -
  have "copy * unat (fat_sectors s) + i < unat (fats s) * unat (fat_sectors s)"
    using mult_le_mono1 [of "Suc copy" "unat (fats s)" "unat (fat_sectors s)"] assms(2,3) by simp
  then show ?thesis
    using fat_copy_lba_unat [OF assms] assms(1) by (simp add: meta_lba_def fat_geom_def)
qed

lemma meta_capacity:
  assumes "fat_geom s" and "l \<in> meta_lba s"
  shows "l < dk_capacity (blk s)"
proof -
  have "unat l < unat (root_lba s)"
    using assms by (auto simp: meta_lba_def fat_geom_def word_less_nat_alt)
  then show ?thesis using assms(1) by (simp add: fat_geom_def word_less_nat_alt)
qed

text \<open>
  The write-back loop of \<open>set\<close>: from table \<open>t\<close> in state \<open>s\<close>, the sectors in \<open>done\<close> hold the new
  contents and every other one its old contents.
\<close>

definition flushed :: "fat_state \<Rightarrow> bytes \<Rightarrow> (nat \<times> nat) set \<Rightarrow> fat_state \<Rightarrow> bool" where
  "flushed s t W s' \<longleftrightarrow> (\<exists>d. s' = s\<lparr>fat := t, blk := d\<rparr> \<and> \<not> failed s \<and> disk_ok d \<and>
     dk_capacity d = dk_capacity (blk s) \<and> (reliable (blk s) \<longrightarrow> reliable d) \<and>
     (\<forall>l. l \<notin> meta_lba s \<longrightarrow> dk_data d l = dk_data (blk s) l) \<and>
     (\<forall>copy<unat (fats s). \<forall>i<unat (fat_sectors s). dk_data d (fat_copy_lba s copy i) =
        (if (copy, i) \<in> W then subrange (i * SECTOR) SECTOR t else dk_data (blk s) (fat_copy_lba s copy i))))"

text \<open>After a fault in the loop the volume is latched.\<close>

definition broken :: "fat_state \<Rightarrow> fat_state \<Rightarrow> bool" where
  "broken s s' \<longleftrightarrow> failed s' \<and> \<not> reliable (blk s) \<and> keeps_data s s' \<and> disk_ok (blk s') \<and> fat_shape s' \<and> fat_geom s'"

lemma fat_flush_triple:
  assumes "fat_geom s" and "fat_shape s" and "length t = length (fat s)"
    and "copy < unat (fats s)" and "i < unat (fat_sectors s)"
  shows "triple (flushed s t W) (fat_flush copy i) (\<lambda>_. flushed s t (insert (copy, i) W)) (\<lambda>_. broken s)"
proof (rule tripleI)
  fix s'
  assume "flushed s t W s'"
  then obtain d where s': "s' = s\<lparr>fat := t, blk := d\<rparr>" and nf: "\<not> failed s" and dok: "disk_ok d"
    and cap: "dk_capacity d = dk_capacity (blk s)" and rel: "reliable (blk s) \<Longrightarrow> reliable d"
    and out: "\<And>l. l \<notin> meta_lba s \<Longrightarrow> dk_data d l = dk_data (blk s) l"
    and sec: "\<And>copy i. copy < unat (fats s) \<Longrightarrow> i < unat (fat_sectors s) \<Longrightarrow> dk_data d (fat_copy_lba s copy i) =
        (if (copy, i) \<in> W then subrange (i * SECTOR) SECTOR t else dk_data (blk s) (fat_copy_lba s copy i))"
    unfolding flushed_def by blast
  define lba where "lba = fat_copy_lba s copy i"
  define data where "data = subrange (i * SECTOR) SECTOR t"
  have len: "length t = SECTOR * unat (fat_sectors s)" using assms(2,3) by (simp add: fat_shape_def)
  have fits: "(i + 1) * SECTOR \<le> length t" using len assms(5) by simp
  have ld: "length data = SECTOR" using fits by (simp add: data_def)
  have geo: "same_geo s s'" using cap by (simp add: s' same_geo_def geo_def)
  have run: "fat_flush copy i s' = fat_write_sector lba data s'"
    using fits same_geo_defs(2) [OF geo] by (simp add: fat_flush_def s' lba_def data_def)
  have lm: "lba \<in> meta_lba s" unfolding lba_def by (rule fat_copy_lba_meta) (fact assms)+
  have lc: "lba < dk_capacity (blk s)" by (rule meta_capacity) (fact assms lm)+
  have nf': "\<not> failed s'" and dok': "disk_ok (blk s')" using nf dok by (simp_all add: s')
  show "(\<exists>a s''. fat_flush copy i s' = Some (Ok a, s'') \<and> flushed s t (insert (copy, i) W) s'') \<or>
      (\<exists>e s''. fat_flush copy i s' = Some (Err e, s'') \<and> broken s s'')"
    using nf' ld dok'
  proof (cases rule: fat_write_sector_cases [where lba = lba])
    case (Ok e)
    have eq: "s'\<lparr>blk := e\<rparr> = s\<lparr>fat := t, blk := e\<rparr>" by (simp add: s')
    have "flushed s t (insert (copy, i) W) (s'\<lparr>blk := e\<rparr>)"
      unfolding flushed_def
    proof (intro exI conjI allI impI)
      show "s'\<lparr>blk := e\<rparr> = s\<lparr>fat := t, blk := e\<rparr>" by (rule eq)
      show "\<not> failed s" "disk_ok e" "dk_capacity e = dk_capacity (blk s)" using nf Ok cap by (simp_all add: s')
      show "reliable e" if "reliable (blk s)" using Ok(5) rel that by (simp add: s')
      show "dk_data e l = dk_data (blk s) l" if "l \<notin> meta_lba s" for l
        using Ok(2) out [OF that] lm that by (auto simp: s')
      fix copy' i'
      assume c': "copy' < unat (fats s)" and i': "i' < unat (fat_sectors s)"
      show "dk_data e (fat_copy_lba s copy' i') = (if (copy', i') \<in> insert (copy, i) W
          then subrange (i' * SECTOR) SECTOR t else dk_data (blk s) (fat_copy_lba s copy' i'))"
      proof (cases "(copy', i') = (copy, i)")
        case True
        then show ?thesis using Ok(2) by (simp add: lba_def data_def)
      next
        case False
        then have "fat_copy_lba s copy' i' \<noteq> lba"
          using fat_copy_lba_inj [OF assms(1) c' i' assms(4,5)] by (auto simp: lba_def)
        then have "dk_data e (fat_copy_lba s copy' i') = dk_data d (fat_copy_lba s copy' i')"
          using Ok(2) by (simp add: s')
        with sec [OF c' i'] False show ?thesis by auto
      qed
    qed
    with Ok(1) show ?thesis unfolding run by blast
  next
    case (Err e)
    define u where "u = s'\<lparr>blk := e, failed := True\<rparr>"
    have g: "same_geo s u" using cap Err(3) by (simp add: u_def s' same_geo_def geo_def)
    have "dk_data e l = dk_data (blk s) l" if "l \<notin> meta_lba s" for l
    proof -
      have "l \<noteq> lba" using lm that by auto
      from Err(2) [OF this] out [OF that] show ?thesis by (simp add: s')
    qed
    with g have "keeps_data s u" by (simp add: keeps_data_def u_def)
    moreover have "fat_shape u" using assms(2,3) by (simp add: u_def s' fat_shape_def)
    moreover have "fat_geom u" using same_geo_defs(11) [OF g] assms(1) by simp
    moreover have "\<not> reliable (blk s)" using Err(5) lc rel cap by (auto simp: s')
    ultimately have "broken s u" using Err(4) by (simp add: broken_def u_def)
    with Err(1) show ?thesis unfolding u_def run by blast
  qed
qed

definition entry_updated :: "fat_state \<Rightarrow> u32 \<Rightarrow> u32 \<Rightarrow> fat_state \<Rightarrow> bool" where
  "entry_updated s c val s' \<longleftrightarrow> (\<exists>t d. s' = s\<lparr>fat := t, blk := d\<rparr> \<and> puts (kind s) (fat s) (unat c) val t \<and>
     (\<forall>copy\<in>set (fat_copies s). copy_synced s copy \<longrightarrow> copy_synced s' copy) \<and>
     keeps_data s s' \<and> disk_ok d \<and> (reliable (blk s) \<longrightarrow> reliable d))"

lemma active_copy: "fat_shape s \<Longrightarrow> unat (active s) \<in> set (fat_copies s)"
  by (simp add: fat_copies_def fat_shape_def)

lemma entry_updated_synced:
  assumes "entry_updated s c val s'" and "fat_shape s" and "fat_synced s"
  shows "fat_synced s'"
proof -
  have "active s' = active s" using assms(1) by (auto simp: entry_updated_def)
  then show ?thesis using assms active_copy [OF assms(2)] by (auto simp: entry_updated_def fat_synced_def)
qed

lemma flush_all_triple:
  assumes "fat_geom s" and "fat_shape s" and "length t = length (fat s)"
    and "\<forall>copy\<in>set copies. copy < unat (fats s)" and "\<forall>i\<in>set idxs. i < unat (fat_sectors s)"
  shows "triple (flushed s t {}) (for_each (\<lambda>copy. for_each (fat_flush copy) idxs) copies)
    (\<lambda>_. flushed s t (set copies \<times> set idxs)) (\<lambda>_. broken s)"
proof -
  have inner: "triple (flushed s t W) (for_each (fat_flush copy) idxs)
      (\<lambda>_. flushed s t (W \<union> {copy} \<times> set idxs)) (\<lambda>_. broken s)" if "copy < unat (fats s)" for W copy
  proof -
    have "triple (flushed s t (W \<union> {copy} \<times> set [])) (for_each (fat_flush copy) idxs)
      (\<lambda>_. flushed s t (W \<union> {copy} \<times> set idxs)) (\<lambda>_. broken s)"
    proof (rule triple_for_each)
      fix ys x zs
      assume "idxs = ys @ x # zs"
      then have "x < unat (fat_sectors s)" using assms(5) by simp
      moreover have "insert (copy, x) (W \<union> {copy} \<times> set ys) = W \<union> {copy} \<times> set (ys @ [x])" by auto
      ultimately show "triple (flushed s t (W \<union> {copy} \<times> set ys)) (fat_flush copy x)
          (\<lambda>_. flushed s t (W \<union> {copy} \<times> set (ys @ [x]))) (\<lambda>_. broken s)"
        using fat_flush_triple [OF assms(1-3) that, of x "W \<union> {copy} \<times> set ys"] by simp
    qed
    then show ?thesis by simp
  qed
  have "triple (flushed s t (set [] \<times> set idxs)) (for_each (\<lambda>copy. for_each (fat_flush copy) idxs) copies)
    (\<lambda>_. flushed s t (set copies \<times> set idxs)) (\<lambda>_. broken s)"
  proof (rule triple_for_each)
    fix ys x zs
    assume "copies = ys @ x # zs"
    then have "x < unat (fats s)" using assms(4) by simp
    moreover have "set ys \<times> set idxs \<union> {x} \<times> set idxs = set (ys @ [x]) \<times> set idxs" by auto
    ultimately show "triple (flushed s t (set ys \<times> set idxs)) (for_each (fat_flush x) idxs)
        (\<lambda>_. flushed s t (set (ys @ [x]) \<times> set idxs)) (\<lambda>_. broken s)"
      using inner [of x "set ys \<times> set idxs"] by simp
  qed
  then show ?thesis by simp
qed

lemma subrange_eqI:
  assumes "length t = length t'" and "off + n \<le> length t" and "\<And>j. off \<le> j \<Longrightarrow> j < off + n \<Longrightarrow> t ! j = t' ! j"
  shows "subrange off n t = subrange off n t'"
  using assms by (intro nth_equalityI) simp_all

lemma fat_set_triple:
  assumes "fat_ok s" and "\<not> failed s" and "fat_valid s c"
  shows "triple ((=) s) (fat_set c val) (\<lambda>_. entry_updated s c val) (\<lambda>_. broken s)"
proof (rule tripleI)
  fix s0
  assume "s = s0"
  have shape: "fat_shape s" and geom: "fat_geom s" and dok: "disk_ok (blk s)"
    using assms(1,2) by (simp_all add: fat_ok_def)
  have flen: "length (fat s) = SECTOR * unat (fat_sectors s)" using shape by (simp add: fat_shape_def)
  obtain t off len where put: "fat_put (kind s) (fat s) (unat c) val = Some (t, off, len)"
    and puts: "puts (kind s) (fat s) (unat c) val t" and pos: "0 < len" and fits: "off + len \<le> length (fat s)"
    and rest: "\<And>j. j < length (fat s) \<Longrightarrow> j < off \<or> off + len \<le> j \<Longrightarrow> t ! j = fat s ! j"
    by (rule fat_put_Some [OF valid_entry_in [OF shape assms(3)], of val]) (rule that; assumption)
  have tlen: "length t = length (fat s)" using puts by (simp add: puts_def)
  define idxs where "idxs = [off div SECTOR..<Suc ((off + len - 1) div SECTOR)]"
  have copies: "\<forall>copy\<in>set (fat_copies s). copy < unat (fats s)" by (simp add: fat_copies_less)
  have "(off + len - 1) div SECTOR < unat (fat_sectors s)"
    using fits pos flen by (intro less_mult_imp_div_less) simp
  then have idx: "\<forall>i\<in>set idxs. i < unat (fat_sectors s)" by (auto simp: idxs_def)
  have start: "flushed s t {} (s\<lparr>fat := t\<rparr>)"
    unfolding flushed_def using assms(2) dok by (intro exI [of _ "blk s"]) simp
  have run: "fat_set c val s =
      for_each (\<lambda>copy. for_each (fat_flush copy) idxs) (fat_copies s) (s\<lparr>fat := t\<rparr>)"
    using assms(2,3) put same_geo_defs(1) [OF same_geo_upd(2) [of s t]]
    by (simp add: fat_set_def fat_check_def idxs_def)
  show "(\<exists>a s'. fat_set c val s0 = Some (Ok a, s') \<and> entry_updated s c val s') \<or>
      (\<exists>e s'. fat_set c val s0 = Some (Err e, s') \<and> broken s s')"
    using flush_all_triple [OF geom shape tlen copies idx] start
  proof (cases rule: tripleE)
    case (Err e s')
    then show ?thesis using run \<open>s = s0\<close> by auto
  next
    case (Ok a s')
    from Ok(2) obtain d where s': "s' = s\<lparr>fat := t, blk := d\<rparr>" and dok': "disk_ok d"
      and cap: "dk_capacity d = dk_capacity (blk s)" and rel: "reliable (blk s) \<longrightarrow> reliable d"
      and out: "\<forall>l. l \<notin> meta_lba s \<longrightarrow> dk_data d l = dk_data (blk s) l"
      and sec: "\<And>copy i. copy < unat (fats s) \<Longrightarrow> i < unat (fat_sectors s) \<Longrightarrow> dk_data d (fat_copy_lba s copy i) =
        (if (copy, i) \<in> set (fat_copies s) \<times> set idxs then subrange (i * SECTOR) SECTOR t
         else dk_data (blk s) (fat_copy_lba s copy i))"
      unfolding flushed_def by blast
    have geo: "same_geo s s'" using cap by (simp add: s' same_geo_def geo_def)
    have "\<forall>copy\<in>set (fat_copies s). copy_synced s copy \<longrightarrow> copy_synced s' copy"
      unfolding copy_synced_def [of s'] same_geo_defs(1,2) [OF geo] same_geo_fields(3) [OF geo]
    proof (intro ballI allI impI)
      fix copy i
      assume copy: "copy \<in> set (fat_copies s)" and sync: "copy_synced s copy" and i: "i < unat (fat_sectors s)"
      show "dk_data (blk s') (fat_copy_lba s copy i) = subrange (i * SECTOR) SECTOR (fat s')"
      proof (cases "i \<in> set idxs")
        case True
        then show ?thesis using sec [OF fat_copies_less [OF copy] i] copy by (simp add: s')
      next
        case False
        have "subrange (i * SECTOR) SECTOR t = subrange (i * SECTOR) SECTOR (fat s)"
        proof (rule subrange_eqI [OF tlen])
          show "i * SECTOR + SECTOR \<le> length t" using i tlen flen by simp
          fix j
          assume j: "i * SECTOR \<le> j" "j < i * SECTOR + SECTOR"
          then have ji: "j div SECTOR = i" by (simp add: div_nat_eqI mult.commute)
          have "j < off \<or> off + len \<le> j"
          proof (rule ccontr)
            assume "\<not> (j < off \<or> off + len \<le> j)"
            then have "off \<le> j" "j \<le> off + len - 1" by auto
            then have "off div SECTOR \<le> j div SECTOR" "j div SECTOR \<le> (off + len - 1) div SECTOR"
              using div_le_mono by blast+
            with False ji show False by (simp add: idxs_def)
          qed
          moreover have "j < length (fat s)" using j i flen by simp
          ultimately show "t ! j = fat s ! j" using rest by blast
        qed
        moreover have "dk_data (blk s) (fat_copy_lba s copy i) = subrange (i * SECTOR) SECTOR (fat s)"
          using sync i by (simp add: copy_synced_def)
        ultimately show ?thesis using sec [OF fat_copies_less [OF copy] i] False by (simp add: s')
      qed
    qed
    moreover have "keeps_data s s'" using geo out by (simp add: keeps_data_def s')
    ultimately have "entry_updated s c val s'" unfolding entry_updated_def using s' puts dok' rel by blast
    then show ?thesis using Ok(1) run \<open>s = s0\<close> by auto
  qed
qed

lemma entry_updated_ents:
  assumes "entry_updated s c val s'" and "fat_shape s" and "fat_valid s c"
  shows "ent s' c = take_bit (fat_width (kind s)) val"
    and "\<And>c'. fat_valid s c' \<Longrightarrow> c' \<noteq> c \<Longrightarrow> ent s' c' = ent s c'"
proof -
  from assms(1) obtain t d where s': "s' = s\<lparr>fat := t, blk := d\<rparr>" and puts: "puts (kind s) (fat s) (unat c) val t"
    by (auto simp: entry_updated_def)
  show "ent s' c = take_bit (fat_width (kind s)) val"
    using entry_puts_same [OF puts valid_entry_in [OF assms(2,3)]] by (simp add: ent_def s')
  show "ent s' c' = ent s c'" if "fat_valid s c'" "c' \<noteq> c" for c'
  proof -
    have "unat c' \<noteq> unat c" using that(2) by (simp add: word_unat_eq_iff)
    then show ?thesis
      using entry_puts_other [OF puts valid_entry_in [OF assms(2) that(1)]] by (simp add: ent_def s')
  qed
qed

section \<open>Sequences of updates\<close>

text \<open>
  From \<open>s\<close> to \<open>s'\<close> the entries in \<open>m\<close> were set, the others kept, and nothing but table and FSInfo
  sectors was written.
\<close>

definition tab_step :: "fat_state \<Rightarrow> (u32 \<rightharpoonup> u32) \<Rightarrow> fat_state \<Rightarrow> bool" where
  "tab_step s m s' \<longleftrightarrow> keeps_data s s' \<and> fat_ok s' \<and> \<not> failed s' \<and>
     (\<forall>c. fat_valid s c \<longrightarrow> ent s' c = (case m c of None \<Rightarrow> ent s c | Some x \<Rightarrow> x)) \<and>
     hint s' = hint s \<and> free_count s' = free_count s \<and> (reliable (blk s) \<longrightarrow> reliable (blk s'))"

lemma tab_step_refl: "fat_ok s \<Longrightarrow> \<not> failed s \<Longrightarrow> tab_step s Map.empty s"
  by (simp add: tab_step_def)

lemma broken_trans:
  assumes "keeps_data s s'" and "reliable (blk s) \<longrightarrow> reliable (blk s')" and "broken s' s''"
  shows "broken s s''"
  using assms keeps_data_trans [OF assms(1)] by (auto simp: broken_def)

lemma tab_step_set:
  assumes "fat_valid s c" and "take_bit (fat_width (kind s)) val = val"
  shows "triple (tab_step s m) (fat_set c val) (\<lambda>_. tab_step s (m(c \<mapsto> val))) (\<lambda>_. broken s)"
proof (rule tripleI)
  fix s'
  assume step: "tab_step s m s'"
  then have keeps: "keeps_data s s'" and ok: "fat_ok s'" and nf: "\<not> failed s'"
    and rel: "reliable (blk s) \<longrightarrow> reliable (blk s')" by (simp_all add: tab_step_def)
  have geo: "same_geo s s'" using keeps by (simp add: keeps_data_def)
  have valid: "fat_valid s' c" using assms(1) by (simp add: same_geo_defs(3) [OF geo])
  have shape: "fat_shape s'" and geom: "fat_geom s'" using ok by (simp_all add: fat_ok_def)
  show "(\<exists>a s''. fat_set c val s' = Some (Ok a, s'') \<and> tab_step s (m(c \<mapsto> val)) s'') \<or>
      (\<exists>e s''. fat_set c val s' = Some (Err e, s'') \<and> broken s s'')"
    using fat_set_triple [OF ok nf valid, of val] refl [of s']
  proof (cases rule: tripleE)
    case (Err e s'')
    then show ?thesis using broken_trans [OF keeps rel] by blast
  next
    case (Ok a s'')
    from Ok(2) obtain t d where s'': "s'' = s'\<lparr>fat := t, blk := d\<rparr>"
      and puts: "puts (kind s') (fat s') (unat c) val t"
      and keeps': "keeps_data s' s''" and dok: "disk_ok d" and rel': "reliable (blk s') \<longrightarrow> reliable d"
      by (auto simp: entry_updated_def)
    have sync: "fat_synced s''" using entry_updated_synced [OF Ok(2) shape] ok nf by (simp add: fat_ok_def)
    have geo': "same_geo s' s''" using keeps' by (simp add: keeps_data_def)
    have "fat_shape s''" using shape puts by (simp add: s'' fat_shape_def puts_def)
    then have ok': "fat_ok s''"
      using same_geo_defs(11) [OF geo'] geom sync dok by (simp add: fat_ok_def s'')
    have ents: "ent s'' c' = (case (m(c \<mapsto> val)) c' of None \<Rightarrow> ent s c' | Some x \<Rightarrow> x)" if "fat_valid s c'" for c'
    proof (cases "c' = c")
      case True
      then show ?thesis
        using entry_updated_ents(1) [OF Ok(2) shape valid] assms(2) same_geo_fields(1) [OF geo] by simp
    next
      case False
      have "fat_valid s' c'" using that by (simp add: same_geo_defs(3) [OF geo])
      then show ?thesis
        using entry_updated_ents(2) [OF Ok(2) shape valid _ False] step that False by (simp add: tab_step_def)
    qed
    have "tab_step s (m(c \<mapsto> val)) s''"
      unfolding tab_step_def using keeps_data_trans [OF keeps keeps'] ok' nf ents step rel rel'
      by (simp add: tab_step_def s'')
    then show ?thesis using Ok(1) by blast
  qed
qed

text \<open>FSInfo sectors lie before the table, so rewriting one leaves the copies in place.\<close>

lemma tab_step_info:
  assumes "tab_step s m s'" and "lba \<in> set (fat_info_lbas s)" and "length data = SECTOR"
  shows "(\<exists>s''. fat_write_sector lba data s' = Some (Ok (), s'') \<and> tab_step s m s'') \<or>
    (\<exists>e s''. fat_write_sector lba data s' = Some (Err e, s'') \<and> broken s s'')"
proof -
  have keeps: "keeps_data s s'" and ok: "fat_ok s'" and nf: "\<not> failed s'"
    and rel: "reliable (blk s) \<longrightarrow> reliable (blk s')" using assms(1) by (simp_all add: tab_step_def)
  have geo: "same_geo s s'" using keeps by (simp add: keeps_data_def)
  have shape: "fat_shape s'" and geom: "fat_geom s'" and dok: "disk_ok (blk s')" and sync: "fat_synced s'"
    using ok nf by (simp_all add: fat_ok_def)
  have lba: "lba \<in> set (fat_info_lbas s')" using assms(2) by (simp add: same_geo_defs(8) [OF geo])
  then have lm: "lba \<in> meta_lba s'" by (simp add: meta_lba_def)
  have low: "lba < fat_lba s'" using lba geom by (simp add: fat_geom_def)
  show ?thesis
    using nf assms(3) dok
  proof (cases rule: fat_write_sector_cases [where lba = lba])
    case (Ok d)
    define u where "u = s'\<lparr>blk := d\<rparr>"
    have geo': "same_geo s' u" using Ok(3) by (simp add: u_def)
    have keeps': "keeps_data s' u" using geo' Ok(2) lm by (auto simp: keeps_data_def u_def)
    have "fat_synced u"
      unfolding fat_synced_def copy_synced_def same_geo_defs(1,2) [OF geo'] same_geo_fields(3,5) [OF geo']
    proof (intro allI impI)
      fix i
      assume i: "i < unat (fat_sectors s')"
      have "fat_copy_lba s' (unat (active s')) i \<noteq> lba"
        using fat_copy_lba_unat [OF geom fat_copies_less [OF active_copy [OF shape]] i] low by (auto simp: word_less_nat_alt)
      then show "dk_data (blk u) (fat_copy_lba s' (unat (active s')) i) = subrange (i * SECTOR) SECTOR (fat u)"
        using sync i Ok(2) by (simp add: u_def fat_synced_def copy_synced_def)
    qed
    then have "fat_ok u" using shape same_geo_defs(11) [OF geo'] geom Ok(4)
      by (simp add: fat_ok_def) (simp add: u_def fat_shape_def)
    moreover have "\<And>c. ent u c = ent s' c" by (simp add: ent_def u_def)
    ultimately have "tab_step s m u"
      using assms(1) keeps_data_trans [OF keeps keeps'] rel Ok(5) by (simp add: tab_step_def u_def)
    then show ?thesis using Ok(1) unfolding u_def by blast
  next
    case (Err d)
    define u where "u = s'\<lparr>blk := d, failed := True\<rparr>"
    have geo': "same_geo s' u" using Err(3) by (simp add: u_def same_geo_def geo_def)
    have out: "dk_data d l = dk_data (blk s') l" if "l \<notin> meta_lba s'" for l
      by (rule Err(2)) (use that lm in auto)
    then have "keeps_data s' u" using geo' by (simp add: keeps_data_def u_def)
    moreover have "fat_shape u" using shape by (simp add: u_def fat_shape_def)
    moreover have "fat_geom u" using same_geo_defs(11) [OF geo'] geom by simp
    moreover have "\<not> reliable (blk s')" using Err(5) meta_capacity [OF geom lm] by blast
    ultimately have "broken s' u" using Err(4) by (simp add: broken_def u_def)
    then show ?thesis using Err(1) broken_trans [OF keeps rel] unfolding u_def by blast
  qed
qed

lemma tab_step_blk:
  assumes "tab_step s m s'" and "same_data (blk s') d"
  shows "tab_step s m (s'\<lparr>blk := d\<rparr>)"
proof -
  define u where "u = s'\<lparr>blk := d\<rparr>"
  have data: "dk_data d = dk_data (blk s')" "dk_capacity d = dk_capacity (blk s')"
    and dok: "disk_ok (blk s') \<longrightarrow> disk_ok d" and rel: "reliable (blk s') \<longrightarrow> reliable d"
    using assms(2) by (simp_all add: same_data_def)
  have geo: "same_geo s' u" using data by (simp add: u_def)
  have "keeps_data s' u" using geo data by (simp add: keeps_data_def u_def)
  then have keeps: "keeps_data s u" using assms(1) keeps_data_trans by (auto simp: tab_step_def)
  have "fat_synced u \<longleftrightarrow> fat_synced s'"
    using data by (simp add: fat_synced_def copy_synced_def same_geo_defs(1,2) [OF geo]) (simp add: u_def)
  moreover have "fat_shape u \<longleftrightarrow> fat_shape s'" by (simp add: u_def fat_shape_def)
  ultimately have "fat_ok u"
    using assms(1) dok same_geo_defs(11) [OF geo] by (simp add: tab_step_def fat_ok_def) (simp add: u_def)
  moreover have "\<And>c. ent u c = ent s' c" by (simp add: ent_def u_def)
  ultimately have "tab_step s m u" using assms(1) keeps rel by (simp add: tab_step_def u_def)
  then show ?thesis by (simp add: u_def)
qed

text \<open>A fault while the hints are rewritten: before the write nothing has changed.\<close>

definition tab_fault :: "fat_state \<Rightarrow> (u32 \<rightharpoonup> u32) \<Rightarrow> fat_state \<Rightarrow> bool" where
  "tab_fault s m s' \<longleftrightarrow> \<not> reliable (blk s) \<and> (tab_step s m s' \<or> broken s s')"

lemma broken_fault: "broken s s' \<Longrightarrow> tab_fault s m s'"
  by (simp add: tab_fault_def broken_def)

lemma read_info_triple:
  assumes "lba \<in> set (fat_info_lbas s)"
  shows "triple (tab_step s m) (on_blk (fat_sector lba)) (\<lambda>data s'. length data = SECTOR \<and> tab_step s m s')
    (\<lambda>_. tab_fault s m)"
proof (rule tripleI)
  fix s'
  assume step: "tab_step s m s'"
  then have geo: "same_geo s s'" and geom: "fat_geom s'" and dok: "disk_ok (blk s')"
    and rel: "reliable (blk s) \<longrightarrow> reliable (blk s')" by (simp_all add: tab_step_def keeps_data_def fat_ok_def)
  have "lba \<in> meta_lba s'" using assms by (simp add: meta_lba_def same_geo_defs(8) [OF geo])
  then have cap: "lba < dk_capacity (blk s')" by (rule meta_capacity [OF geom])
  show "(\<exists>a s''. on_blk (fat_sector lba) s' = Some (Ok a, s'') \<and> length a = SECTOR \<and> tab_step s m s'') \<or>
      (\<exists>e s''. on_blk (fat_sector lba) s' = Some (Err e, s'') \<and> tab_fault s m s'')"
  proof (cases rule: rd_or_cases [of "''disk read failed''" lba "blk s'"])
    case (Ok d)
    then show ?thesis
      using tab_step_blk [OF step Ok(2)] dok by (auto simp: on_blk_def fat_sector_def disk_ok_def)
  next
    case (Err d)
    then show ?thesis
      using tab_step_blk [OF step Err(2)] cap rel by (auto simp: on_blk_def fat_sector_def tab_fault_def)
  qed
qed

lemma write_info_triple:
  assumes "lba \<in> set (fat_info_lbas s)" and "length data = SECTOR"
  shows "triple (tab_step s m) (fat_write_sector lba data) (\<lambda>_. tab_step s m) (\<lambda>_. tab_fault s m)"
  by (rule tripleI) (use tab_step_info [OF _ assms] broken_fault in blast)

lemma tab_step_flag: "tab_step s m s' \<Longrightarrow> tab_step s m (s'\<lparr>hints_invalid := b\<rparr>)"
proof -
  assume step: "tab_step s m s'"
  define u where "u = s'\<lparr>hints_invalid := b\<rparr>"
  have geo: "same_geo s' u" by (simp add: u_def)
  have "keeps_data s u" using step keeps_data_trans [of s s' u] geo by (simp add: tab_step_def keeps_data_def u_def)
  moreover have "fat_synced u \<longleftrightarrow> fat_synced s'"
    by (simp add: fat_synced_def copy_synced_def same_geo_defs(1,2) [OF geo]) (simp add: u_def)
  moreover have "fat_shape u \<longleftrightarrow> fat_shape s'" by (simp add: u_def fat_shape_def)
  moreover have "\<And>c. ent u c = ent s' c" by (simp add: ent_def u_def)
  ultimately have "tab_step s m u"
    using step same_geo_defs(11) [OF geo] by (simp add: tab_step_def fat_ok_def) (simp add: u_def)
  then show ?thesis by (simp add: u_def)
qed

lemma invalidate_hints_triple:
  "triple (tab_step s m) fat_invalidate_hints (\<lambda>_. tab_step s m) (\<lambda>_. tab_fault s m)"
proof -
  have body: "triple (tab_step s m)
      (andThen (on_blk (fat_sector lba)) (\<lambda>data.
          if fsinfo_signed data then fat_write_sector lba (put_at 488 (replicate 8 0xff) data)
          else ret ())) (\<lambda>_. tab_step s m) (\<lambda>_. tab_fault s m)" if "lba \<in> set (fat_info_lbas s)" for lba
  proof (rule triple_andThen [OF read_info_triple [OF that]])
    fix data
    show "triple (\<lambda>s'. length data = SECTOR \<and> tab_step s m s')
        (if fsinfo_signed data then fat_write_sector lba (put_at 488 (replicate 8 0xff) data) else ret ())
        (\<lambda>_. tab_step s m) (\<lambda>_. tab_fault s m)"
    proof (cases "length data = SECTOR")
      case True
      then have "length (put_at 488 (replicate 8 (0xff :: u8)) data) = SECTOR" by simp
      from write_info_triple [OF that this, of m] True show ?thesis
        by (auto intro: triple_ret triple_weaken)
    next
      case False
      then show ?thesis by (intro tripleI) simp
    qed
  qed
  show ?thesis
  proof (rule tripleI)
    fix s'
    assume step: "tab_step s m s'"
    then have lbas: "fat_info_lbas s' = fat_info_lbas s"
      by (intro same_geo_defs(8)) (simp add: tab_step_def keeps_data_def)
    show "(\<exists>a s''. fat_invalidate_hints s' = Some (Ok a, s'') \<and> tab_step s m s'') \<or>
        (\<exists>e s''. fat_invalidate_hints s' = Some (Err e, s'') \<and> tab_fault s m s'')"
    proof (cases "hints_invalid s'")
      case True
      then show ?thesis using step by (simp add: fat_invalidate_hints_def)
    next
      case False
      show ?thesis
        using triple_for_each_inv [OF body] step
        by (cases rule: tripleE) (use False lbas tab_step_flag in \<open>auto simp: fat_invalidate_hints_def\<close>)
    qed
  qed
qed

lemma sync_hints_triple:
  "triple (tab_step s m) fat_sync_hints (\<lambda>_. tab_step s m) (\<lambda>_. tab_fault s m)"
proof -
  have body: "triple (tab_step s m)
      (andThen (on_blk (fat_sector lba)) (\<lambda>data.
          if fsinfo_signed data
          then andThen (gets (\<lambda>v. put_at 492 (to_le 4 (hint v)) (put_at 488 (to_le 4 (free_count v)) data)))
                 (fat_write_sector lba)
          else ret ())) (\<lambda>_. tab_step s m) (\<lambda>_. tab_fault s m)" if "lba \<in> set (fat_info_lbas s)" for lba
  proof (rule triple_andThen [OF read_info_triple [OF that]])
    fix data
    have w: "triple (\<lambda>s'. length new = SECTOR \<and> tab_step s m s') (fat_write_sector lba new)
        (\<lambda>_. tab_step s m) (\<lambda>_. tab_fault s m)" for new
      by (cases "length new = SECTOR")
        (use write_info_triple [OF that, of new m] in \<open>auto intro: triple_weaken tripleI\<close>)
    show "triple (\<lambda>s'. length data = SECTOR \<and> tab_step s m s')
        (if fsinfo_signed data
         then andThen (gets (\<lambda>v. put_at 492 (to_le 4 (hint v)) (put_at 488 (to_le 4 (free_count v)) data)))
                 (fat_write_sector lba)
         else ret ())
        (\<lambda>_. tab_step s m) (\<lambda>_. tab_fault s m)"
      by (rule triple_if) (rule triple_andThen [OF triple_gets w], simp, rule triple_ret, simp)
  qed
  show ?thesis
  proof (rule tripleI)
    fix s'
    assume step: "tab_step s m s'"
    then have lbas: "fat_info_lbas s' = fat_info_lbas s"
      by (intro same_geo_defs(8)) (simp add: tab_step_def keeps_data_def)
    show "(\<exists>a s''. fat_sync_hints s' = Some (Ok a, s'') \<and> tab_step s m s'') \<or>
        (\<exists>e s''. fat_sync_hints s' = Some (Err e, s'') \<and> tab_fault s m s'')"
      using triple_for_each_inv [OF body] step
      by (cases rule: tripleE) (use lbas tab_step_flag in \<open>auto simp: fat_sync_hints_def\<close>)
  qed
qed

section \<open>Allocation\<close>

text \<open>The cluster that \<open>allocate\<close> looks at in round \<open>off\<close>, and the order it looks at them.\<close>

definition fat_probe :: "'z Volume_scheme \<Rightarrow> nat \<Rightarrow> u32" where
  "fat_probe v off = 2 + (hint v - 2 + of_nat off) mod clusters v"

definition fat_order :: "'z Volume_scheme \<Rightarrow> u32 list" where
  "fat_order v = map (fat_probe v) [0..<unat (clusters v)]"

lemma fat_probe_unat:
  assumes "fat_shape v" and "off < unat (clusters v)"
  shows "unat (fat_probe v off) = 2 + (unat (hint v) - 2 + off) mod unat (clusters v)"
proof -
  define n where "n = unat (clusters v)"
  have n: "n \<le> 268435438" using assms(1) fat_limit_bound [of "kind v"] by (simp add: fat_shape_def n_def)
  have h: "2 \<le> unat (hint v)" "unat (hint v) < n + 2"
    using assms(1) shape_clusters [OF assms(1)] by (simp_all add: fat_shape_def word_le_nat_alt word_less_nat_alt n_def)
  have sub: "unat (hint v - 2) = unat (hint v) - 2" using h(1) by (simp add: unat_sub word_le_nat_alt)
  have off: "unat (of_nat off :: u32) = off" using assms(2) n by (intro unat_of_nat_small) (simp add: n_def)
  have "unat (hint v - 2) + unat (of_nat off :: u32) < 2 ^ LENGTH(32)"
    using sub off h(2) assms(2) n by (simp add: n_def)
  then have sum: "unat (hint v - 2 + of_nat off) = unat (hint v) - 2 + off"
    by (simp only: unat_add_lem [THEN iffD1] sub off)
  have m: "unat ((hint v - 2 + of_nat off) mod clusters v) = (unat (hint v) - 2 + off) mod n"
    by (simp only: unat_mod_distrib sum n_def)
  have "(unat (hint v) - 2 + off) mod n < n" using assms(2) by (simp add: n_def)
  then have "unat (2 :: u32) + unat ((hint v - 2 + of_nat off) mod clusters v) < 2 ^ LENGTH(32)"
    using m n by simp
  then show ?thesis unfolding fat_probe_def n_def [symmetric] by (simp only: unat_add_lem [THEN iffD1] m) simp
qed

lemma mod_add_left_inj:
  assumes "(a + i) mod n = (a + j) mod n" and "i < n" and "j < (n :: nat)"
  shows "i = j"
proof -
  have le: "i = j" if "(a + i) mod n = (a + j) mod n" "i \<le> j" "j < n" for i j
  proof -
    have "n dvd a + j - (a + i)" using that(1,2) mod_eq_dvd_iff_nat [of "a + i" "a + j" n] by simp
    then have "n dvd j - i" by simp
    then show ?thesis using that by (metis dvd_imp_le diff_is_0_eq le_antisym less_imp_diff_less not_less zero_less_iff_neq_zero)
  qed
  show ?thesis using le [of i j] le [of j i] assms by (cases "i \<le> j") simp_all
qed

lemma valid_card: "fat_shape v \<Longrightarrow> card {c. fat_valid v c} = unat (clusters v)"
proof -
  assume shape: "fat_shape v"
  define n where "n = unat (clusters v)"
  have n: "n \<le> 268435438" using shape fat_limit_bound [of "kind v"] by (simp add: fat_shape_def n_def)
  have small: "i < n + 2 \<Longrightarrow> unat (of_nat i :: u32) = i" for i
    using n by (intro unat_of_nat_small) simp
  have "{c. fat_valid v c} = of_nat ` {2..<n + 2}"
  proof (rule set_eqI, rule iffI)
    fix c
    assume "c \<in> {c. fat_valid v c}"
    then have "unat c \<in> {2..<n + 2}" by (simp add: fat_valid_iff [OF shape] n_def)
    then have "of_nat (unat c) \<in> (of_nat ` {2..<n + 2} :: u32 set)" by (rule imageI)
    then show "c \<in> of_nat ` {2..<n + 2}" by simp
  next
    fix c :: u32
    assume "c \<in> of_nat ` {2..<n + 2}"
    then obtain i where "c = of_nat i" "2 \<le> i" "i < n + 2" by auto
    then show "c \<in> {c. fat_valid v c}" using small [of i] by (simp add: fat_valid_iff [OF shape] n_def)
  qed
  moreover have "inj_on (of_nat :: nat \<Rightarrow> u32) {2..<n + 2}"
    by (rule inj_onI) (metis atLeastLessThan_iff small)
  ultimately show ?thesis by (simp add: card_image n_def)
qed

lemma fat_order_distinct: "fat_shape v \<Longrightarrow> distinct (fat_order v)"
  unfolding fat_order_def distinct_map
proof (intro conjI inj_onI)
  assume shape: "fat_shape v"
  fix i j
  assume ij: "i \<in> set [0..<unat (clusters v)]" "j \<in> set [0..<unat (clusters v)]"
    and "fat_probe v i = fat_probe v j"
  then have less: "i < unat (clusters v)" "j < unat (clusters v)" and eq: "unat (fat_probe v i) = unat (fat_probe v j)"
    by simp_all
  have "(unat (hint v) - 2 + i) mod unat (clusters v) = (unat (hint v) - 2 + j) mod unat (clusters v)"
    using eq unfolding fat_probe_unat [OF shape less(1)] fat_probe_unat [OF shape less(2)] by (rule add_left_imp_eq)
  then show "i = j" by (rule mod_add_left_inj) (fact less)+
qed simp

lemma fat_order_set: "fat_shape v \<Longrightarrow> set (fat_order v) = {c. fat_valid v c}"
proof (rule card_subset_eq)
  assume shape: "fat_shape v"
  show "set (fat_order v) \<subseteq> {c. fat_valid v c}"
  proof
    fix c
    assume "c \<in> set (fat_order v)"
    then obtain off where off: "off < unat (clusters v)" and c: "c = fat_probe v off" by (auto simp: fat_order_def)
    have "(unat (hint v) - 2 + off) mod unat (clusters v) < unat (clusters v)" using off by (intro mod_less_divisor) simp
    then show "c \<in> {c. fat_valid v c}"
      unfolding c mem_Collect_eq fat_valid_iff [OF shape] fat_probe_unat [OF shape off] by linarith
  qed
  show "card (set (fat_order v)) = card {c. fat_valid v c}"
    using distinct_card [OF fat_order_distinct [OF shape]] by (simp add: valid_card [OF shape] fat_order_def)
qed simp

lemma fat_pick_eq:
  assumes "fat_shape v" and "\<forall>off\<in>set offs. off < unat (clusters v)" and "length sel < count"
  shows "fat_pick v count offs sel =
    Some (Ok (take count (sel @ filter (\<lambda>c. ent v c = 0) (map (fat_probe v) offs))))"
  using assms(2,3)
proof (induction offs arbitrary: sel)
  case Nil
  then show ?case by simp
next
  case (Cons off offs)
  have "fat_probe v off \<in> set (fat_order v)" using Cons.prems(1) by (simp add: fat_order_def)
  then have "fat_valid v (fat_probe v off)" by (simp add: fat_order_set [OF assms(1)])
  then have get: "fat_get v (2 + (hint v - 2 + of_nat off) mod clusters v) = Some (Ok (ent v (fat_probe v off)))"
    using fat_get_valid [OF assms(1)] by (simp add: fat_probe_def)
  show ?case
  proof (cases "ent v (fat_probe v off) = 0 \<and> Suc (length sel) \<noteq> count")
    case True
    then show ?thesis using Cons.IH [of "sel @ [fat_probe v off]"] Cons.prems get
      by (simp add: Let_def) (simp add: fat_probe_def)
  next
    case False
    show ?thesis
    proof (cases "ent v (fat_probe v off) = 0")
      case True
      with False have "count = Suc (length sel)" by simp
      then show ?thesis using True get by (simp add: Let_def) (simp add: fat_probe_def)
    next
      case nz: False
      then show ?thesis using Cons.IH [of sel] Cons.prems get by (simp add: Let_def)
    qed
  qed
qed

text \<open>The free clusters in the order of the search.\<close>

definition fat_frees :: "'z Volume_scheme \<Rightarrow> u32 list" where
  "fat_frees v = filter (\<lambda>c. ent v c = 0) (fat_order v)"

lemma fat_frees:
  assumes "fat_shape v"
  shows "distinct (fat_frees v)" "set (fat_frees v) = fat_free_set v" "length (fat_frees v) = card (fat_free_set v)"
proof -
  show d: "distinct (fat_frees v)" by (simp add: fat_frees_def fat_order_distinct [OF assms])
  show s: "set (fat_frees v) = fat_free_set v"
    by (auto simp: fat_frees_def fat_order_set [OF assms] fat_free_set_def)
  show "length (fat_frees v) = card (fat_free_set v)" using distinct_card [OF d] s by simp
qed

lemma fat_pick_all:
  "fat_shape v \<Longrightarrow> 0 < count \<Longrightarrow> fat_pick v count [0..<unat (clusters v)] [] = Some (Ok (take count (fat_frees v)))"
  using fat_pick_eq [of v "[0..<unat (clusters v)]" "[]" count] by (simp add: fat_frees_def fat_order_def)

lemma entry_fits:
  assumes "fat_shape v" and "fat_valid v c"
  shows "take_bit (fat_width (kind v)) c = c" and "\<not> fat_is_eof v c"
proof -
  have c: "unat c < fat_limit (kind v) + 2" using assms by (simp add: fat_valid_iff fat_shape_def)
  then have "unat c < 2 ^ fat_width (kind v)"
    by (cases "kind v") (simp_all add: fat_limit_def fat_width_def)
  then have "take_bit (fat_width (kind v)) (unat c) = unat c" by (simp add: take_bit_nat_eq_self)
  then show "take_bit (fat_width (kind v)) c = c"
    by (metis unsigned_take_bit_eq word_unat_eq_iff)
  show "\<not> fat_is_eof v c"
    using c by (cases "kind v") (simp_all add: fat_is_eof_def fat_eof_def fat_limit_def word_le_nat_alt)
qed

lemma eof_fits: "take_bit (fat_width (kind v)) (fat_eof v) = fat_eof v" "fat_is_eof v (fat_eof v)"
proof -
  have "take_bit 12 (0xfff :: u32) = 0xfff" "take_bit 16 (0xffff :: u32) = 0xffff"
    "take_bit 28 (0x0fffffff :: u32) = 0x0fffffff"
    by code_simp+
  then show "take_bit (fat_width (kind v)) (fat_eof v) = fat_eof v"
    by (cases "kind v") (simp_all only: fat_eof_def fat_width_def Kind.case)
  show "fat_is_eof v (fat_eof v)"
    by (cases "kind v") (simp_all add: fat_eof_def fat_is_eof_def)
qed

lemma fat_ok_upd:
  assumes "fat_ok s" and "2 \<le> h" and "h < clusters s + 2"
  shows "fat_ok (s\<lparr>hint := h, free_count := n\<rparr>)" "keeps_data s (s\<lparr>hint := h, free_count := n\<rparr>)"
    "ent (s\<lparr>hint := h, free_count := n\<rparr>) c = ent s c"
    "fat_free_set (s\<lparr>hint := h, free_count := n\<rparr>) = fat_free_set s"
proof -
  define u where "u = s\<lparr>hint := h, free_count := n\<rparr>"
  have geo: "same_geo s u" by (simp add: u_def same_geo_def geo_def)
  have "fat_synced u \<longleftrightarrow> fat_synced s"
    by (simp add: fat_synced_def copy_synced_def same_geo_defs(1,2) [OF geo]) (simp add: u_def)
  moreover have "fat_shape u" using assms by (simp add: u_def fat_shape_def fat_ok_def)
  ultimately show "fat_ok (s\<lparr>hint := h, free_count := n\<rparr>)"
    using assms(1) same_geo_defs(11) [OF geo] unfolding u_def [symmetric] by (simp add: fat_ok_def) (simp add: u_def)
  show "keeps_data s (s\<lparr>hint := h, free_count := n\<rparr>)"
    using geo unfolding u_def [symmetric] by (simp add: keeps_data_def) (simp add: u_def)
  show "ent (s\<lparr>hint := h, free_count := n\<rparr>) c = ent s c" for c by (simp add: ent_def)
  then show "fat_free_set (s\<lparr>hint := h, free_count := n\<rparr>) = fat_free_set s"
    using same_geo_defs(3) [OF geo] by (simp add: fat_free_set_def u_def)
qed

text \<open>The entries that \<open>allocate\<close> writes: each selected cluster points to the next one.\<close>

definition next_of :: "u32 list \<Rightarrow> u32 \<Rightarrow> nat \<Rightarrow> u32" where
  "next_of sel eof i = (if i + 1 < length sel then sel ! (i + 1) else eof)"

definition link_map :: "u32 list \<Rightarrow> u32 \<Rightarrow> nat list \<Rightarrow> (u32 \<rightharpoonup> u32)" where
  "link_map sel eof is = foldl (\<lambda>m i. m(sel ! i \<mapsto> next_of sel eof i)) Map.empty is"

lemma link_map_snoc: "link_map sel eof (is @ [i]) = (link_map sel eof is)(sel ! i \<mapsto> next_of sel eof i)"
  by (simp add: link_map_def)

lemma link_map_lookup:
  assumes "distinct sel"
  shows "k \<le> length sel \<Longrightarrow> link_map sel eof [0..<k] c =
    (case position (\<lambda>x. x = c) (take k sel) of None \<Rightarrow> None | Some i \<Rightarrow> Some (next_of sel eof i))"
proof (induction k)
  case 0
  then show ?case by (simp add: link_map_def)
next
  case (Suc k)
  then have k: "k < length sel" by simp
  show ?case
  proof (cases "sel ! k = c")
    case True
    have "position (\<lambda>x. x = c) (take (Suc k) sel) = Some k"
      by (rule position_Some_intro) (use k True assms in \<open>auto simp: nth_eq_iff_index_eq\<close>)
    then show ?thesis using True by (simp add: link_map_snoc)
  next
    case False
    have "position (\<lambda>x. x = c) (take (Suc k) sel) = position (\<lambda>x. x = c) (take k sel)"
    proof (cases "position (\<lambda>x. x = c) (take k sel)")
      case None
      then have "\<forall>x\<in>set (take k sel). x \<noteq> c" by (simp add: position_None_iff)
      then have "position (\<lambda>x. x = c) (take (Suc k) sel) = None"
        unfolding position_None_iff using False k by (auto simp: take_Suc_conv_app_nth)
      then show ?thesis using None by simp
    next
      case (Some i)
      from position_SomeD [OF this] show ?thesis
        using k Some by (intro trans [OF position_Some_intro [of i]]) auto
    qed
    then show ?thesis using False Suc by (simp add: link_map_snoc)
  qed
qed

lemma link_map_other: "distinct sel \<Longrightarrow> c \<notin> set sel \<Longrightarrow> link_map sel eof [0..<length sel] c = None"
  by (subst link_map_lookup) (auto simp: position_None_iff split: option.split dest: position_SomeD)

lemma link_map_nth: "distinct sel \<Longrightarrow> i < length sel \<Longrightarrow> link_map sel eof [0..<length sel] (sel ! i) = Some (next_of sel eof i)"
proof -
  assume d: "distinct sel" and i: "i < length sel"
  have "position (\<lambda>x. x = sel ! i) sel = Some i"
    by (rule position_Some_intro) (use d i in \<open>auto simp: nth_eq_iff_index_eq\<close>)
  then show ?thesis using link_map_lookup [OF d, of "length sel"] by simp
qed

lemma fat_eof_step: "tab_step s m s' \<Longrightarrow> fat_eof s' = fat_eof s"
  by (intro same_geo_defs(5)) (simp add: tab_step_def keeps_data_def)

lemma link_triple:
  assumes "fat_shape s" and "\<forall>c\<in>set sel. fat_valid s c" and "i < length sel"
  shows "triple (tab_step s m) (fat_link sel i) (\<lambda>_. tab_step s (m(sel ! i \<mapsto> next_of sel (fat_eof s) i))) (\<lambda>_. broken s)"
proof (rule tripleI)
  fix s'
  assume step: "tab_step s m s'"
  define val where "val = next_of sel (fat_eof s) i"
  have run: "fat_link sel i s' = fat_set (sel ! i) val s'"
    using fat_eof_step [OF step] by (simp add: fat_link_def next_of_def val_def)
  have "take_bit (fat_width (kind s)) val = val"
    using assms eof_fits(1) [of s] entry_fits(1) [OF assms(1)] by (simp add: val_def next_of_def)
  moreover have "fat_valid s (sel ! i)" using assms by simp
  ultimately have "triple (tab_step s m) (fat_set (sel ! i) val) (\<lambda>_. tab_step s (m(sel ! i \<mapsto> val))) (\<lambda>_. broken s)"
    by (intro tab_step_set)
  then show "(\<exists>a s''. fat_link sel i s' = Some (Ok a, s'') \<and> tab_step s (m(sel ! i \<mapsto> next_of sel (fat_eof s) i)) s'') \<or>
      (\<exists>e s''. fat_link sel i s' = Some (Err e, s'') \<and> broken s s'')"
    unfolding run val_def [symmetric] using step by (cases rule: tripleE) auto
qed

lemma link_all_triple:
  assumes "fat_shape s" and "\<forall>c\<in>set sel. fat_valid s c"
  shows "triple (tab_step s Map.empty) (for_each (fat_link sel) [0..<length sel])
    (\<lambda>_. tab_step s (link_map sel (fat_eof s) [0..<length sel])) (\<lambda>_. broken s)"
proof -
  have "triple (tab_step s (link_map sel (fat_eof s) [])) (for_each (fat_link sel) [0..<length sel])
    (\<lambda>_. tab_step s (link_map sel (fat_eof s) [0..<length sel])) (\<lambda>_. broken s)"
  proof (rule triple_for_each)
    fix ys x zs
    assume "[0..<length sel] = ys @ x # zs"
    then have "x \<in> set [0..<length sel]" by simp
    then have "x < length sel" by simp
    then show "triple (tab_step s (link_map sel (fat_eof s) ys)) (fat_link sel x)
        (\<lambda>_. tab_step s (link_map sel (fat_eof s) (ys @ [x]))) (\<lambda>_. broken s)"
      unfolding link_map_snoc by (intro link_triple [OF assms])
  qed
  then show ?thesis by (simp add: link_map_def)
qed

text \<open>What an allocation does.\<close>

definition allocated :: "fat_state \<Rightarrow> nat \<Rightarrow> u32 list \<Rightarrow> fat_state \<Rightarrow> bool" where
  "allocated s count sel s' \<longleftrightarrow>
     length sel = count \<and> distinct sel \<and> set sel \<subseteq> fat_free_set s
   \<and> fat_inv s' \<and> \<not> failed s' \<and> keeps_data s s' \<and> (reliable (blk s) \<longrightarrow> reliable (blk s'))
   \<and> (\<forall>i<count. ent s' (sel ! i) = next_of sel (fat_eof s) i)
   \<and> (\<forall>c. fat_valid s c \<longrightarrow> c \<notin> set sel \<longrightarrow> ent s' c = ent s c)"

lemma broken_inv: "broken s s' \<Longrightarrow> fat_inv s'"
  by (simp add: broken_def fat_inv_def fat_ok_def)

lemma tab_fault_inv:
  assumes "tab_fault s m s'" and "unat (free_count s) = card (fat_free_set s')"
  shows "fat_inv s' \<and> keeps_data s s' \<and> \<not> reliable (blk s)"
  using assms broken_inv [of s s'] by (auto simp: tab_fault_def tab_step_def fat_inv_def broken_def)

lemma tab_step_free_set:
  assumes "tab_step s m s'"
  shows "fat_free_set s' = {c. fat_valid s c \<and> (case m c of None \<Rightarrow> ent s c | Some x \<Rightarrow> x) = 0}"
proof -
  have "fat_valid s' = fat_valid s" using assms by (intro same_geo_defs(3)) (simp add: tab_step_def keeps_data_def)
  with assms show ?thesis by (auto simp: fat_free_set_def tab_step_def)
qed

lemma allocated_free_set:
  assumes "fat_shape s" and "same_geo s s'" and "set sel \<subseteq> fat_free_set s"
    and "\<forall>i<length sel. ent s' (sel ! i) = next_of sel (fat_eof s) i"
    and "\<forall>c. fat_valid s c \<longrightarrow> c \<notin> set sel \<longrightarrow> ent s' c = ent s c"
  shows "fat_free_set s' = fat_free_set s - set sel"
proof (rule set_eqI)
  fix c
  have valid: "fat_valid s' = fat_valid s" by (rule same_geo_defs(3)) (fact assms)
  show "c \<in> fat_free_set s' \<longleftrightarrow> c \<in> fat_free_set s - set sel"
  proof (cases "c \<in> set sel")
    case True
    then obtain i where i: "i < length sel" "c = sel ! i" by (auto simp: in_set_conv_nth)
    have "next_of sel (fat_eof s) i \<noteq> 0"
    proof (cases "i + 1 < length sel")
      case True
      then have "fat_valid s (sel ! (i + 1))" using assms(3) nth_mem by (fastforce simp: fat_free_set_def)
      then show ?thesis using True by (auto simp: next_of_def fat_valid_def)
    next
      case False
      then show ?thesis by (cases "kind s") (simp_all add: next_of_def fat_eof_def)
    qed
    with assms(4) i True show ?thesis by (simp add: fat_free_set_def)
  next
    case False
    then show ?thesis using assms(5) by (auto simp: fat_free_set_def valid)
  qed
qed

lemma hint_in_range:
  assumes "fat_shape v"
  shows "2 \<le> 2 + (x :: u32) mod clusters v" "2 + x mod clusters v < clusters v + 2"
proof -
  define n where "n = unat (clusters v)"
  have n: "0 < n" "n \<le> 268435438" using assms fat_limit_bound [of "kind v"] by (simp_all add: fat_shape_def n_def)
  have m: "unat (x mod clusters v) < n" using n by (simp add: unat_mod_distrib n_def)
  have "unat (2 :: u32) + unat (x mod clusters v) < 2 ^ LENGTH(32)" using m n by simp
  then have u: "unat (2 + x mod clusters v) = 2 + unat (x mod clusters v)"
    by (simp only: unat_add_lem [THEN iffD1]) simp
  show "2 \<le> 2 + x mod clusters v" using u by (simp add: word_le_nat_alt)
  show "2 + x mod clusters v < clusters v + 2"
    using u m shape_clusters [OF assms] by (simp add: word_less_nat_alt n_def)
qed

lemma allocate_tail:
  assumes inv: "fat_inv s" and nf: "\<not> failed s" and full: "length sel = count"
    and dsel: "distinct sel" and ssel: "set sel \<subseteq> fat_free_set s"
    and step: "tab_step s (link_map sel (fat_eof s) [0..<length sel]) s2"
    and run: "fat_allocate count s =
        andThen (modify (\<lambda>v. v\<lparr>hint := 2 + (last sel - 1) mod clusters v,
                             free_count := free_count v - of_nat (length sel)\<rparr>)) (\<lambda>_.
        andThen fat_sync_hints (\<lambda>_. ret sel)) s2"
  shows "(\<exists>sel s'. fat_allocate count s = Some (Ok sel, s') \<and> allocated s count sel s') \<or>
    (\<exists>e s'. fat_allocate count s = Some (Err e, s') \<and> fat_inv s' \<and> keeps_data s s' \<and> \<not> reliable (blk s))"
proof -
  have shape: "fat_shape s" and count: "unat (free_count s) = card (fat_free_set s)"
    using inv nf by (simp_all add: fat_inv_def fat_ok_def)
  have keeps: "keeps_data s s2" and ok2: "fat_ok s2" and nf2: "\<not> failed s2" and fc: "free_count s2 = free_count s"
    and rel: "reliable (blk s) \<longrightarrow> reliable (blk s2)" using step by (simp_all add: tab_step_def)
  have shape2: "fat_shape s2" using ok2 by (simp add: fat_ok_def)
  define h where "h = 2 + (last sel - 1) mod clusters s2"
  define n where "n = free_count s2 - of_nat (length sel)"
  define s3 where "s3 = s2\<lparr>hint := h, free_count := n\<rparr>"
  note up = fat_ok_upd [OF ok2 hint_in_range [OF shape2, of "last sel - 1"], of n, folded h_def s3_def]
  have nf3: "\<not> failed s3" and blk3: "blk s3 = blk s2" and fc3: "free_count s3 = n"
    using nf2 by (simp_all add: s3_def)
  have ents2: "\<forall>i<length sel. ent s2 (sel ! i) = next_of sel (fat_eof s) i"
    using step ssel link_map_nth [OF dsel] nth_mem by (fastforce simp: tab_step_def fat_free_set_def)
  have rest2: "\<forall>c. fat_valid s c \<longrightarrow> c \<notin> set sel \<longrightarrow> ent s2 c = ent s c"
    using step link_map_other [OF dsel] by (simp add: tab_step_def)
  have free: "fat_free_set s4 = fat_free_set s - set sel"
    if "\<forall>c. fat_valid s c \<longrightarrow> ent s4 c = ent s2 c" "same_geo s s4" "fat_shape s" for s4
  proof -
    have "fat_valid s (sel ! i)" if "i < length sel" for i
      using ssel nth_mem [OF that] by (auto simp: fat_free_set_def)
    with that ents2 rest2 show ?thesis by (intro allocated_free_set [OF shape that(2) ssel]) simp_all
  qed
  have card: "card (fat_free_set s - set sel) = card (fat_free_set s) - length sel" and le: "length sel \<le> card (fat_free_set s)"
    using ssel distinct_card [OF dsel] card_mono [OF finite_fat_free_set ssel] by (simp_all add: card_Diff_subset)
  have ucount: "unat n = card (fat_free_set s) - length sel"
  proof -
    have "unat (of_nat (length sel) :: u32) = length sel"
      using le count unat_lt_u32 [of "free_count s"] by (intro unat_of_nat_small) simp
    then show ?thesis using le count by (simp add: n_def fc unat_sub word_le_nat_alt)
  qed
  have fin: "fat_inv s4 \<and> keeps_data s s4 \<and> (\<forall>c. fat_valid s c \<longrightarrow> ent s4 c = ent s2 c)" if "tab_step s3 Map.empty s4" for s4
  proof -
    have k4: "keeps_data s s4"
      using keeps_data_trans [OF keeps_data_trans [OF keeps up(2)]] that by (simp add: tab_step_def)
    then have geo: "same_geo s s4" by (simp add: keeps_data_def)
    have "same_geo s s3" using keeps_data_trans [OF keeps up(2)] by (simp add: keeps_data_def)
    then have e: "\<forall>c. fat_valid s c \<longrightarrow> ent s4 c = ent s2 c"
      using that up(3) same_geo_defs(3) [of s s3] by (simp add: tab_step_def)
    have "unat (free_count s4) = card (fat_free_set s4)"
      using that ucount card free [OF e geo shape] fc3 by (simp add: tab_step_def)
    with that k4 e show ?thesis by (simp add: fat_inv_def tab_step_def)
  qed
  have start: "tab_step s3 Map.empty s3" by (rule tab_step_refl [OF up(1) nf3])
  show ?thesis
    using sync_hints_triple [of s3 Map.empty] start
  proof (cases rule: tripleE)
    case (Ok u s4)
    have r: "fat_allocate count s = Some (Ok sel, s4)" unfolding run using Ok(1) by (simp add: s3_def h_def n_def)
    have "allocated s count sel s4"
      unfolding allocated_def
    proof (intro conjI allI impI)
      show "length sel = count" "distinct sel" "set sel \<subseteq> fat_free_set s" by fact+
      show "fat_inv s4" "keeps_data s s4" using fin [OF Ok(2)] by simp_all
      show "\<not> failed s4" using Ok(2) by (simp add: tab_step_def)
      show "reliable (blk s4)" if "reliable (blk s)" using Ok(2) rel that blk3 by (simp add: tab_step_def)
      show "ent s4 c = ent s c" if "fat_valid s c" "c \<notin> set sel" for c using fin [OF Ok(2)] rest2 that by simp
      fix i
      assume i: "i < count"
      then have "sel ! i \<in> set sel" using full by simp
      then have "fat_valid s (sel ! i)" using ssel by (auto simp: fat_free_set_def)
      then show "ent s4 (sel ! i) = next_of sel (fat_eof s) i" using fin [OF Ok(2)] ents2 i full by simp
    qed
    with r show ?thesis by blast
  next
    case (Err e s4)
    have r: "fat_allocate count s = Some (Err e, s4)" unfolding run using Err(1) by (simp add: s3_def h_def n_def)
    have nr: "\<not> reliable (blk s)" using Err(2) rel blk3 by (auto simp: tab_fault_def)
    have "fat_inv s4 \<and> keeps_data s s4"
    proof (cases "tab_step s3 Map.empty s4")
      case True
      then show ?thesis using fin by blast
    next
      case False
      then have b: "broken s3 s4" using Err(2) by (simp add: tab_fault_def)
      have "keeps_data s s4"
        using keeps_data_trans [OF keeps_data_trans [OF keeps up(2)]] b by (simp add: broken_def)
      then show ?thesis using broken_inv [OF b] by simp
    qed
    with r nr show ?thesis by blast
  qed
qed

lemma fat_allocate_triple:
  assumes inv: "fat_inv s" and nf: "\<not> failed s" and pos: "0 < count"
  shows "(\<exists>sel s'. fat_allocate count s = Some (Ok sel, s') \<and> allocated s count sel s') \<or>
    (fat_allocate count s = Some (Err ''disk full'', s) \<and> card (fat_free_set s) < count) \<or>
    (\<exists>e s'. fat_allocate count s = Some (Err e, s') \<and> fat_inv s' \<and> keeps_data s s' \<and> \<not> reliable (blk s))"
proof -
  have ok: "fat_ok s" and count: "unat (free_count s) = card (fat_free_set s)"
    using inv nf by (simp_all add: fat_inv_def)
  have shape: "fat_shape s" using ok by (simp add: fat_ok_def)
  define sel where "sel = take count (fat_frees s)"
  have dsel: "distinct sel" and ssel: "set sel \<subseteq> fat_free_set s"
    and lsel: "length sel = min count (card (fat_free_set s))"
    using fat_frees [OF shape] set_take_subset [of count "fat_frees s"] by (auto simp: sel_def)
  have vsel: "\<forall>c\<in>set sel. fat_valid s c" using ssel by (auto simp: fat_free_set_def)
  have pick: "fat_pick s count [0..<unat (clusters s)] [] = Some (Ok sel)"
    using fat_pick_all [OF shape pos] by (simp add: sel_def)
  have start: "tab_step s Map.empty s" by (rule tab_step_refl [OF ok nf])
  show ?thesis
  proof (cases "length sel = count")
    case False
    then have "fat_allocate count s = Some (Err ''disk full'', s)"
      using pick nf pos by (simp add: fat_allocate_def fat_check_def)
    with False lsel show ?thesis by auto
  next
    case full: True
    define rest where "rest = andThen (for_each (fat_link sel) [0..<length sel]) (\<lambda>_.
        andThen (modify (\<lambda>v. v\<lparr>hint := 2 + (last sel - 1) mod clusters v,
                             free_count := free_count v - of_nat (length sel)\<rparr>)) (\<lambda>_.
        andThen fat_sync_hints (\<lambda>_. ret sel)))"
    have run: "fat_allocate count s = andThen fat_invalidate_hints (\<lambda>_. rest) s"
      using pick nf pos full by (simp add: fat_allocate_def fat_check_def rest_def)
    show ?thesis
      using invalidate_hints_triple [of s Map.empty] start
    proof (cases rule: tripleE)
      case (Err e s1)
      have "unat (free_count s) = card (fat_free_set s1)" if "tab_step s Map.empty s1"
        using tab_step_free_set [OF that] count by (simp add: fat_free_set_def)
      then have "fat_inv s1 \<and> keeps_data s s1 \<and> \<not> reliable (blk s)"
        using Err(2) broken_inv [of s s1] by (auto simp: tab_fault_def tab_step_def fat_inv_def broken_def)
      then show ?thesis using Err(1) run by auto
    next
      case (Ok u s1)
      show ?thesis
        using link_all_triple [OF shape vsel] Ok(2)
      proof (cases rule: tripleE)
        case (Err e s2)
        then have "fat_allocate count s = Some (Err e, s2)" using Ok(1) run by (simp add: rest_def)
        then show ?thesis using broken_inv [OF Err(2)] Err(2) by (auto simp: broken_def)
      next
        case link: (Ok u' s2)
        have "fat_allocate count s =
            andThen (modify (\<lambda>v. v\<lparr>hint := 2 + (last sel - 1) mod clusters v,
                             free_count := free_count v - of_nat (length sel)\<rparr>)) (\<lambda>_.
            andThen fat_sync_hints (\<lambda>_. ret sel)) s2"
          using Ok(1) link(1) run by (simp add: rest_def)
        from allocate_tail [OF inv nf full dsel ssel link(2) this] show ?thesis by blast
      qed
    qed
  qed
qed

end
