(* ===== verification/Fat_Chain.thy ===== *)
theory Fat_Chain
  imports Fat_Alloc
begin

text \<open>
  Cluster chains of a FAT volume: \<open>chain\<close> returns exactly the list of clusters that the table links
  from a first cluster to an end marker, and an error for every other table, so it terminates on cyclic
  and damaged ones; \<open>allocate\<close> builds such a chain and \<open>free\<close> takes one apart.
\<close>

section \<open>Chains\<close>

text \<open>The list follows the table from its head to an end marker.\<close>

fun links :: "'z Volume_scheme \<Rightarrow> u32 list \<Rightarrow> bool" where
  "links v [] = False"
| "links v [c] = fat_is_eof v (ent v c)"
| "links v (c # d # cs) = (ent v c = d \<and> links v (d # cs))"

definition is_chain :: "'z Volume_scheme \<Rightarrow> u32 list \<Rightarrow> bool" where
  "is_chain v cs \<longleftrightarrow> links v cs \<and> distinct cs \<and> (\<forall>c\<in>set cs. fat_valid v c)"

lemma chain_loop_sound:
  assumes "fat_shape v" and "fat_chain_loop v mx c out = Some (Ok cs)" and "length out \<le> mx"
  shows "\<exists>ds. cs = out @ ds \<and> ds \<noteq> [] \<and> hd ds = c \<and> links v ds \<and> distinct ds \<and> set ds \<inter> set out = {} \<and>
    (\<forall>d\<in>set ds. fat_valid v d) \<and> length cs \<le> mx"
  using assms(2,3)
proof (induction v mx c out rule: fat_chain_loop.induct)
  case (1 v mx c out)
  have valid: "fat_valid v c" and room: "length out < mx" and new: "c \<notin> set out"
    using 1(2) by (auto simp: fat_chain_loop.simps [of v mx c out] split: if_splits)
  show ?case
  proof (cases "fat_get v c")
    case None
    then show ?thesis using 1(2) valid room new by (simp add: fat_chain_loop.simps [of v mx c out])
  next
    case (Some r)
    then obtain nxt where nxt: "fat_get v c = Some (Ok nxt)"
      using 1(2) valid room new by (cases r) (simp_all add: fat_chain_loop.simps [of v mx c out])
    have ent: "nxt = ent v c"
      using nxt valid
      by (cases "kind v") (auto simp: fat_get_def ent_def entry_def Let_def u16le_def u32le_def split: if_splits)
    show ?thesis
    proof (cases "fat_is_eof v nxt")
      case True
      then have "cs = out @ [c]" using 1(2) valid room new nxt by (simp add: fat_chain_loop.simps [of v mx c out])
      then show ?thesis using True valid room new ent by (intro exI [of _ "[c]"]) simp
    next
      case False
      then have rec: "fat_chain_loop v mx nxt (out @ [c]) = Some (Ok cs)"
        using 1(2) valid room new nxt by (simp add: fat_chain_loop.simps [of v mx c out])
      have "\<not> (\<not> fat_valid v c \<or> mx \<le> length out \<or> c \<in> set out)" using valid room new by simp
      from 1(1) [OF this nxt refl False rec] room
      obtain ds where ds: "cs = (out @ [c]) @ ds" "ds \<noteq> []" "hd ds = nxt" "links v ds" "distinct ds"
          "set ds \<inter> set (out @ [c]) = {}" "\<forall>d\<in>set ds. fat_valid v d" "length cs \<le> mx" by auto
      then obtain ds' where ds': "ds = nxt # ds'" by (cases ds) auto
      show ?thesis
        using ds valid new ent by (intro exI [of _ "c # ds"]) (auto simp: ds')
    qed
  qed
qed

lemma links_Cons: "links v (c # cs) \<longleftrightarrow> (if cs = [] then fat_is_eof v (ent v c) else ent v c = hd cs \<and> links v cs)"
  by (cases cs) simp_all

lemma chain_loop_complete:
  assumes "fat_shape v" and "links v ds" and "distinct ds" and "\<forall>d\<in>set ds. fat_valid v d"
    and "set ds \<inter> set out = {}" and "length out + length ds \<le> mx"
  shows "fat_chain_loop v mx (hd ds) out = Some (Ok (out @ ds))"
  using assms(2-)
proof (induction ds arbitrary: out)
  case Nil
  then show ?case by simp
next
  case (Cons c ds)
  have valid: "fat_valid v c" and new: "c \<notin> set out" and room: "length out < mx" using Cons.prems by auto
  have get: "fat_get v c = Some (Ok (ent v c))" by (rule fat_get_valid [OF assms(1) valid])
  show ?case
  proof (cases "ds = []")
    case True
    then have "fat_is_eof v (ent v c)" using Cons.prems(1) by simp
    then show ?thesis using True valid new room get by (simp add: fat_chain_loop.simps [of v mx c out])
  next
    case False
    then have hd: "ent v c = hd ds" and l: "links v ds" using Cons.prems(1) by (simp_all add: links_Cons)
    have "fat_valid v (hd ds)" using Cons.prems(3) False by simp
    then have "\<not> fat_is_eof v (ent v c)" using entry_fits(2) [OF assms(1)] hd by simp
    moreover have "fat_chain_loop v mx (hd ds) (out @ [c]) = Some (Ok ((out @ [c]) @ ds))"
      by (rule Cons.IH) (use Cons.prems l in auto)
    ultimately show ?thesis using valid new room get hd by (simp add: fat_chain_loop.simps [of v mx c out])
  qed
qed

lemma chain_loop_total:
  assumes "fat_shape v"
  shows "fat_chain_loop v mx c out \<noteq> None"
  using assms
proof (induction v mx c out rule: fat_chain_loop.induct)
  case (1 v mx c out)
  show ?case
  proof (cases "fat_valid v c \<and> length out < mx \<and> c \<notin> set out \<and> \<not> fat_is_eof v (ent v c)")
    case True
    then have get: "fat_get v c = Some (Ok (ent v c))" by (intro fat_get_valid [OF 1(2)]) simp
    have "\<not> (\<not> fat_valid v c \<or> mx \<le> length out \<or> c \<in> set out)" using True by auto
    from 1(1) [OF this get refl _ 1(2)] True get show ?thesis
      by (subst fat_chain_loop.simps) auto
  next
    case False
    then show ?thesis
      using fat_get_valid [OF 1(2), of c] by (subst fat_chain_loop.simps) auto
  qed
qed

lemma links_unique:
  assumes "fat_shape v"
  shows "is_chain v cs \<Longrightarrow> is_chain v ds \<Longrightarrow> hd cs = hd ds \<Longrightarrow> cs = ds"
proof -
  assume c: "is_chain v cs" and d: "is_chain v ds" and h: "hd cs = hd ds"
  define mx where "mx = length cs + length ds"
  have "fat_chain_loop v mx (hd cs) [] = Some (Ok ([] @ cs))"
    by (rule chain_loop_complete [OF assms]) (use c in \<open>simp_all add: is_chain_def mx_def\<close>)
  moreover have "fat_chain_loop v mx (hd ds) [] = Some (Ok ([] @ ds))"
    by (rule chain_loop_complete [OF assms]) (use d in \<open>simp_all add: is_chain_def mx_def\<close>)
  ultimately have "Some (Ok ([] @ cs)) = (Some (Ok ([] @ ds)) :: (string + u32 list) option)"
    unfolding h by (rule subst)
  then show ?thesis by simp
qed

text \<open>\<open>chain\<close> always returns: the chain that starts at \<open>first\<close>, or an error.\<close>

lemma fat_chain_Ok_iff:
  assumes "fat_shape v" and "\<not> failed v" and "first \<noteq> 0"
  shows "fat_chain v first mx = Some (Ok cs) \<longleftrightarrow> is_chain v cs \<and> hd cs = first \<and> length cs \<le> mx"
proof
  assume "fat_chain v first mx = Some (Ok cs)"
  then have "fat_chain_loop v mx first [] = Some (Ok cs)" using assms by (simp add: fat_chain_def)
  from chain_loop_sound [OF assms(1) this] show "is_chain v cs \<and> hd cs = first \<and> length cs \<le> mx"
    by (auto simp: is_chain_def)
next
  assume "is_chain v cs \<and> hd cs = first \<and> length cs \<le> mx"
  then show "fat_chain v first mx = Some (Ok cs)"
    using chain_loop_complete [OF assms(1), of cs "[]" mx] assms by (simp add: fat_chain_def is_chain_def)
qed

lemma fat_chain_total: "fat_shape v \<Longrightarrow> fat_chain v first mx \<noteq> None"
  using chain_loop_total by (auto simp: fat_chain_def)

lemma next_of_links:
  assumes "\<forall>i<length cs. ent v (cs ! i) = next_of cs eof i" and "cs \<noteq> []" and "fat_is_eof v eof"
  shows "links v cs"
  using assms(1,2)
proof (induction cs)
  case Nil
  then show ?case by simp
next
  case (Cons c cs)
  have p: "i < Suc (length cs) \<Longrightarrow> ent v ((c # cs) ! i) = next_of (c # cs) eof i" for i
    using Cons.prems(1) by (simp only: length_Cons)
  from p [OF zero_less_Suc] have first: "ent v c = next_of (c # cs) eof 0" by (simp only: nth_Cons_0)
  have rest: "\<forall>i<length cs. ent v (cs ! i) = next_of cs eof i"
  proof (intro allI impI)
    fix i
    assume "i < length cs"
    then have "ent v ((c # cs) ! Suc i) = next_of (c # cs) eof (Suc i)" by (intro p) simp
    then show "ent v (cs ! i) = next_of cs eof i" by (simp add: next_of_def)
  qed
  show ?case
  proof (cases "cs = []")
    case True
    then show ?thesis using first assms(3) by (simp add: next_of_def)
  next
    case False
    then have "ent v c = hd cs" using first by (simp add: next_of_def hd_conv_nth)
    then show ?thesis using False Cons.IH [OF rest False] by (simp add: links_Cons)
  qed
qed

lemma allocated_chain:
  assumes "fat_inv s" and "allocated s count sel s'" and "0 < count"
  shows "is_chain s' sel"
proof -
  have geo: "same_geo s s'" using assms(2) by (simp add: allocated_def keeps_data_def)
  have "links s' sel"
    using assms(2,3) eof_fits(2) [of s] same_geo_defs(6) [OF geo]
    by (intro next_of_links [where eof = "fat_eof s"]) (auto simp: allocated_def)
  then show ?thesis
    using assms(2) same_geo_defs(3) [OF geo] by (auto simp: is_chain_def allocated_def fat_free_set_def)
qed

section \<open>Releasing a chain\<close>

text \<open>After some clusters of a chain have been released.\<close>

definition released :: "fat_state \<Rightarrow> u32 list \<Rightarrow> fat_state \<Rightarrow> bool" where
  "released s cs s' \<longleftrightarrow> fat_inv s' \<and> \<not> failed s' \<and> keeps_data s s' \<and> (reliable (blk s) \<longrightarrow> reliable (blk s'))
   \<and> (\<forall>c. fat_valid s c \<longrightarrow> ent s' c = (if c \<in> set cs then 0 else ent s c))"

lemma released_refl: "fat_inv s \<Longrightarrow> \<not> failed s \<Longrightarrow> released s [] s"
  by (simp add: released_def)

lemma card_free_bound: "fat_shape v \<Longrightarrow> card (fat_free_set v) \<le> unat (clusters v)"
  using card_mono [of "{c. fat_valid v c}" "fat_free_set v"] by (simp add: valid_card fat_free_set_def Collect_mono)

lemma free_one_triple:
  assumes "fat_inv s" and "fat_valid s c" and "c \<notin> set cs" and "ent s c \<noteq> 0"
  shows "triple (released s cs) (fat_free_one c) (\<lambda>_. released s (cs @ [c]))
    (\<lambda>_ s'. fat_inv s' \<and> keeps_data s s' \<and> \<not> reliable (blk s))"
proof (rule tripleI)
  fix s1
  assume r: "released s cs s1"
  then have inv1: "fat_inv s1" and nf1: "\<not> failed s1" and k1: "keeps_data s s1"
    and rel1: "reliable (blk s) \<longrightarrow> reliable (blk s1)"
    and e1: "\<And>c. fat_valid s c \<Longrightarrow> ent s1 c = (if c \<in> set cs then 0 else ent s c)"
    by (simp_all add: released_def)
  have geo1: "same_geo s s1" using k1 by (simp add: keeps_data_def)
  have ok1: "fat_ok s1" and cnt1: "unat (free_count s1) = card (fat_free_set s1)"
    using inv1 nf1 by (simp_all add: fat_inv_def)
  have v1: "fat_valid s1 c" using assms(2) by (simp add: same_geo_defs(3) [OF geo1])
  show "(\<exists>a s'. fat_free_one c s1 = Some (Ok a, s') \<and> released s (cs @ [c]) s') \<or>
      (\<exists>e s'. fat_free_one c s1 = Some (Err e, s') \<and> fat_inv s' \<and> keeps_data s s' \<and> \<not> reliable (blk s))"
    using tab_step_set [OF v1, of 0 Map.empty, OF take_bit_of_0] tab_step_refl [OF ok1 nf1]
  proof (cases rule: tripleE)
    case (Err e s2)
    have "broken s s2" by (rule broken_trans [OF k1 rel1 Err(2)])
    then show ?thesis using Err(1) broken_inv [of s s2] by (auto simp: fat_free_one_def broken_def)
  next
    case (Ok u s2)
    have k2: "keeps_data s1 s2" and ok2: "fat_ok s2" and nf2: "\<not> failed s2" and fc2: "free_count s2 = free_count s1"
      and h2: "hint s2 = hint s1" and rel2: "reliable (blk s1) \<longrightarrow> reliable (blk s2)"
      and e2: "\<And>d. fat_valid s1 d \<Longrightarrow> ent s2 d = (if d = c then 0 else ent s1 d)"
      using Ok(2) by (auto simp: tab_step_def)
    have geo2: "same_geo s1 s2" using k2 by (simp add: keeps_data_def)
    define h where "h = min (hint s2) c"
    define s3 where "s3 = s2\<lparr>hint := h, free_count := free_count s2 + 1\<rparr>"
    have "fat_shape s2" using ok2 by (simp add: fat_ok_def)
    then have "2 \<le> h" "h < clusters s2 + 2"
      using v1 same_geo_fields(9) [OF geo2] by (auto simp: fat_shape_def fat_valid_def h_def min_def)
    note up = fat_ok_upd [OF ok2 this, of "free_count s2 + 1", folded s3_def]
    have keeps: "keeps_data s s3" by (rule keeps_data_trans [OF keeps_data_trans [OF k1 k2] up(2)])
    have "c \<notin> fat_free_set s1" using e1 [OF assms(2)] assms(3,4) by (simp add: fat_free_set_def)
    moreover have "fat_free_set s2 = insert c (fat_free_set s1)"
      using e2 v1 same_geo_defs(3) [OF geo2] by (auto simp: fat_free_set_def)
    ultimately have card: "card (fat_free_set s3) = Suc (card (fat_free_set s1))" by (simp add: up(4))
    have "unat (free_count s1) + unat (1 :: u32) < 2 ^ LENGTH(32)"
    proof -
      have "fat_shape s1" using ok1 by (simp add: fat_ok_def)
      then have "unat (free_count s1) \<le> 268435438"
        using cnt1 card_free_bound [of s1] fat_limit_bound [of "kind s1"] by (simp add: fat_shape_def)
      then show ?thesis by simp
    qed
    then have "unat (free_count s1 + 1) = Suc (unat (free_count s1))"
      by (simp only: unat_add_lem [THEN iffD1]) simp
    then have "unat (free_count s3) = card (fat_free_set s3)" using card cnt1 by (simp add: s3_def fc2)
    then have "fat_inv s3" using up(1) by (simp add: fat_inv_def)
    moreover have "ent s3 d = (if d \<in> set (cs @ [c]) then 0 else ent s d)" if "fat_valid s d" for d
      using e1 [OF that] e2 [of d] that up(3) [of d] by (auto simp: same_geo_defs(3) [OF geo1])
    moreover have "\<not> failed s3" "reliable (blk s) \<longrightarrow> reliable (blk s3)" using nf2 rel1 rel2 by (simp_all add: s3_def)
    ultimately have "released s (cs @ [c]) s3" using keeps by (simp add: released_def)
    then show ?thesis using Ok(1) by (simp add: fat_free_one_def s3_def h_def)
  qed
qed

lemma is_chain_nonzero:
  assumes "fat_shape v" and "is_chain v cs" and "c \<in> set cs"
  shows "ent v c \<noteq> 0"
proof -
  have "links v cs \<Longrightarrow> \<forall>c\<in>set cs. fat_valid v c \<Longrightarrow> c \<in> set cs \<Longrightarrow> ent v c \<noteq> 0"
  proof (induction cs)
    case Nil
    then show ?case by simp
  next
    case (Cons d cs)
    have z: "\<not> fat_is_eof v 0" by (cases "kind v") (simp_all add: fat_is_eof_def fat_eof_def)
    have "ent v d \<noteq> 0"
    proof (cases "cs = []")
      case True
      then show ?thesis using Cons.prems(1) z by auto
    next
      case False
      then have "ent v d = hd cs" "fat_valid v (hd cs)" using Cons.prems(1,2) by (simp_all add: links_Cons)
      then show ?thesis by (auto simp: fat_valid_def)
    qed
    moreover have "ent v c \<noteq> 0" if "c \<in> set cs"
      by (rule Cons.IH) (use Cons.prems that in \<open>auto simp: links_Cons split: if_splits\<close>)
    ultimately show ?case using Cons.prems(3) by auto
  qed
  then show ?thesis using assms by (simp add: is_chain_def)
qed

lemma fat_bytes_pos: "fat_shape v \<Longrightarrow> 0 < fat_bytes v"
  by (simp add: fat_shape_def fat_bytes_def)

lemma released_hints:
  assumes "\<And>s1 m. triple (tab_step s1 m) op (\<lambda>_. tab_step s1 m) (\<lambda>_. tab_fault s1 m)"
  shows "triple (released s ds) op (\<lambda>_. released s ds) (\<lambda>_ s'. fat_inv s' \<and> keeps_data s s' \<and> \<not> reliable (blk s))"
proof (rule tripleI)
  fix s1
  assume r: "released s ds s1"
  then have inv1: "fat_inv s1" and nf1: "\<not> failed s1" and k1: "keeps_data s s1"
    and rel1: "reliable (blk s) \<longrightarrow> reliable (blk s1)" by (simp_all add: released_def)
  have ok1: "fat_ok s1" and cnt1: "unat (free_count s1) = card (fat_free_set s1)"
    using inv1 nf1 by (simp_all add: fat_inv_def)
  have geo1: "same_geo s s1" using k1 by (simp add: keeps_data_def)
  have fin: "released s ds s2" if st: "tab_step s1 Map.empty s2" for s2
  proof -
    have "fat_free_set s2 = fat_free_set s1" using tab_step_free_set [OF st] by (simp add: fat_free_set_def)
    then have "fat_inv s2" using st cnt1 by (simp add: fat_inv_def tab_step_def)
    then show ?thesis
      using st r rel1 keeps_data_trans [OF k1] same_geo_defs(3) [OF geo1] by (simp add: released_def tab_step_def)
  qed
  show "(\<exists>a s'. op s1 = Some (Ok a, s') \<and> released s ds s') \<or>
      (\<exists>e s'. op s1 = Some (Err e, s') \<and> fat_inv s' \<and> keeps_data s s' \<and> \<not> reliable (blk s))"
    using assms [of s1 Map.empty] tab_step_refl [OF ok1 nf1]
  proof (cases rule: tripleE)
    case (Ok a s2)
    then show ?thesis using fin by blast
  next
    case (Err e s2)
    have "fat_inv s2 \<and> keeps_data s s2"
    proof (cases "tab_step s1 Map.empty s2")
      case True
      then show ?thesis using fin by (simp add: released_def)
    next
      case False
      then have "broken s1 s2" using Err(2) by (simp add: tab_fault_def)
      then show ?thesis using broken_inv [of s1 s2] keeps_data_trans [OF k1] by (simp add: broken_def)
    qed
    then show ?thesis using Err rel1 by (auto simp: tab_fault_def)
  qed
qed

lemma fat_free_correct:
  assumes inv: "fat_inv s" and nf: "\<not> failed s"
    and chain: "fat_chain s first (MAX_FILE div fat_bytes s + 1) = Some (Ok cs)"
  shows "(\<exists>s'. fat_free first s = Some (Ok (), s') \<and> released s cs s') \<or>
    (\<exists>e s'. fat_free first s = Some (Err e, s') \<and> fat_inv s' \<and> keeps_data s s' \<and> \<not> reliable (blk s))"
proof -
  have ok: "fat_ok s" and count: "unat (free_count s) = card (fat_free_set s)" and shape: "fat_shape s"
    using inv nf by (simp_all add: fat_inv_def fat_ok_def)
  have cs: "distinct cs" "\<forall>c\<in>set cs. fat_valid s c \<and> ent s c \<noteq> 0"
  proof -
    have "cs = [] \<or> is_chain s cs"
      using chain fat_chain_Ok_iff [OF shape nf] nf by (cases "first = 0") (auto simp: fat_chain_def)
    then show "distinct cs" "\<forall>c\<in>set cs. fat_valid s c \<and> ent s c \<noteq> 0"
      using is_chain_nonzero [OF shape] by (auto simp: is_chain_def)
  qed
  have run: "fat_free first s = andThen fat_invalidate_hints (\<lambda>_. andThen (for_each fat_free_one cs) (\<lambda>_. fat_sync_hints)) s"
    using chain fat_bytes_pos [OF shape] by (simp add: fat_free_def)
  let ?E = "\<lambda>e s'. fat_inv s' \<and> keeps_data s s' \<and> \<not> reliable (blk s)"
  have hints: "triple (released s ds) fat_invalidate_hints (\<lambda>_. released s ds) ?E"
    "triple (released s ds) fat_sync_hints (\<lambda>_. released s ds) ?E" for ds
    by (rule released_hints [OF invalidate_hints_triple] released_hints [OF sync_hints_triple])+
  have "triple (released s []) (for_each fat_free_one cs) (\<lambda>_. released s cs) ?E"
  proof (rule triple_for_each)
    fix ys x zs
    assume "cs = ys @ x # zs"
    then show "triple (released s ys) (fat_free_one x) (\<lambda>_. released s (ys @ [x])) ?E"
      using cs by (intro free_one_triple [OF inv]) simp_all
  qed
  then have "triple (released s []) (andThen fat_invalidate_hints (\<lambda>_. andThen (for_each fat_free_one cs) (\<lambda>_. fat_sync_hints)))
      (\<lambda>_. released s cs) ?E"
    by (intro triple_andThen [OF hints(1)] triple_andThen [OF _ hints(2)])
  then show ?thesis
    using released_refl [OF inv nf] by (cases rule: tripleE) (simp_all add: run)
qed

end
