(* ===== verification/Byte_Slots.thy ===== *)
theory Byte_Slots
  imports Kernel_Prelude
begin

text \<open>
  What the two file systems share: paths split at separators, and directories as lists of 32-byte
  slots with what writing a run of slots and appending zeros do to that list.
\<close>

text \<open>\<open>str::split\<close> with a set of separators.\<close>

fun split_on :: "('a \<Rightarrow> bool) \<Rightarrow> 'a list \<Rightarrow> 'a list list" where
  "split_on p [] = [[]]"
| "split_on p (c # cs) =
     (if p c then [] # split_on p cs
      else (case split_on p cs of [] \<Rightarrow> [[c]] | w # ws \<Rightarrow> (c # w) # ws))"

text \<open>\<open>data.chunks_exact(32)\<close>.\<close>

definition chunks32 :: "bytes \<Rightarrow> bytes list" where
  "chunks32 data = map (\<lambda>i. subrange (32 * i) 32 data) [0..<length data div 32]"

lemma length_chunks32 [simp]: "length (chunks32 data) = length data div 32"
  by (simp add: chunks32_def)

lemma nth_chunks32: "i < length data div 32 \<Longrightarrow> chunks32 data ! i = subrange (32 * i) 32 data"
  by (simp add: chunks32_def)

lemma chunks32_Nil [simp]: "chunks32 [] = []"
  by (simp add: chunks32_def)

lemma subrange_append_right: "length e = n \<Longrightarrow> n \<le> off \<Longrightarrow> subrange off k (e @ xs) = subrange (off - n) k xs"
  by (simp add: subrange_def)

lemma chunks32_append: "length e = 32 \<Longrightarrow> chunks32 (e @ xs) = e # chunks32 xs"
proof (rule nth_equalityI)
  assume len: "length e = 32"
  show "length (chunks32 (e @ xs)) = length (e # chunks32 xs)" using len by simp
  fix i
  assume "i < length (chunks32 (e @ xs))"
  then have i: "i < Suc (length xs div 32)" using len by simp
  have idx: "i < length (e @ xs) div 32" using i len by simp
  show "chunks32 (e @ xs) ! i = (e # chunks32 xs) ! i"
  proof (cases i)
    case 0
    then show ?thesis using nth_chunks32 [OF idx] len by (simp add: subrange_def)
  next
    case (Suc j)
    have "32 * i = 32 + 32 * j" by (simp add: Suc)
    then have "subrange (32 * i) 32 (e @ xs) = subrange (32 * j) 32 xs"
      using subrange_append_right [OF len, of "32 * i" 32 xs] by simp
    then show ?thesis using nth_chunks32 [OF idx] nth_chunks32 [of j xs] i Suc by simp
  qed
qed

lemma chunks32_concat: "\<forall>e\<in>set es. length e = 32 \<Longrightarrow> chunks32 (concat es) = es"
  by (induction es) (simp_all add: chunks32_append)

lemma length_concat_32: "\<forall>e\<in>set es. length e = 32 \<Longrightarrow> length (concat es) = 32 * length es"
  by (induction es) simp_all

lemma subrange_concat:
  fixes es :: "bytes list"
  assumes "\<forall>e\<in>set es. length e = 32" and "i < length es"
  shows "subrange (32 * i) 32 (concat es) = es ! i"
proof -
  have "i < length (concat es) div 32" using assms by (simp add: length_concat_32)
  from nth_chunks32 [OF this] chunks32_concat [OF assms(1)] show ?thesis by simp
qed

lemma chunks32_put:
  assumes es: "\<forall>e\<in>set es. length e = 32" and fits: "32 * s + 32 * length es \<le> length data"
  shows "chunks32 (put_at (32 * s) (concat es) data) =
    take s (chunks32 data) @ es @ drop (s + length es) (chunks32 data)"
proof (rule nth_equalityI)
  have len: "length (put_at (32 * s) (concat es) data) = length data"
    using fits by (simp add: length_concat_32 [OF es])
  have n: "s + length es \<le> length data div 32" using fits by simp
  show "length (chunks32 (put_at (32 * s) (concat es) data)) =
      length (take s (chunks32 data) @ es @ drop (s + length es) (chunks32 data))"
    using len n by simp
  fix i
  assume "i < length (chunks32 (put_at (32 * s) (concat es) data))"
  then have i: "i < length data div 32" by (simp add: len)
  then have whole: "32 * i + 32 \<le> length data" by simp
  have left: "chunks32 (put_at (32 * s) (concat es) data) ! i = subrange (32 * i) 32 (put_at (32 * s) (concat es) data)"
    using i by (intro nth_chunks32) (simp add: len)
  show "chunks32 (put_at (32 * s) (concat es) data) ! i =
      (take s (chunks32 data) @ es @ drop (s + length es) (chunks32 data)) ! i"
  proof (cases "s \<le> i \<and> i < s + length es")
    case True
    then have inside: "i - s < length es" by auto
    then have room: "32 * (i - s) + 32 \<le> 32 * length es" using inside by simp
    have "subrange (32 * i) 32 (put_at (32 * s) (concat es) data) = subrange (32 * (i - s)) 32 (concat es)"
    proof (rule nth_equalityI)
      show "length (subrange (32 * i) 32 (put_at (32 * s) (concat es) data)) = length (subrange (32 * (i - s)) 32 (concat es))"
        using room whole len by (simp add: length_concat_32 [OF es])
      fix j
      assume "j < length (subrange (32 * i) 32 (put_at (32 * s) (concat es) data))"
      then have j: "j < 32" by simp
      have "32 * (i - s) + j < length (concat es)" using room j by (simp add: length_concat_32 [OF es])
      moreover have "32 * i + j - 32 * s = 32 * (i - s) + j" using True by (simp add: diff_mult_distrib2)
      ultimately show "subrange (32 * i) 32 (put_at (32 * s) (concat es) data) ! j = subrange (32 * (i - s)) 32 (concat es) ! j"
        using j True whole fits len by (simp add: nth_put_at length_concat_32 [OF es])
    qed
    also have "\<dots> = es ! (i - s)" by (rule subrange_concat [OF es inside])
    finally show ?thesis using left True n inside by (simp add: nth_append)
  next
    case False
    then have "subrange (32 * i) 32 (put_at (32 * s) (concat es) data) = subrange (32 * i) 32 data"
      using whole fits by (intro subrange_put_at_other) (auto simp: length_concat_32 [OF es])
    then have "chunks32 (put_at (32 * s) (concat es) data) ! i = chunks32 data ! i"
      using left nth_chunks32 [OF i] by simp
    then show ?thesis using False i n by (auto simp: nth_append)
  qed
qed

lemma chunks32_update:
  assumes "m < length data div 32"
  shows "chunks32 (data[32 * m := b]) = (chunks32 data)[m := (chunks32 data ! m)[0 := b]]"
proof (rule nth_equalityI)
  show "length (chunks32 (data[32 * m := b])) = length ((chunks32 data)[m := (chunks32 data ! m)[0 := b]])" by simp
  fix i
  assume "i < length (chunks32 (data[32 * m := b]))"
  then have i: "i < length data div 32" by simp
  then have whole: "32 * i + 32 \<le> length data" by simp
  have l: "chunks32 (data[32 * m := b]) ! i = subrange (32 * i) 32 (data[32 * m := b])"
    using i by (intro nth_chunks32) simp
  show "chunks32 (data[32 * m := b]) ! i = (chunks32 data)[m := (chunks32 data ! m)[0 := b]] ! i"
  proof (cases "i = m")
    case True
    have "subrange (32 * m) 32 (data[32 * m := b]) = (subrange (32 * m) 32 data)[0 := b]"
      using whole True by (intro nth_equalityI) (auto simp: nth_list_update)
    then show ?thesis using l True i nth_chunks32 [OF assms] by simp
  next
    case False
    have "32 * m \<noteq> 32 * i + j" if "j < 32" for j
    proof
      assume "32 * m = 32 * i + j"
      then have "(32 * m) div 32 = (32 * i + j) div 32" by simp
      with that False show False by simp
    qed
    then have "subrange (32 * i) 32 (data[32 * m := b]) = subrange (32 * i) 32 data"
      using whole by (intro nth_equalityI) auto
    then show ?thesis using l False i nth_chunks32 [OF i] by simp
  qed
qed

lemma chunks32_subrange:
  assumes "32 * (s + n) \<le> length data"
  shows "chunks32 (subrange (32 * s) (32 * n) data) = take n (drop s (chunks32 data))"
proof (rule nth_equalityI)
  have sn: "s + n \<le> length data div 32" using assms by simp
  have len: "length (subrange (32 * s) (32 * n) data) = 32 * n" using assms by simp
  show "length (chunks32 (subrange (32 * s) (32 * n) data)) = length (take n (drop s (chunks32 data)))"
    using sn len by simp
  fix i
  assume "i < length (chunks32 (subrange (32 * s) (32 * n) data))"
  then have i: "i < n" by (simp add: len)
  then have "32 * i + 32 \<le> 32 * n" by simp
  then have "subrange (32 * i) 32 (subrange (32 * s) (32 * n) data) = subrange (32 * (s + i)) 32 data"
    using assms by (intro nth_equalityI) (auto simp: algebra_simps)
  then show "chunks32 (subrange (32 * s) (32 * n) data) ! i = take n (drop s (chunks32 data)) ! i"
    using i sn nth_chunks32 [of i "subrange (32 * s) (32 * n) data"] nth_chunks32 [of "s + i" data] len by simp
qed

lemma zero_slot:
  assumes q: "length data = 32 * q" "\<not> i < q" "i < q + m"
  shows "subrange (32 * i) 32 (data @ replicate (32 * m) 0) = replicate 32 (0::u8)"
proof -
  have "drop (32 * i) data = []" using q by simp
  moreover have "32 * i - length data = 32 * (i - q)" using q by simp
  moreover have "32 * m - 32 * (i - q) = 32 * Suc (q + m - i - 1)" using q by simp
  ultimately show ?thesis unfolding subrange_def drop_append drop_replicate by (simp only: append_Nil take_replicate) simp
qed

lemma zero_chunk:
  assumes q: "length data = 32 * q" "\<not> i < q"  "i < q + m"
  shows  "(chunks32 data @ replicate m (replicate 32 (0::u8))) ! i = replicate 32 0"
proof -
  have "i - q < m" using q by simp
  then show ?thesis using q(2) by (simp add: nth_append q(1))
qed

lemma chunks32_zeros:
  assumes "32 dvd length data"
  shows "chunks32 (data @ replicate (32 * m) 0) = chunks32 data @ replicate m (replicate 32 0)"
proof -
  obtain q where q: "length data = 32 * q" using assms by blast
  show ?thesis
  proof (rule nth_equalityI)
    show "length (chunks32 (data @ replicate (32 * m) 0)) = length (chunks32 data @ replicate m (replicate 32 0))"
      by (simp add: q)
    fix i assume "i < length (chunks32 (data @ replicate (32 * m) 0))"
    then have i: "i < q + m" by (simp add: q)
    then have n: "chunks32 (data @ replicate (32 * m) 0) ! i = subrange (32 * i) 32 (data @ replicate (32 * m) 0)"
      by (simp add: nth_chunks32 q)
    show "chunks32 (data @ replicate (32 * m) 0) ! i = (chunks32 data @ replicate m (replicate 32 0)) ! i"
    proof (cases "i < q")
      case True
      then have "32 * i + 32 \<le> length data" by (simp add: q)
      then have "subrange (32 * i) 32 (data @ replicate (32 * m) 0) = subrange (32 * i) 32 data" by (simp add: subrange_def)
      then show ?thesis unfolding n using True by (simp add: nth_append nth_chunks32 q)
    next
      case False
      show ?thesis unfolding n zero_slot [OF q False i] zero_chunk [OF q False i] ..
    qed
  qed
qed

end
