(* ===== verification/Fat_Names.thy ===== *)
theory Fat_Names
  imports Fat_Table Byte_Slots
begin

text \<open>
  Names and directory entries of FAT volumes (\<open>src/fs/fat.rs\<close>): path components, case-insensitive
  comparison, 8.3 aliases in code page 437, VFAT long names in UTF-16, the parser \<open>records\<close> of a
  directory and the writer \<open>entry_set\<close> of an entry set, the choice of a unique short name and the
  search for free slots.

  A Rust \<open>str\<close> is the list of its Unicode scalar values. The case tables of the Unicode standard
  (\<open>char::to_uppercase\<close>, \<open>char::to_lowercase\<close>) are data of the language library and a parameter
  \<open>uc\<close> of the definitions; what is proved holds for any tables.
\<close>

section \<open>Strings\<close>

type_synonym rstr = "u32 list"

record unicode =
  to_upper :: "u32 \<Rightarrow> u32 list"
  to_lower :: "u32 \<Rightarrow> u32 list"

definition scalar :: "u32 \<Rightarrow> bool" where
  "scalar c \<longleftrightarrow> c < 0xd800 \<or> 0xe000 \<le> c \<and> c < 0x110000"

text \<open>\<open>encode_utf16\<close> and \<open>String::from_utf16\<close>.\<close>

definition utf16_char :: "u32 \<Rightarrow> u16 list" where
  "utf16_char c = (if c < 0x10000 then [ucast c]
     else [0xd800 OR ucast (drop_bit 10 (c - 0x10000)), 0xdc00 OR (ucast (c - 0x10000) AND 0x3ff)])"

definition encode_utf16 :: "rstr \<Rightarrow> u16 list" where
  "encode_utf16 s = concat (map utf16_char s)"

fun from_utf16 :: "u16 list \<Rightarrow> rstr option" where
  "from_utf16 [] = Some []"
| "from_utf16 (u # us) =
     (if u < 0xd800 \<or> 0xdfff < u then map_option ((#) (ucast u)) (from_utf16 us)
      else if 0xdbff < u then None
      else (case us of
              [] \<Rightarrow> None
            | v # vs \<Rightarrow>
                if 0xdc00 \<le> v \<and> v \<le> 0xdfff
                then map_option ((#) (0x10000 + (push_bit 10 (ucast u AND 0x3ff) OR (ucast v AND 0x3ff))))
                       (from_utf16 vs)
                else None))"

text \<open>\<open>str::len\<close> counts the bytes of the UTF-8 encoding.\<close>

definition utf8_len :: "rstr \<Rightarrow> nat" where
  "utf8_len s = sum_list (map (\<lambda>c. if c < 0x80 then 1 else if c < 0x800 then 2 else if c < 0x10000 then 3 else 4) s)"

definition same :: "unicode \<Rightarrow> rstr \<Rightarrow> rstr \<Rightarrow> bool" where
  "same uc a b \<longleftrightarrow> concat (map (to_upper uc) a) = concat (map (to_upper uc) b)"

definition components_step :: "rstr list \<Rightarrow> rstr \<Rightarrow> rstr list" where
  "components_step parts part =
     (if part = [] \<or> part = [0x2e] then parts
      else if part = [0x2e, 0x2e] then butlast parts
      else parts @ [part])"

definition components :: "rstr \<Rightarrow> rstr list" where
  "components path = foldl components_step [] (split_on (\<lambda>c. c = 0x2f \<or> c = 0x5c) path)"

section \<open>Short names\<close>

definition checksum :: "bytes \<Rightarrow> u8" where
  "checksum sh = foldl (\<lambda>acc b. word_rotr 1 acc + b) 0 sh"

definition CP437 :: "u32 list" where
  "CP437 = [
     0xc7, 0xfc, 0xe9, 0xe2, 0xe4, 0xe0, 0xe5, 0xe7, 0xea, 0xeb, 0xe8, 0xef,
     0xee, 0xec, 0xc4, 0xc5, 0xc9, 0xe6, 0xc6, 0xf4, 0xf6, 0xf2, 0xfb, 0xf9,
     0xff, 0xd6, 0xdc, 0xa2, 0xa3, 0xa5, 0x20a7, 0x192, 0xe1, 0xed, 0xf3, 0xfa,
     0xf1, 0xd1, 0xaa, 0xba, 0xbf, 0x2310, 0xac, 0xbd, 0xbc, 0xa1, 0xab, 0xbb,
     0x2591, 0x2592, 0x2593, 0x2502, 0x2524, 0x2561, 0x2562, 0x2556, 0x2555, 0x2563, 0x2551, 0x2557,
     0x255d, 0x255c, 0x255b, 0x2510, 0x2514, 0x2534, 0x252c, 0x251c, 0x2500, 0x253c, 0x255e, 0x255f,
     0x255a, 0x2554, 0x2569, 0x2566, 0x2560, 0x2550, 0x256c, 0x2567, 0x2568, 0x2564, 0x2565, 0x2559,
     0x2558, 0x2552, 0x2553, 0x256b, 0x256a, 0x2518, 0x250c, 0x2588, 0x2584, 0x258c, 0x2590, 0x2580,
     0x3b1, 0xdf, 0x393, 0x3c0, 0x3a3, 0x3c3, 0xb5, 0x3c4, 0x3a6, 0x398, 0x3a9, 0x3b4,
     0x221e, 0x3c6, 0x3b5, 0x2229, 0x2261, 0xb1, 0x2265, 0x2264, 0x2320, 0x2321, 0xf7, 0x2248,
     0xb0, 0x2219, 0xb7, 0x221a, 0x207f, 0xb2, 0x25a0, 0xa0]"

text \<open>The characters of one part of an alias; \<open>first\<close> is the base name, whose leading 5 stands for 0xe5.\<close>

definition alias_char :: "unicode \<Rightarrow> bool \<Rightarrow> u8 \<Rightarrow> rstr" where
  "alias_char uc lower byte =
     (let c = (if byte < 128 then ucast byte else CP437 ! unat (byte - 128))
      in if lower then to_lower uc c else [c])"

definition rtrim :: "bytes \<Rightarrow> bytes" where
  "rtrim part = rev (dropWhile (\<lambda>c. c = 0x20) (rev part))"

definition short_alias :: "unicode \<Rightarrow> bytes \<Rightarrow> u8 \<Rightarrow> rstr" where
  "short_alias uc sh cas =
     (let base = rtrim (take 8 sh);
          ext = rtrim (drop 8 sh);
          base' = (case base of [] \<Rightarrow> [] | b # bs \<Rightarrow> (if b = 5 then 0xe5 else b) # bs)
      in concat (map (alias_char uc (cas AND 8 \<noteq> 0)) base') @
         (if ext = [] then [] else [0x2e]) @
         concat (map (alias_char uc (cas AND 16 \<noteq> 0)) ext))"

definition valid_name :: "rstr \<Rightarrow> bool" where
  "valid_name name \<longleftrightarrow> \<not> (name = [] \<or> name = [0x2e] \<or> name = [0x2e, 0x2e]
     \<or> last name = 0x20 \<or> last name = 0x2e
     \<or> 255 < length (encode_utf16 name)
     \<or> (\<exists>c\<in>set name. c < 0x20 \<or> c \<in> {0x22, 0x2a, 0x2f, 0x3a, 0x3c, 0x3e, 0x3f, 0x5c, 0x7c}))"

definition validate_name :: "rstr \<Rightarrow> string + unit" where
  "validate_name name = (if valid_name name then Ok () else Err ''invalid FAT file name'')"

section \<open>Parsing a directory\<close>

record Record =
  name :: rstr
  alias_of :: rstr
  short :: bytes
  attr :: u8
  cluster :: u32
  size_of :: u32
  offset :: nat
  start :: nat

definition is_dir :: "Record \<Rightarrow> bool" where
  "is_dir r \<longleftrightarrow> attr r AND 0x10 \<noteq> 0"

definition LFN_POS :: "nat list" where
  "LFN_POS = [1, 3, 5, 7, 9, 14, 16, 18, 20, 22, 24, 28, 30]"

text \<open>The variables of the parser that carry a long name from entry to entry.\<close>

record lfn =
  utf16 :: "u16 list"
  remaining :: nat
  ltotal :: nat
  csum :: u8
  lfn_start :: nat

definition lfn_init :: lfn where
  "lfn_init = \<lparr>utf16 = replicate 260 0xffff, remaining = 0, ltotal = 0, csum = 0, lfn_start = 0\<rparr>"

definition lfn_clear :: "lfn \<Rightarrow> lfn" where
  "lfn_clear st = st\<lparr>remaining := 0, ltotal := 0\<rparr>"

definition lfn_first :: "nat \<Rightarrow> bytes \<Rightarrow> lfn \<Rightarrow> lfn" where
  "lfn_first index e st =
     (let ordinal = unat (e ! 0 AND 0x1f) in
      if e ! 0 AND 0x40 = 0 then st
      else if 0 < ordinal \<and> ordinal \<le> 20 \<and> e ! 0 AND 0xa0 = 0
           then \<lparr>utf16 = replicate 260 0xffff, remaining = ordinal, ltotal = ordinal, csum = e ! 13,
                 lfn_start = index * 32\<rparr>
           else lfn_clear st)"

definition lfn_step :: "nat \<Rightarrow> bytes \<Rightarrow> lfn \<Rightarrow> lfn" where
  "lfn_step index e st =
     (let ordinal = unat (e ! 0 AND 0x1f); st' = lfn_first index e st in
      if remaining st' = 0 \<or> ordinal \<noteq> remaining st' \<or> e ! 13 \<noteq> csum st' \<or> e ! 12 \<noteq> 0
         \<or> rd16 e 26 \<noteq> 0 \<or> e ! 0 AND 0xa0 \<noteq> 0
      then lfn_clear st'
      else st'\<lparr>utf16 := put_at ((ordinal - 1) * 13) (map (rd16 e) LFN_POS) (utf16 st'),
               remaining := remaining st' - 1\<rparr>)"

text \<open>The long name that the collected entries spell, when they belong to \<open>short\<close>.\<close>

definition long_name :: "lfn \<Rightarrow> bytes \<Rightarrow> rstr option" where
  "long_name st sh =
     (if 0 < ltotal st \<and> remaining st = 0 \<and> csum st = checksum sh
      then let slice = take (ltotal st * 13) (utf16 st);
               len = (case position (\<lambda>c. c = 0) slice of None \<Rightarrow> length slice | Some n \<Rightarrow> n)
           in if 0 < len \<and> len \<le> 255 \<and> 0xffff \<notin> set (take len slice)
                 \<and> (\<forall>c\<in>set (drop (len + (if len < length slice then 1 else 0)) slice). c = 0xffff)
              then (case from_utf16 (take len slice) of
                      None \<Rightarrow> None
                    | Some long \<Rightarrow> if valid_name long then Some long else None)
              else None
      else None)"

definition entry_cluster :: "Kind \<Rightarrow> bytes \<Rightarrow> u32" where
  "entry_cluster k e =
     ucast (rd16 e 26) OR (if k = Fat32 then push_bit 16 (ucast (rd16 e 20) AND 0xfff) else 0)"

text \<open>The short entry that ends a set; volume labels and the dot entries are skipped.\<close>

definition short_record :: "unicode \<Rightarrow> Kind \<Rightarrow> nat \<Rightarrow> bytes \<Rightarrow> lfn \<Rightarrow> Record option" where
  "short_record uc k index e st =
     (let sh = take 11 e; al = short_alias uc sh (e ! 12); long = long_name st sh in
      if e ! 11 AND 8 \<noteq> 0 \<or> al = [0x2e] \<or> al = [0x2e, 0x2e] then None
      else Some \<lparr>name = (case long of None \<Rightarrow> al | Some l \<Rightarrow> l), alias_of = al, short = sh, attr = e ! 11,
                 cluster = entry_cluster k e, size_of = rd32 e 28, offset = index * 32,
                 start = (case long of None \<Rightarrow> index * 32 | Some _ \<Rightarrow> lfn_start st)\<rparr>)"

fun records_loop :: "unicode \<Rightarrow> Kind \<Rightarrow> nat \<Rightarrow> bytes list \<Rightarrow> lfn \<Rightarrow> Record list" where
  "records_loop uc k index [] st = []"
| "records_loop uc k index (e # es) st =
     (if e ! 0 = 0 then []
      else if e ! 0 = 0xe5 then records_loop uc k (Suc index) es (lfn_clear st)
      else if e ! 11 = 0x0f then records_loop uc k (Suc index) es (lfn_step index e st)
      else (case short_record uc k index e st of None \<Rightarrow> [] | Some r \<Rightarrow> [r])
           @ records_loop uc k (Suc index) es (lfn_clear st))"

definition records :: "unicode \<Rightarrow> bytes \<Rightarrow> Kind \<Rightarrow> Record list" where
  "records uc data k = records_loop uc k 0 (chunks32 data) lfn_init"

section \<open>Writing entries\<close>

definition is_ascii_alnum :: "u32 \<Rightarrow> bool" where
  "is_ascii_alnum c \<longleftrightarrow> 0x30 \<le> c \<and> c \<le> 0x39 \<or> 0x41 \<le> c \<and> c \<le> 0x5a \<or> 0x61 \<le> c \<and> c \<le> 0x7a"

definition ascii_upper :: "u32 \<Rightarrow> u32" where
  "ascii_upper c = (if 0x61 \<le> c \<and> c \<le> 0x7a then c - 0x20 else c)"

definition short_char :: "u32 \<Rightarrow> u8" where
  "short_char c =
     (if is_ascii_alnum c \<or> c \<in> {0x24, 0x25, 0x27, 0x2d, 0x5f, 0x40, 0x7e, 0x60, 0x21, 0x28, 0x29, 0x7b,
                                  0x7d, 0x5e, 0x23, 0x26}
      then ucast (ascii_upper c) else 0x5f)"

text \<open>\<open>rsplit_once('.')\<close> with a non-empty base, or the whole name and no extension.\<close>

definition base_ext :: "rstr \<Rightarrow> rstr \<times> rstr" where
  "base_ext nm = (case position (\<lambda>c. c = 0x2e) (rev nm) of
     None \<Rightarrow> (nm, [])
   | Some i \<Rightarrow> let base = take (length nm - i - 1) nm in
               if base = [] then (nm, []) else (base, drop (length nm - i) nm))"

definition short_simple :: "rstr \<Rightarrow> rstr \<Rightarrow> bool" where
  "short_simple base ext \<longleftrightarrow> base \<noteq> [] \<and> utf8_len base \<le> 8 \<and> utf8_len ext \<le> 3
     \<and> (\<forall>c\<in>set (base @ ext). c < 0x80 \<and> short_char c = ucast (ascii_upper c))"

definition short_direct :: "rstr \<Rightarrow> rstr \<Rightarrow> bytes" where
  "short_direct base ext = put_at 8 (map short_char ext) (put_at 0 (map short_char base) (replicate 11 0x20))"

fun digit_loop :: "nat \<Rightarrow> bytes \<Rightarrow> bytes" where
  "digit_loop n acc = (if n = 0 then acc else digit_loop (n div 10) ((0x30 + of_nat (n mod 10)) # acc))"

declare digit_loop.simps [simp del]

definition short_numbered :: "bytes \<Rightarrow> rstr \<Rightarrow> nat \<Rightarrow> bytes" where
  "short_numbered clean ext number =
     (let digits = digit_loop number [];
          prefix = min (7 - length digits) (length clean)
      in put_at 8 (map short_char (take 3 ext))
           (put_at (prefix + 1) digits
             (put_at prefix [0x7e] (put_at 0 (take prefix clean) (replicate 11 0x20)))))"

text \<open>The loop over the numbers below one million.\<close>

function short_search :: "bytes \<Rightarrow> rstr \<Rightarrow> bytes list \<Rightarrow> nat \<Rightarrow> bytes option" where
  "short_search clean ext used number =
     (if 1000000 \<le> number then None
      else if short_numbered clean ext number \<notin> set used then Some (short_numbered clean ext number)
      else short_search clean ext used (Suc number))"
  by pat_completeness auto
termination by (relation "measure (\<lambda>(c, e, u, n). 1000000 - n)") auto

declare short_search.simps [simp del]

definition short_name :: "rstr \<Rightarrow> Record list \<Rightarrow> string + bytes" where
  "short_name nm existing =
     (let (base, ext) = base_ext nm;
          used = map short existing;
          clean = map short_char (filter (\<lambda>c. c \<noteq> 0x20 \<and> c \<noteq> 0x2e) base)
      in if short_simple base ext \<and> short_direct base ext \<notin> set used then Ok (short_direct base ext)
         else (case short_search clean ext used 1 of
                 Some sh \<Rightarrow> Ok sh
               | None \<Rightarrow> Err ''short-name aliases exhausted''))"

definition put_cluster :: "bytes \<Rightarrow> u32 \<Rightarrow> Kind \<Rightarrow> bytes" where
  "put_cluster e first k =
     put_at 20 (to_le 2 (if k = Fat32 then ucast (drop_bit 16 first) else 0 :: u16))
       (put_at 26 (to_le 2 (ucast first :: u16)) e)"

text \<open>Entry \<open>index\<close> of the \<open>count\<close> long-name entries, last part of the name first.\<close>

definition lfn_unit :: "u16 list \<Rightarrow> nat \<Rightarrow> u16" where
  "lfn_unit units off = (if off < length units then units ! off else if off = length units then 0 else 0xffff)"

definition lfn_entry :: "u16 list \<Rightarrow> nat \<Rightarrow> u8 \<Rightarrow> nat \<Rightarrow> bytes" where
  "lfn_entry units count cks index =
     (let ordinal = count - index;
          e = (replicate 32 0)[0 := of_nat ordinal OR (if index = 0 then 0x40 else 0), 11 := 0x0f, 13 := cks]
      in foldl (\<lambda>e i. put_at (LFN_POS ! i) (to_le 2 (lfn_unit units ((ordinal - 1) * 13 + i))) e) e [0..<13])"

definition short_entry :: "bytes \<Rightarrow> u32 \<Rightarrow> u32 \<Rightarrow> u8 \<Rightarrow> Kind \<Rightarrow> bytes" where
  "short_entry sh first sz at k =
     put_at 28 (to_le 4 sz)
       (put_cluster
         (foldl (\<lambda>e off. put_at off (to_le 2 (0x21 :: u16)) e) ((put_at 0 sh (replicate 32 0))[11 := at]) [16, 18, 24])
         first k)"

definition lfn_count :: "unicode \<Rightarrow> rstr \<Rightarrow> bytes \<Rightarrow> nat" where
  "lfn_count uc nm sh = (if nm = short_alias uc sh 0 then 0 else (length (encode_utf16 nm) + 12) div 13)"

definition entry_set :: "unicode \<Rightarrow> rstr \<Rightarrow> bytes \<Rightarrow> u32 \<Rightarrow> u32 \<Rightarrow> u8 \<Rightarrow> Kind \<Rightarrow> bytes" where
  "entry_set uc nm sh first sz at k =
     (let units = encode_utf16 nm; count = lfn_count uc nm sh
      in concat (map (lfn_entry units count (checksum sh)) [0..<count]) @ short_entry sh first sz at k)"

fun free_slots_loop :: "nat \<Rightarrow> nat \<Rightarrow> bytes list \<Rightarrow> nat \<Rightarrow> bool \<Rightarrow> nat option" where
  "free_slots_loop needed index [] run fin = None"
| "free_slots_loop needed index (e # es) run fin =
     (let fin' = (fin \<or> e ! 0 = 0) in
      if fin' \<or> e ! 0 = 0xe5
      then if Suc run = needed then Some ((index + 1 - needed) * 32)
           else free_slots_loop needed (Suc index) es (Suc run) fin'
      else free_slots_loop needed (Suc index) es 0 fin')"

definition free_slots :: "bytes \<Rightarrow> nat \<Rightarrow> nat option" where
  "free_slots data needed = free_slots_loop needed 0 (chunks32 data) 0 False"

end
