(* ===== verification/Fat_Entries.thy ===== *)
theory Fat_Entries
  imports Fat_Names
begin

text \<open>
  Directory entries of a FAT volume: what \<open>entry_set\<close> writes is what \<open>records\<close> reads back, for any
  name of up to 255 UTF-16 units, wherever in a directory the set stands; the short names that
  \<open>short_name\<close> chooses are well-formed and unused; \<open>free_slots\<close> finds room that no live entry uses.
\<close>

section \<open>UTF-16\<close>

lemma ucast_16_32:
  "c < 0x10000 \<Longrightarrow> (ucast (ucast c :: u16) :: u32) = c"
  by (simp add: word_unat_eq_iff unsigned_ucast_eq word_less_nat_alt take_bit_nat_eq_self unsigned_take_bit_eq)

lemma small_bits: "(x :: 'a::len word) < 2 ^ k \<Longrightarrow> bit x n \<Longrightarrow> n < k"
  by (metis bit_take_bit_iff less_mask_eq take_bit_eq_mask)

lemma surrogate_bits:
  "n < 10 \<Longrightarrow> \<not> bit (0xd800 :: int) n" "n < 10 \<Longrightarrow> \<not> bit (0xdc00 :: int) n"
  "bit (0x3ff :: int) n \<longleftrightarrow> n < 10"
proof -
  show "n < 10 \<Longrightarrow> \<not> bit (0xd800 :: int) n" "n < 10 \<Longrightarrow> \<not> bit (0xdc00 :: int) n"
    by (simp_all add: bit_iff_odd less_Suc_eq numeral_eq_Suc) auto
  have "(0x3ff :: int) = mask 10" by (simp add: mask_eq_exp_minus_1)
  then show "bit (0x3ff :: int) n \<longleftrightarrow> n < 10" by (simp only: bit_mask_iff) simp
qed

text \<open>A surrogate with payload \<open>x\<close>: its range, and the payload back.\<close>

lemma surrogate:
  assumes "(x :: u16) < 0x400"
  shows "0xd800 \<le> 0xd800 OR x" "0xd800 OR x \<le> 0xdbff" "0xdc00 \<le> 0xdc00 OR x" "0xdc00 OR x \<le> 0xdfff"
    "(ucast (0xd800 OR x) AND 0x3ff :: u32) = ucast x" "(ucast (0xdc00 OR x) AND 0x3ff :: u32) = ucast x"
proof -
  have x: "bit x n \<Longrightarrow> n < 10" for n using small_bits [of x 10 n] assms by simp
  have ux: "unat x < 0x400" using assms by (simp add: word_less_nat_alt)
  have "0xd800 OR x = 0xd800 + x"
    by (rule disjunctive_add [symmetric]) (use x surrogate_bits in auto)
  moreover have "unat (0xd800 + x) = 0xd800 + unat x"
    using ux by (subst unat_add_lem [THEN iffD1]) simp_all
  ultimately have d8: "unat (0xd800 OR x) = 0xd800 + unat x" by simp
  have "0xdc00 OR x = 0xdc00 + x"
    by (rule disjunctive_add [symmetric]) (use x surrogate_bits in auto)
  moreover have "unat (0xdc00 + x) = 0xdc00 + unat x"
    using ux by (subst unat_add_lem [THEN iffD1]) simp_all
  ultimately have dc: "unat (0xdc00 OR x) = 0xdc00 + unat x" by simp
  show "0xd800 \<le> 0xd800 OR x" "0xd800 OR x \<le> 0xdbff" "0xdc00 \<le> 0xdc00 OR x" "0xdc00 OR x \<le> 0xdfff"
    using ux by (simp_all add: word_le_nat_alt d8 dc)
  show "(ucast (0xd800 OR x) AND 0x3ff :: u32) = ucast x"
    by (rule bit_word_eqI) (use x surrogate_bits in \<open>auto simp: bit_and_iff bit_or_iff bit_ucast_iff\<close>)
  show "(ucast (0xdc00 OR x) AND 0x3ff :: u32) = ucast x"
    by (rule bit_word_eqI) (use x surrogate_bits in \<open>auto simp: bit_and_iff bit_or_iff bit_ucast_iff\<close>)
qed

lemma from_utf16_char:
  assumes "scalar c"
  shows "from_utf16 (utf16_char c @ us) = map_option ((#) c) (from_utf16 us)"
proof (cases "c < 0x10000")
  case True
  have small: "unat (ucast c :: u16) = unat c"
    using True by (simp add: unsigned_ucast_eq word_less_nat_alt take_bit_nat_eq_self)
  have "(ucast c :: u16) < 0xd800 \<or> 0xdfff < (ucast c :: u16)"
    using assms True by (auto simp: scalar_def word_less_nat_alt word_le_nat_alt small)
  then show ?thesis using ucast_16_32 [OF True] True by (simp add: utf16_char_def)
next
  case False
  define d where "d = c - 0x10000"
  define x where "x = (ucast (drop_bit 10 d) :: u16)"
  define y where "y = (ucast d AND 0x3ff :: u16)"
  have ud: "unat d < 0x100000"
    using assms False by (simp add: d_def scalar_def unat_sub word_less_nat_alt word_le_nat_alt)
  have dd: "bit d n \<Longrightarrow> n < 20" for n
    using small_bits [of d 20 n] ud by (simp add: word_less_nat_alt)
  have x: "x < 0x400"
  proof -
    have "unat (drop_bit 10 d) < 0x400" using ud by (simp add: drop_bit_eq_div unat_div_distrib)
    then show ?thesis by (simp add: x_def word_less_nat_alt unsigned_ucast_eq take_bit_nat_eq_self)
  qed
  have y: "y < 0x400"
  proof -
    have "y \<le> 0x3ff" unfolding y_def by (rule word_and_le1)
    then show ?thesis by (simp add: word_le_nat_alt word_less_nat_alt)
  qed
  have "push_bit 10 (ucast x) OR ucast y = d"
  proof (rule bit_word_eqI)
    fix n
    assume "n < LENGTH(32)"
    then have n: "n < 32" by simp
    have bx: "bit x k \<longleftrightarrow> k < 16 \<and> bit d (10 + k)" for k
      by (auto simp: x_def bit_ucast_iff bit_drop_bit_eq)
    have yb: "bit y k \<longleftrightarrow> k < 10 \<and> bit d k" for k
      by (auto simp: y_def bit_and_iff bit_ucast_iff surrogate_bits(3))
    have "bit (push_bit 10 (ucast x) OR ucast y :: u32) n \<longleftrightarrow> (10 \<le> n \<and> bit x (n - 10)) \<or> bit y n"
      using n by (auto simp: bit_or_iff bit_push_bit_iff bit_ucast_iff)
    then show "bit (push_bit 10 (ucast x) OR ucast y :: u32) n = bit d n"
      using dd [of n] by (cases "n < 10") (auto simp: bx yb)
  qed
  moreover have "0x10000 + d = c" by (simp add: d_def)
  ultimately have whole: "0x10000 + (push_bit 10 (ucast x) OR ucast y) = c" by simp
  define hi where "hi = 0xd800 OR x"
  define lo where "lo = 0xdc00 OR y"
  have chars: "utf16_char c = [hi, lo]"
    using False by (simp add: utf16_char_def hi_def lo_def x_def y_def d_def)
  have hi: "0xd800 \<le> hi" "hi \<le> 0xdbff" "(ucast hi AND 0x3ff :: u32) = ucast x"
    using surrogate(1,2,5) [OF x] by (simp_all add: hi_def)
  have lo: "0xdc00 \<le> lo" "lo \<le> 0xdfff" "(ucast lo AND 0x3ff :: u32) = ucast y"
    using surrogate(3,4,6) [OF y] by (simp_all add: lo_def)
  have "hi \<le> 0xdfff" using hi(2) by (simp add: word_le_nat_alt)
  then have tests: "\<not> (hi < 0xd800 \<or> 0xdfff < hi)" "\<not> 0xdbff < hi" "0xdc00 \<le> lo \<and> lo \<le> 0xdfff"
    using hi lo by (simp_all add: not_less)
  show ?thesis
    unfolding chars append_Cons append_Nil from_utf16.simps(2) [of hi] list.case
    using tests hi(3) lo(3) whole by (simp only: if_True if_False simp_thms)
qed

lemma from_utf16_encode: "\<forall>c\<in>set s. scalar c \<Longrightarrow> from_utf16 (encode_utf16 s) = Some s"
proof (induction s)
  case Nil
  then show ?case by (simp add: encode_utf16_def)
next
  case (Cons c s)
  then show ?case using from_utf16_char [of c "encode_utf16 s"] by (simp add: encode_utf16_def)
qed

text \<open>A unit of the encoding is 0 or 0xffff only for the character of that number.\<close>

lemma utf16_units:
  assumes "u \<in> set (encode_utf16 s)" and "\<forall>c\<in>set s. scalar c" and "u = 0 \<or> u = 0xffff"
  shows "ucast u \<in> set s"
proof -
  obtain c where c: "c \<in> set s" "u \<in> set (utf16_char c)" using assms(1) by (auto simp: encode_utf16_def)
  show ?thesis
  proof (cases "c < 0x10000")
    case True
    then have "u = ucast c" using c(2) by (simp add: utf16_char_def)
    then show ?thesis using c(1) ucast_16_32 [OF True] by simp
  next
    case False
    define d where "d = c - 0x10000"
    have ud: "unat d < 0x100000"
      using assms(2) c(1) False by (auto simp: d_def scalar_def unat_sub word_less_nat_alt word_le_nat_alt)
    have x: "(ucast (drop_bit 10 d) :: u16) < 0x400"
    proof -
      have "unat (drop_bit 10 d) < 0x400" using ud by (simp add: drop_bit_eq_div unat_div_distrib)
      then show ?thesis by (simp add: word_less_nat_alt unsigned_ucast_eq take_bit_nat_eq_self)
    qed
    have y: "(ucast d AND 0x3ff :: u16) < 0x400"
    proof -
      have "(ucast d AND 0x3ff :: u16) \<le> 0x3ff" by (rule word_and_le1)
      then show ?thesis by (simp add: word_le_nat_alt word_less_nat_alt)
    qed
    have "u = 0xd800 OR ucast (drop_bit 10 d) \<or> u = 0xdc00 OR (ucast d AND 0x3ff)"
      using c(2) False by (simp add: utf16_char_def d_def)
    then have "0xd800 \<le> u \<and> u \<le> 0xdfff"
    proof
      assume "u = 0xd800 OR ucast (drop_bit 10 d)"
      then have "0xd800 \<le> u" "u \<le> 0xdbff" using surrogate(1,2) [OF x] by simp_all
      then show ?thesis by (simp add: word_le_nat_alt)
    next
      assume "u = 0xdc00 OR (ucast d AND 0x3ff)"
      then have "0xdc00 \<le> u" "u \<le> 0xdfff" using surrogate(3,4) [OF y] by simp_all
      then show ?thesis by (simp add: word_le_nat_alt)
    qed
    then show ?thesis using assms(3) by (auto simp: word_le_nat_alt)
  qed
qed

section \<open>Entries byte by byte\<close>

lemma to_le_2: "to_le 2 w = [ucast w, ucast (drop_bit 8 w)]"
  by (simp add: to_le_def upt_rec)

lemma to_le_4: "to_le 4 w = [ucast w, ucast (drop_bit 8 w), ucast (drop_bit 16 w), ucast (drop_bit 24 w)]"
  by (simp add: to_le_def upt_rec)

lemma zeros_32: "replicate 32 (0 :: u8) = [0, 0, 0, 0, 0, 0, 0, 0, 0, 0, 0, 0, 0, 0, 0, 0, 0, 0, 0, 0, 0, 0, 0, 0, 0, 0, 0, 0, 0, 0, 0, 0]"
  by (simp add: numeral_eq_Suc)

lemma upt_13: "[0..<13] = [0, 1, 2, 3, 4, 5, 6, 7, 8, 9, 10, 11, 12]"
  by (simp add: upt_rec)

lemma put_at_eval:
  "put_at 0 [] xs = xs"
  "put_at 0 (y # ys) (x # xs) = y # put_at 0 ys xs"
  "put_at (numeral k) ys (x # xs) = x # put_at (pred_numeral k) ys xs"
  "put_at 1 ys (x # xs) = x # put_at 0 ys xs"
  by (simp_all add: put_at_def numeral_eq_Suc)

lemma lfn_base: "(replicate 32 (0 :: u8))[0 := a, 11 := b, 13 := c] =
  [a, 0, 0, 0, 0, 0, 0, 0, 0, 0, 0, b, 0, c, 0, 0, 0, 0, 0, 0, 0, 0, 0, 0, 0, 0, 0, 0, 0, 0, 0, 0]"
  unfolding zeros_32 by simp

lemma pos_nth:
  "LFN_POS ! 0 = 1" "LFN_POS ! 1 = 3" "LFN_POS ! 2 = 5" "LFN_POS ! 3 = 7" "LFN_POS ! 4 = 9"
  "LFN_POS ! 5 = 14" "LFN_POS ! 6 = 16" "LFN_POS ! 7 = 18" "LFN_POS ! 8 = 20" "LFN_POS ! 9 = 22"
  "LFN_POS ! 10 = 24" "LFN_POS ! 11 = 28" "LFN_POS ! 12 = 30"
  by (simp_all add: LFN_POS_def)

lemma lfn_entry_bytes:
  assumes "\<And>i. u i = lfn_unit units ((count - index - 1) * 13 + i)"
  shows "lfn_entry units count cks index =
      [of_nat (count - index) OR (if index = 0 then 0x40 else 0), ucast (u 0), ucast (drop_bit 8 (u 0)), ucast (u 1),
       ucast (drop_bit 8 (u 1)), ucast (u 2), ucast (drop_bit 8 (u 2)), ucast (u 3),
       ucast (drop_bit 8 (u 3)), ucast (u 4), ucast (drop_bit 8 (u 4)), 0x0f,
       0, cks, ucast (u 5), ucast (drop_bit 8 (u 5)),
       ucast (u 6), ucast (drop_bit 8 (u 6)), ucast (u 7), ucast (drop_bit 8 (u 7)),
       ucast (u 8), ucast (drop_bit 8 (u 8)), ucast (u 9), ucast (drop_bit 8 (u 9)),
       ucast (u 10), ucast (drop_bit 8 (u 10)), 0, 0,
       ucast (u 11), ucast (drop_bit 8 (u 11)), ucast (u 12), ucast (drop_bit 8 (u 12))]"
  unfolding lfn_entry_def Let_def upt_13 lfn_base assms [symmetric] to_le_2
  by (simp only: foldl_Cons foldl_Nil pos_nth put_at_eval pred_numeral_simps BitM.simps numeral_One)

lemma rd16_pair: "rd16 b n = from_le [b ! n, b ! (n + 1)]" if "n + 2 \<le> length b"
proof -
  have "subrange n 2 b = [b ! n, b ! (n + 1)]"
    using that by (intro nth_equalityI) (auto simp: less_Suc_eq numeral_2_eq_2)
  then show ?thesis by (simp add: rd16_def)
qed

lemma from_le_pair: "from_le [ucast (w :: u16), ucast (drop_bit 8 w)] = w"
  using from_le_to_le_widths(1) [of w] by (simp only: to_le_2)

lemma ordinal_byte:
  assumes "1 \<le> n" and "n \<le> 20" and "b = 0 \<or> b = (0x40 :: u8)"
  shows "unat ((of_nat n OR b) AND 0x1f :: u8) = n \<and> (of_nat n OR b :: u8) AND 0xa0 = 0 \<and>
    ((of_nat n OR b :: u8) AND 0x40 \<noteq> 0 \<longleftrightarrow> b = 0x40) \<and> (of_nat n OR b :: u8) \<noteq> 0 \<and> (of_nat n OR b :: u8) \<noteq> 0xe5"
proof -
  have "list_all (\<lambda>n. list_all (\<lambda>b. unat ((of_nat n OR b) AND 0x1f :: u8) = n \<and> (of_nat n OR b :: u8) AND 0xa0 = 0 \<and>
    ((of_nat n OR b :: u8) AND 0x40 \<noteq> 0 \<longleftrightarrow> b = 0x40) \<and> (of_nat n OR b :: u8) \<noteq> 0 \<and> (of_nat n OR b :: u8) \<noteq> 0xe5)
      [0, 0x40]) [1..<21]"
    by code_simp
  moreover have "n \<in> set [1..<21]" using assms by simp
  ultimately show ?thesis using assms(3) unfolding list_all_iff by auto
qed

lemma lfn_entry_facts:
  assumes "index < count" and "count \<le> 20" and e: "e = lfn_entry units count cks index"
  shows "length e = 32" "e ! 11 = 0x0f" "e ! 12 = 0" "e ! 13 = cks" "rd16 e 26 = 0"
    "map (rd16 e) LFN_POS = map (\<lambda>i. lfn_unit units ((count - index - 1) * 13 + i)) [0..<13]"
    "unat (e ! 0 AND 0x1f) = count - index" "e ! 0 AND 0xa0 = 0" "e ! 0 AND 0x40 \<noteq> 0 \<longleftrightarrow> index = 0"
    "e ! 0 \<noteq> 0" "e ! 0 \<noteq> 0xe5"
proof -
  define u where "u = (\<lambda>i. lfn_unit units ((count - index - 1) * 13 + i))"
  note bytes = lfn_entry_bytes [of u units count index cks, OF fun_cong [OF u_def], folded e]
  show len: "length e = 32" and "e ! 11 = 0x0f" "e ! 12 = 0" "e ! 13 = cks" unfolding bytes by simp_all
  have pair: "n + 2 \<le> 32 \<Longrightarrow> rd16 e n = from_le [e ! n, e ! (n + 1)]" for n
    using rd16_pair [of n e] len by simp
  show "rd16 e 26 = 0" unfolding pair [of 26, simplified] unfolding bytes by simp
  have nths: "e ! 1 = ucast (u 0)" "e ! (1 + 1) = ucast (drop_bit 8 (u 0))" "e ! 3 = ucast (u 1)" "e ! (3 + 1) = ucast (drop_bit 8 (u 1))"
    "e ! 5 = ucast (u 2)" "e ! (5 + 1) = ucast (drop_bit 8 (u 2))" "e ! 7 = ucast (u 3)" "e ! (7 + 1) = ucast (drop_bit 8 (u 3))"
    "e ! 9 = ucast (u 4)" "e ! (9 + 1) = ucast (drop_bit 8 (u 4))" "e ! 14 = ucast (u 5)" "e ! (14 + 1) = ucast (drop_bit 8 (u 5))"
    "e ! 16 = ucast (u 6)" "e ! (16 + 1) = ucast (drop_bit 8 (u 6))" "e ! 18 = ucast (u 7)" "e ! (18 + 1) = ucast (drop_bit 8 (u 7))"
    "e ! 20 = ucast (u 8)" "e ! (20 + 1) = ucast (drop_bit 8 (u 8))" "e ! 22 = ucast (u 9)" "e ! (22 + 1) = ucast (drop_bit 8 (u 9))"
    "e ! 24 = ucast (u 10)" "e ! (24 + 1) = ucast (drop_bit 8 (u 10))" "e ! 28 = ucast (u 11)" "e ! (28 + 1) = ucast (drop_bit 8 (u 11))"
    "e ! 30 = ucast (u 12)" "e ! (30 + 1) = ucast (drop_bit 8 (u 12))"
    unfolding bytes by simp_all
  have "map (rd16 e) LFN_POS = map (\<lambda>n. from_le [e ! n, e ! (n + 1)]) LFN_POS"
    by (rule map_cong) (auto simp: LFN_POS_def pair)
  also have "\<dots> = [u 0, u 1, u 2, u 3, u 4, u 5, u 6, u 7, u 8, u 9, u 10, u 11, u 12]"
    unfolding LFN_POS_def by (simp only: list.map nths from_le_pair)
  also have "\<dots> = map u [0..<13]" by (simp add: upt_13)
  finally show "map (rd16 e) LFN_POS = map (\<lambda>i. lfn_unit units ((count - index - 1) * 13 + i)) [0..<13]"
    by (simp add: u_def)
  define b where "b = (if index = 0 then 0x40 else 0 :: u8)"
  have b0: "e ! 0 = of_nat (count - index) OR b" unfolding bytes b_def by simp
  have bi: "b = 0x40 \<longleftrightarrow> index = 0" and bb: "b = 0 \<or> b = 0x40" by (simp_all add: b_def)
  have n: "1 \<le> count - index" "count - index \<le> 20" using assms by simp_all
  have o: "unat (e ! 0 AND 0x1f) = count - index \<and> e ! 0 AND 0xa0 = 0 \<and>
      (e ! 0 AND 0x40 \<noteq> 0 \<longleftrightarrow> b = 0x40) \<and> e ! 0 \<noteq> 0 \<and> e ! 0 \<noteq> 0xe5"
    unfolding b0 by (rule ordinal_byte [OF n bb])
  show "unat (e ! 0 AND 0x1f) = count - index" "e ! 0 AND 0xa0 = 0" "e ! 0 \<noteq> 0" "e ! 0 \<noteq> 0xe5"
    using o by blast+
  show "e ! 0 AND 0x40 \<noteq> 0 \<longleftrightarrow> index = 0" using o bi by blast
qed

section \<open>Reading a set back\<close>

text \<open>The parser after the first \<open>j\<close> of \<open>count\<close> long-name entries that start at slot \<open>i0\<close>.\<close>

definition lfn_after :: "u16 list \<Rightarrow> nat \<Rightarrow> u8 \<Rightarrow> nat \<Rightarrow> nat \<Rightarrow> lfn \<Rightarrow> bool" where
  "lfn_after units count cks i0 j st \<longleftrightarrow>
     utf16 st = map (\<lambda>p. if (count - j) * 13 \<le> p \<and> p < count * 13 then lfn_unit units p else 0xffff) [0..<260]
   \<and> remaining st = count - j \<and> ltotal st = count \<and> csum st = cks \<and> lfn_start st = i0 * 32"

lemma lfn_step_after:
  assumes "j < count" and "count \<le> 20" and "j = 0 \<or> lfn_after units count cks i0 j st"
  shows "lfn_after units count cks i0 (Suc j) (lfn_step (i0 + j) (lfn_entry units count cks j) st)"
proof -
  define e where "e = lfn_entry units count cks j"
  note f = lfn_entry_facts [OF assms(1,2) e_def]
  define st' where "st' = lfn_first (i0 + j) e st"
  have first: "lfn_after units count cks i0 j st'"
  proof (cases "j = 0")
    case True
    then have "st' = \<lparr>utf16 = replicate 260 0xffff, remaining = count, ltotal = count, csum = cks, lfn_start = i0 * 32\<rparr>"
      using f assms(1,2) by (simp add: st'_def lfn_first_def Let_def)
    moreover have "replicate 260 0xffff =
        map (\<lambda>p. if count * 13 \<le> p \<and> p < count * 13 then lfn_unit units p else 0xffff) [0..<260]"
      by (rule nth_equalityI) auto
    ultimately show ?thesis using True by (simp add: lfn_after_def)
  next
    case False
    then have "st' = st" using f(9) by (simp add: st'_def lfn_first_def Let_def)
    then show ?thesis using False assms(3) by simp
  qed
  define ord where "ord = count - j"
  have ord: "1 \<le> ord" "ord \<le> count" using assms(1) by (simp_all add: ord_def)
  have "lfn_step (i0 + j) e st = st'\<lparr>utf16 := put_at ((ord - 1) * 13) (map (rd16 e) LFN_POS) (utf16 st'),
      remaining := remaining st' - 1\<rparr>"
    using f first ord by (simp add: lfn_step_def Let_def st'_def [symmetric] lfn_after_def ord_def)
  moreover have "put_at ((ord - 1) * 13) (map (rd16 e) LFN_POS) (utf16 st') =
      map (\<lambda>p. if (count - Suc j) * 13 \<le> p \<and> p < count * 13 then lfn_unit units p else 0xffff) [0..<260]"
  proof (rule nth_equalityI)
    have len: "length (utf16 st') = 260" using first by (simp add: lfn_after_def)
    have fits: "(ord - 1) * 13 + 13 \<le> 260" using ord assms(2) by simp
    have l13: "length (map (rd16 e) LFN_POS) = 13" by (simp add: LFN_POS_def)
    show "length (put_at ((ord - 1) * 13) (map (rd16 e) LFN_POS) (utf16 st')) =
        length (map (\<lambda>p. if (count - Suc j) * 13 \<le> p \<and> p < count * 13 then lfn_unit units p else 0xffff) [0..<260])"
      using len fits l13 by simp
    fix p
    assume "p < length (put_at ((ord - 1) * 13) (map (rd16 e) LFN_POS) (utf16 st'))"
    then have p: "p < 260" using len fits l13 by simp
    have "put_at ((ord - 1) * 13) (map (rd16 e) LFN_POS) (utf16 st') ! p =
        (if (ord - 1) * 13 \<le> p \<and> p < (ord - 1) * 13 + 13 then map (rd16 e) LFN_POS ! (p - (ord - 1) * 13)
         else utf16 st' ! p)"
      using p len fits l13 by (subst nth_put_at) simp_all
    also have "\<dots> = (if (ord - 1) * 13 \<le> p \<and> p < count * 13 then lfn_unit units p else 0xffff)"
    proof (cases "(ord - 1) * 13 \<le> p \<and> p < (ord - 1) * 13 + 13")
      case True
      have "p - (ord - 1) * 13 < 13" "(ord - 1) * 13 + (p - (ord - 1) * 13) = p" using True by linarith+
      then have "map (rd16 e) LFN_POS ! (p - (ord - 1) * 13) = lfn_unit units p"
        unfolding f(6) ord_def [symmetric] by simp
      moreover have "p < count * 13"
      proof -
        have "(ord - 1) * 13 + 13 = ord * 13" using ord(1) by (simp add: algebra_simps)
        then show ?thesis using True mult_le_mono1 [OF ord(2), of 13] by linarith
      qed
      ultimately show ?thesis using True by simp
    next
      case False
      have "utf16 st' ! p = (if ord * 13 \<le> p \<and> p < count * 13 then lfn_unit units p else 0xffff)"
        using first p by (simp add: lfn_after_def ord_def)
      moreover have "(ord - 1) * 13 + 13 = ord * 13" using ord(1) by (simp add: algebra_simps)
      ultimately show ?thesis using False by auto
    qed
    finally show "put_at ((ord - 1) * 13) (map (rd16 e) LFN_POS) (utf16 st') ! p =
        map (\<lambda>p. if (count - Suc j) * 13 \<le> p \<and> p < count * 13 then lfn_unit units p else 0xffff) [0..<260] ! p"
      using p by (simp add: ord_def)
  qed
  ultimately show ?thesis using first ord by (simp add: lfn_after_def e_def [symmetric] ord_def)
qed

lemma records_lfn_entries:
  assumes "count \<le> 20" and "j \<le> count" and "j = 0 \<or> lfn_after units count cks i0 j st"
  shows "\<exists>st'. records_loop uc k (i0 + j) (map (lfn_entry units count cks) [j..<count] @ es) st =
      records_loop uc k (i0 + count) es st' \<and> (j < count \<or> 0 < j \<longrightarrow> lfn_after units count cks i0 count st')
      \<and> (count = 0 \<longrightarrow> st' = st)"
  using assms(2,3)
proof (induction "count - j" arbitrary: j st)
  case 0
  then have "j = count" by simp
  then show ?case using 0 by (intro exI [of _ st]) auto
next
  case (Suc n)
  then have j: "j < count" by simp
  define e where "e = lfn_entry units count cks j"
  note f = lfn_entry_facts [OF j assms(1) e_def]
  have "[j..<count] = j # [Suc j..<count]" using j by (rule upt_conv_Cons)
  then have step: "records_loop uc k (i0 + j) (map (lfn_entry units count cks) [j..<count] @ es) st =
      records_loop uc k (i0 + Suc j) (map (lfn_entry units count cks) [Suc j..<count] @ es) (lfn_step (i0 + j) e st)"
    using f(2,10,11) by (simp add: e_def)
  have "lfn_after units count cks i0 (Suc j) (lfn_step (i0 + j) e st)"
    unfolding e_def by (rule lfn_step_after [OF j assms(1) Suc.prems(2)])
  then show ?case
    using Suc.hyps(1) [of "Suc j" "lfn_step (i0 + j) e st"] Suc.hyps(2) j unfolding step by simp
qed

text \<open>The names that a long-name entry can carry.\<close>

definition name_ok :: "rstr \<Rightarrow> bool" where
  "name_ok nm \<longleftrightarrow> valid_name nm \<and> (\<forall>c\<in>set nm. scalar c) \<and> 0xffff \<notin> set nm"

lemma valid_name_ge:
  assumes "valid_name nm" and "c \<in> set nm"
  shows "\<not> c < 0x20"
proof
  assume "c < 0x20"
  then have "\<exists>c\<in>set nm. c < 0x20 \<or> c \<in> {0x22, 0x2a, 0x2f, 0x3a, 0x3c, 0x3e, 0x3f, 0x5c, 0x7c}"
    using assms(2) by blast
  with assms(1) show False unfolding valid_name_def by blast
qed

lemma name_units:
  assumes "name_ok nm"
  defines "units \<equiv> encode_utf16 nm"
  shows "0 < length units" "length units \<le> 255" "0 \<notin> set units" "0xffff \<notin> set units" "from_utf16 units = Some nm"
proof -
  have v: "valid_name nm" and s: "\<forall>c\<in>set nm. scalar c" and f: "0xffff \<notin> set nm"
    using assms by (simp_all add: name_ok_def)
  show dec: "from_utf16 units = Some nm" unfolding units_def by (rule from_utf16_encode [OF s])
  have "nm \<noteq> []" using v by (auto simp: valid_name_def)
  have "units \<noteq> []"
  proof
    assume "units = []"
    with dec \<open>nm \<noteq> []\<close> show False by simp
  qed
  then show "0 < length units" by simp
  show "length units \<le> 255" using v by (simp add: valid_name_def units_def)
  have z: "0 \<notin> set nm" using valid_name_ge [OF v, where c = 0] by auto
  show "0 \<notin> set units" using utf16_units [where u = 0 and s = nm] s z by (auto simp: units_def)
  show "0xffff \<notin> set units" using utf16_units [where u = "0xffff" and s = nm] s f by (auto simp: units_def)
qed

lemma long_name_after:
  assumes nm: "name_ok nm" and count: "count = (length (encode_utf16 nm) + 12) div 13"
    and st: "lfn_after (encode_utf16 nm) count (checksum sh) i0 count st"
  shows "long_name st sh = Some nm"
proof -
  define units where "units = encode_utf16 nm"
  note u = name_units [OF nm, folded units_def]
  have "count \<le> 267 div 13" unfolding count units_def [symmetric] using u(2) by (intro div_le_mono) simp
  then have "count * 13 \<le> 260" by simp
  moreover have "0 < count" "length units \<le> count * 13"
    using u(1) unfolding count units_def [symmetric] by linarith+
  ultimately have cnt: "0 < count" "length units \<le> count * 13" "count * 13 \<le> 260" by blast+
  define slice where "slice = take (ltotal st * 13) (utf16 st)"
  have slice: "slice = map (lfn_unit units) [0..<count * 13]"
  proof (rule nth_equalityI)
    show "length slice = length (map (lfn_unit units) [0..<count * 13])"
      using st cnt by (simp add: slice_def lfn_after_def units_def)
    fix i
    assume "i < length slice"
    then have "i < count * 13" using st cnt by (simp add: slice_def lfn_after_def)
    then show "slice ! i = map (lfn_unit units) [0..<count * 13] ! i"
      using st cnt by (simp add: slice_def lfn_after_def units_def)
  qed
  have len: "length slice = count * 13" by (simp add: slice)
  have nth: "slice ! i = lfn_unit units i" if "i < count * 13" for i using that by (simp add: slice)
  have pos: "(case position (\<lambda>c. c = 0) slice of None \<Rightarrow> length slice | Some n \<Rightarrow> n) = length units"
  proof (cases "length units < count * 13")
    case True
    have "position (\<lambda>c. c = 0) slice = Some (length units)"
    proof (rule position_Some_intro)
      show "length units < length slice" using True len by simp
      show "slice ! length units = 0" using True by (simp add: nth lfn_unit_def)
      show "slice ! j \<noteq> 0" if "j < length units" for j
      proof -
        have "units ! j \<noteq> 0" using u(3) nth_mem [OF that] by metis
        then show ?thesis using that True by (simp add: nth lfn_unit_def)
      qed
    qed
    then show ?thesis by simp
  next
    case False
    have "slice = units" using False cnt(2) by (intro nth_equalityI) (simp_all add: len nth lfn_unit_def)
    then have "position (\<lambda>c. c = 0) slice = None"
      unfolding position_None_iff using u(3) by metis
    then show ?thesis using False cnt(2) len by simp
  qed
  have pre: "take (length units) slice = units"
    using cnt(2) by (intro nth_equalityI) (simp_all add: len nth lfn_unit_def)
  have rest: "\<forall>c\<in>set (drop (length units + (if length units < length slice then 1 else 0)) slice). c = 0xffff"
  proof
    fix c
    assume "c \<in> set (drop (length units + (if length units < length slice then 1 else 0)) slice)"
    then obtain i where "c = slice ! i" "length units < i" "i < length slice"
      using cnt(2) len by (auto simp: in_set_conv_nth split: if_splits)
    then show "c = 0xffff" using len by (simp add: nth lfn_unit_def)
  qed
  have heads: "0 < ltotal st" "remaining st = 0" "csum st = checksum sh"
    using st cnt(1) by (simp_all add: lfn_after_def)
  have valid: "valid_name nm" using nm by (simp add: name_ok_def)
  show ?thesis
    unfolding long_name_def slice_def [symmetric] Let_def pos eqTrueI [OF rest]
    using heads u(1,2,4,5) pre valid by (simp only: simp_thms if_True option.case)
qed

lemma short_entry_bytes:
  assumes "length sh = 11"
  shows "short_entry sh first sz at k = sh @ [at, 0, 0, 0, 0, 0x21, 0, 0x21, 0] @
    to_le 2 (if k = Fat32 then ucast (drop_bit 16 first) else 0 :: u16) @ [0, 0, 0x21, 0] @
    to_le 2 (ucast first :: u16) @ to_le 4 sz"
proof -
  obtain a0 a1 a2 a3 a4 a5 a6 a7 a8 a9 a10 where sh: "sh = [a0, a1, a2, a3, a4, a5, a6, a7, a8, a9, a10]"
    using assms by (auto simp: numeral_eq_Suc length_Suc_conv)
  define hi where "hi = (if k = Fat32 then ucast (drop_bit 16 first) else 0 :: u16)"
  define lo where "lo = (ucast first :: u16)"
  have c: "to_le 2 (0x21 :: u16) = [0x21, 0]" by code_simp
  have base: "(put_at 0 sh (replicate 32 0))[11 := at] = sh @ at # replicate 20 0"
    unfolding sh zeros_32 by (simp add: put_at_eval numeral_eq_Suc)
  have z: "replicate 20 (0 :: u8) = [0, 0, 0, 0, 0, 0, 0, 0, 0, 0, 0, 0, 0, 0, 0, 0, 0, 0, 0, 0]"
    by (simp add: numeral_eq_Suc)
  show ?thesis
    unfolding short_entry_def put_cluster_def base hi_def [symmetric] lo_def [symmetric] z c
    unfolding to_le_2 to_le_4 sh append_Cons append_Nil
    by (simp only: foldl_Cons foldl_Nil put_at_eval pred_numeral_simps BitM.simps numeral_One)
qed

lemma short_entry_facts:
  assumes len: "length sh = 11" and e: "e = short_entry sh first sz at k"
  shows "length e = 32" "take 11 e = sh" "e ! 0 = sh ! 0" "e ! 11 = at" "e ! 12 = 0" "rd32 e 28 = sz"
    "rd16 e 26 = ucast first" "rd16 e 20 = (if k = Fat32 then ucast (drop_bit 16 first) else 0)"
proof -
  define hi where "hi = (if k = Fat32 then ucast (drop_bit 16 first) else 0 :: u16)"
  define lo where "lo = (ucast first :: u16)"
  note bytes = short_entry_bytes [OF len, of first sz at k, folded e hi_def lo_def]
  show "length e = 32" "take 11 e = sh" "e ! 11 = at" "e ! 12 = 0" unfolding bytes using len by (simp_all add: nth_append)
  show "e ! 0 = sh ! 0" unfolding bytes using len by (simp add: nth_append)
  have "subrange 28 4 e = to_le 4 sz" unfolding bytes subrange_def using len by simp
  then show "rd32 e 28 = sz" by (simp add: rd32_def)
  have "subrange 26 2 e = to_le 2 lo" unfolding bytes subrange_def using len by simp
  then show "rd16 e 26 = ucast first" by (simp add: rd16_def lo_def)
  have "subrange 20 2 e = to_le 2 hi" unfolding bytes subrange_def using len by simp
  then show "rd16 e 20 = (if k = Fat32 then ucast (drop_bit 16 first) else 0)" by (simp add: rd16_def hi_def)
qed

text \<open>The first clusters that an entry can hold.\<close>

definition first_fits :: "Kind \<Rightarrow> u32 \<Rightarrow> bool" where
  "first_fits k first \<longleftrightarrow> unat first < (if k = Fat32 then 2 ^ 28 else 2 ^ 16)"

lemma low_cluster_bits:
  assumes "bit (first :: u32) n \<Longrightarrow> n < 16"
  shows "bit (ucast (ucast first :: u16) :: u32) n \<longleftrightarrow> bit first n"
  using assms by (auto simp: bit_ucast_iff)

lemma entry_cluster_short:
  assumes "length sh = 11" and "first_fits k first"
  shows "entry_cluster k (short_entry sh first sz at k) = first"
proof -
  define e where "e = short_entry sh first sz at k"
  note f = short_entry_facts [OF assms(1) e_def]
  have "entry_cluster k e = first"
  proof (cases "k = Fat32")
    case True
    have small: "bit first n \<Longrightarrow> n < 28" for n
      using small_bits [of first 28 n] assms(2) True by (simp add: first_fits_def word_less_nat_alt)
    have mask: "bit (0xfff :: int) n \<longleftrightarrow> n < 12" for n by (rule mask_bits)
    show ?thesis
    proof (rule bit_word_eqI)
      fix n
      assume "n < LENGTH(32)"
      then have n: "n < 32" by simp
      have lo: "bit (ucast (rd16 e 26) :: u32) n \<longleftrightarrow> n < 16 \<and> bit first n"
        unfolding f(7) using n by (auto simp: bit_ucast_iff)
      have "bit (push_bit 16 (ucast (rd16 e 20) AND 0xfff) :: u32) n \<longleftrightarrow>
          16 \<le> n \<and> bit (ucast (rd16 e 20) AND 0xfff :: u32) (n - 16)"
        unfolding bit_push_bit_iff using n by simp
      also have "\<dots> \<longleftrightarrow> 16 \<le> n \<and> n < 28 \<and> bit first n"
        unfolding f(8) using n True by (auto simp: bit_ucast_iff bit_and_iff mask bit_drop_bit_eq)
      finally have hi: "bit (push_bit 16 (ucast (rd16 e 20) AND 0xfff) :: u32) n \<longleftrightarrow> 16 \<le> n \<and> n < 28 \<and> bit first n" .
      have eq: "entry_cluster k e = ucast (rd16 e 26) OR push_bit 16 (ucast (rd16 e 20) AND 0xfff)"
        unfolding entry_cluster_def True by (simp only: simp_thms if_True)
      show "bit (entry_cluster k e) n = bit first n"
        unfolding eq bit_or_iff lo hi using small [of n] by auto
    qed
  next
    case False
    then have "first < 0x10000" using assms(2) by (simp add: first_fits_def word_less_nat_alt)
    then show ?thesis unfolding entry_cluster_def f(7) using False ucast_16_32 by simp
  qed
  then show ?thesis by (simp add: e_def)
qed

text \<open>A short name that an entry can start with, and attributes of a file or directory.\<close>

definition short_ok :: "unicode \<Rightarrow> bytes \<Rightarrow> bool" where
  "short_ok uc sh \<longleftrightarrow> length sh = 11 \<and> sh ! 0 \<noteq> 0 \<and> sh ! 0 \<noteq> 0xe5
     \<and> short_alias uc sh 0 \<noteq> [0x2e] \<and> short_alias uc sh 0 \<noteq> [0x2e, 0x2e]"

definition new_record :: "unicode \<Rightarrow> rstr \<Rightarrow> bytes \<Rightarrow> u32 \<Rightarrow> u32 \<Rightarrow> u8 \<Rightarrow> nat \<Rightarrow> Record" where
  "new_record uc nm sh first sz at i0 =
     \<lparr>name = nm, alias_of = short_alias uc sh 0, short = sh, attr = at, cluster = first, size_of = sz,
      offset = (i0 + lfn_count uc nm sh) * 32, start = i0 * 32\<rparr>"

definition set_entries :: "unicode \<Rightarrow> rstr \<Rightarrow> bytes \<Rightarrow> u32 \<Rightarrow> u32 \<Rightarrow> u8 \<Rightarrow> Kind \<Rightarrow> bytes list" where
  "set_entries uc nm sh first sz at k =
     map (lfn_entry (encode_utf16 nm) (lfn_count uc nm sh) (checksum sh)) [0..<lfn_count uc nm sh]
     @ [short_entry sh first sz at k]"

lemma lfn_count_le: "name_ok nm \<Longrightarrow> lfn_count uc nm sh \<le> 20"
proof -
  assume "name_ok nm"
  then have "length (encode_utf16 nm) + 12 \<le> 267" using name_units(2) by simp
  then have "(length (encode_utf16 nm) + 12) div 13 \<le> 267 div 13" by (rule div_le_mono)
  then show ?thesis by (simp add: lfn_count_def)
qed

lemma lfn_count_zero: "name_ok nm \<Longrightarrow> lfn_count uc nm sh = 0 \<longleftrightarrow> nm = short_alias uc sh 0"
proof -
  assume "name_ok nm"
  then have "0 < (length (encode_utf16 nm) + 12) div 13" using name_units(1) [of nm] by linarith
  then show ?thesis by (simp add: lfn_count_def)
qed

lemma records_set:
  assumes nm: "name_ok nm" and sh: "short_ok uc sh" and fits: "first_fits k first"
    and at: "at \<noteq> 0x0f" "at AND 8 = 0"
    and clean: "lfn_count uc nm sh = 0 \<Longrightarrow> long_name st sh = None"
  shows "\<exists>st'. records_loop uc k i0 (set_entries uc nm sh first sz at k @ es) st =
    new_record uc nm sh first sz at i0 # records_loop uc k (Suc (i0 + lfn_count uc nm sh)) es (lfn_clear st')"
proof -
  define count where "count = lfn_count uc nm sh"
  define e where "e = short_entry sh first sz at k"
  have len: "length sh = 11" using sh by (simp add: short_ok_def)
  note f = short_entry_facts [OF len e_def]
  have "\<exists>st'. records_loop uc k i0 (map (lfn_entry (encode_utf16 nm) count (checksum sh)) [0..<count] @ e # es) st =
      records_loop uc k (i0 + count) (e # es) st' \<and>
      (0 < count \<longrightarrow> lfn_after (encode_utf16 nm) count (checksum sh) i0 count st') \<and> (count = 0 \<longrightarrow> st' = st)"
    using records_lfn_entries [of count 0 "encode_utf16 nm" "checksum sh" i0 st uc k "e # es"]
      lfn_count_le [OF nm, of uc sh] by (simp add: count_def)
  then obtain st' where run: "records_loop uc k i0 (map (lfn_entry (encode_utf16 nm) count (checksum sh)) [0..<count] @ e # es) st =
      records_loop uc k (i0 + count) (e # es) st'"
    and after: "0 < count \<Longrightarrow> lfn_after (encode_utf16 nm) count (checksum sh) i0 count st'" and zero: "count = 0 \<Longrightarrow> st' = st"
    by blast
  have long: "(case long_name st' sh of None \<Rightarrow> short_alias uc sh 0 | Some l \<Rightarrow> l) = nm \<and>
      (case long_name st' sh of None \<Rightarrow> (i0 + count) * 32 | Some _ \<Rightarrow> lfn_start st') = i0 * 32"
  proof (cases "count = 0")
    case True
    then have "nm = short_alias uc sh 0" using lfn_count_zero [OF nm] by (simp add: count_def)
    moreover have "long_name st' sh = None" using clean zero True by (simp add: count_def)
    ultimately show ?thesis using True by simp
  next
    case False
    then have "count = (length (encode_utf16 nm) + 12) div 13" by (auto simp: count_def lfn_count_def split: if_splits)
    moreover have "lfn_after (encode_utf16 nm) count (checksum sh) i0 count st'" using after False by simp
    ultimately have "long_name st' sh = Some nm" by (rule long_name_after [OF nm])
    then show ?thesis using after False by (simp add: lfn_after_def)
  qed
  have rec: "short_record uc k (i0 + count) e st' = Some (new_record uc nm sh first sz at i0)"
    using f long sh at entry_cluster_short [OF len fits, of sz at]
    by (simp add: short_record_def Let_def new_record_def short_ok_def e_def [symmetric] count_def [symmetric])
  have "records_loop uc k (i0 + count) (e # es) st' =
      new_record uc nm sh first sz at i0 # records_loop uc k (Suc (i0 + count)) es (lfn_clear st')"
    using f sh at rec by (simp add: short_ok_def)
  then show ?thesis using run by (auto simp: set_entries_def count_def e_def)
qed

section \<open>Directories as lists of slots\<close>

lemma set_entries_length:
  assumes "name_ok nm" and "length sh = 11" and "e \<in> set (set_entries uc nm sh first sz at k)"
  shows "length e = 32"
  using assms lfn_entry_facts(1) [OF _ lfn_count_le [OF assms(1)] refl] short_entry_facts(1) [OF assms(2) refl]
  by (auto simp: set_entries_def)

lemma entry_set_concat: "entry_set uc nm sh first sz at k = concat (set_entries uc nm sh first sz at k)"
  by (simp add: entry_set_def set_entries_def Let_def)

text \<open>Replacing slots \<open>s ..\<close> of a directory by a list of entries.\<close>

section \<open>Free slots\<close>

text \<open>A slot is free when it is deleted or lies at or behind an end marker.\<close>

definition slot_free :: "bytes list \<Rightarrow> nat \<Rightarrow> bool" where
  "slot_free cs j \<longleftrightarrow> cs ! j ! 0 = 0xe5 \<or> (\<exists>j'\<le>j. cs ! j' ! 0 = 0)"

definition free_run :: "bytes list \<Rightarrow> nat \<Rightarrow> nat \<Rightarrow> bool" where
  "free_run cs s n \<longleftrightarrow> s + n \<le> length cs \<and> (\<forall>i<n. slot_free cs (s + i))"

lemma free_slots_loop_correct:
  assumes "cs = pre @ es" and "index = length pre" and "run < needed"
    and "fin \<longleftrightarrow> (\<exists>j<index. cs ! j ! 0 = 0)"
    and "run \<le> index" and "\<forall>i<run. slot_free cs (index - run + i)"
    and "run < index \<longrightarrow> \<not> slot_free cs (index - run - 1)"
    and "\<forall>s. s + needed \<le> index \<longrightarrow> \<not> free_run cs s needed"
  shows "case free_slots_loop needed index es run fin of
      Some st \<Rightarrow> \<exists>s. st = s * 32 \<and> free_run cs s needed \<and> (\<forall>s'. s' < s \<longrightarrow> \<not> free_run cs s' needed)
    | None \<Rightarrow> \<forall>s. \<not> free_run cs s needed"
  using assms
proof (induction es arbitrary: pre index run fin)
  case Nil
  then show ?case by (simp add: free_run_def)
next
  case (Cons e es)
  have e: "cs ! index = e" using Cons.prems(1,2) by simp
  have more: "cs = (pre @ [e]) @ es" and idx: "Suc index = length (pre @ [e])" using Cons.prems(1,2) by simp_all
  define fin' where "fin' = (fin \<or> e ! 0 = 0)"
  have fin': "fin' \<longleftrightarrow> (\<exists>j<Suc index. cs ! j ! 0 = 0)"
    using Cons.prems(4) e by (auto simp: fin'_def less_Suc_eq)
  have free: "slot_free cs index \<longleftrightarrow> fin' \<or> e ! 0 = 0xe5"
    unfolding slot_free_def fin' e by (auto simp: less_Suc_eq_le)
  show ?case
  proof (cases "slot_free cs index")
    case False
    have "\<forall>s. s + needed \<le> Suc index \<longrightarrow> \<not> free_run cs s needed"
    proof (intro allI impI)
      fix s
      assume s: "s + needed \<le> Suc index"
      show "\<not> free_run cs s needed"
      proof (cases "s + needed \<le> index")
        case True
        then show ?thesis using Cons.prems(8) by blast
      next
        case nle: False
        then have "index = s + (needed - 1)" "needed - 1 < needed" using s Cons.prems(3) by simp_all
        then show ?thesis using False by (auto simp: free_run_def)
      qed
    qed
    moreover have "free_slots_loop needed index (e # es) run fin = free_slots_loop needed (Suc index) es 0 fin'"
      using False free by (simp add: Let_def fin'_def)
    ultimately show ?thesis
      using Cons.IH [OF more idx, of 0 fin'] Cons.prems(3) fin' False by simp
  next
    case True
    have frees: "\<forall>i<Suc run. slot_free cs (index - run + i)"
      using Cons.prems(5,6) True by (auto simp: less_Suc_eq)
    show ?thesis
    proof (cases "Suc run = needed")
      case full: True
      have "free_slots_loop needed index (e # es) run fin = Some ((index + 1 - needed) * 32)"
        using True free full by (simp add: Let_def fin'_def)
      moreover have "free_run cs (index + 1 - needed) needed"
        using frees full Cons.prems(1,2,5) by (auto simp: free_run_def)
      moreover have "\<forall>s'. s' < index + 1 - needed \<longrightarrow> \<not> free_run cs s' needed"
      proof (intro allI impI)
        fix s'
        assume "s' < index + 1 - needed"
        then have "s' + needed \<le> index" by simp
        then show "\<not> free_run cs s' needed" using Cons.prems(8) by blast
      qed
      ultimately show ?thesis by auto
    next
      case False
      then have less: "Suc run < needed" using Cons.prems(3) by simp
      have "\<forall>s. s + needed \<le> Suc index \<longrightarrow> \<not> free_run cs s needed"
      proof (intro allI impI)
        fix s
        assume s: "s + needed \<le> Suc index"
        show "\<not> free_run cs s needed"
        proof (cases "s + needed \<le> index")
          case True
          then show ?thesis using Cons.prems(8) by blast
        next
          case nle: False
          then have "run < index" "index - run - 1 = s + (needed - run - 2)" "needed - run - 2 < needed"
            using s less by simp_all
          then show ?thesis using Cons.prems(7) by (auto simp: free_run_def)
        qed
      qed
      moreover have "free_slots_loop needed index (e # es) run fin = free_slots_loop needed (Suc index) es (Suc run) fin'"
        using True free False by (simp add: Let_def fin'_def)
      ultimately show ?thesis
        using Cons.IH [OF more idx less fin'] Cons.prems(5,7) frees by simp
    qed
  qed
qed

lemma free_slots_correct:
  assumes "0 < needed"
  shows "case free_slots data needed of
      Some st \<Rightarrow> \<exists>s. st = s * 32 \<and> free_run (chunks32 data) s needed
        \<and> (\<forall>s'. s' < s \<longrightarrow> \<not> free_run (chunks32 data) s' needed)
    | None \<Rightarrow> \<forall>s. \<not> free_run (chunks32 data) s needed"
  unfolding free_slots_def by (rule free_slots_loop_correct [of _ "[]"]) (use assms in simp_all)

section \<open>Short names\<close>

text \<open>The bytes of a chosen short name: printable ASCII without a dot.\<close>

definition short_byte :: "u8 \<Rightarrow> bool" where
  "short_byte b \<longleftrightarrow> 0x21 \<le> b \<and> b \<le> 0x7e \<and> b \<noteq> 0x2e"

lemma short_char_byte: "short_byte (short_char c)"
proof -
  have range: "short_byte (ucast w)" if "0x21 \<le> unat w" "unat w \<le> 0x7e" "unat w \<noteq> 0x2e" for w :: u32
  proof -
    have "unat (ucast w :: u8) = unat w" using that by (simp add: unsigned_ucast_eq take_bit_nat_eq_self)
    then show ?thesis using that by (simp add: short_byte_def word_le_nat_alt word_unat_eq_iff)
  qed
  consider "is_ascii_alnum c" | "c \<in> {0x24, 0x25, 0x27, 0x2d, 0x5f, 0x40, 0x7e, 0x60, 0x21, 0x28, 0x29, 0x7b, 0x7d, 0x5e, 0x23, 0x26}"
    | "short_char c = 0x5f"
    unfolding short_char_def by presburger
  then show ?thesis
  proof cases
    case 1
    then have "short_char c = ucast (ascii_upper c)" unfolding short_char_def by simp
    moreover have "0x21 \<le> unat (ascii_upper c)" "unat (ascii_upper c) \<le> 0x7e" "unat (ascii_upper c) \<noteq> 0x2e"
      using 1 by (auto simp: is_ascii_alnum_def ascii_upper_def word_le_nat_alt unat_sub)
    ultimately show ?thesis using range by simp
  next
    case 2
    then have "short_char c = ucast (ascii_upper c)" unfolding short_char_def by simp
    moreover have "unat (ascii_upper c) = unat c" using 2 by (auto simp: ascii_upper_def)
    moreover have "0x21 \<le> unat c" "unat c \<le> 0x7e" "unat c \<noteq> 0x2e" using 2 by auto
    ultimately show ?thesis using range by simp
  next
    case 3
    then show ?thesis by (simp add: short_byte_def)
  qed
qed

lemma digit_loop_append: "digit_loop n acc = digit_loop n [] @ acc"
proof (induction n arbitrary: acc rule: less_induct)
  case (less n)
  show ?case
  proof (cases "n = 0")
    case True
    then show ?thesis by (simp add: digit_loop.simps)
  next
    case False
    then have "n div 10 < n" by simp
    from less.IH [OF this, of "(0x30 + of_nat (n mod 10)) # acc"] less.IH [OF this, of "[0x30 + of_nat (n mod 10)]"] False
    show ?thesis by (simp add: digit_loop.simps [of n])
  qed
qed

lemma digit_loop_step: "0 < n \<Longrightarrow> digit_loop n [] = digit_loop (n div 10) [] @ [0x30 + of_nat (n mod 10)]"
  using digit_loop_append [of "n div 10" "[0x30 + of_nat (n mod 10)]"] by (simp add: digit_loop.simps [of n])

lemma digit_loop_length: "n < 10 ^ k \<Longrightarrow> length (digit_loop n []) \<le> k"
proof (induction k arbitrary: n)
  case 0
  then show ?case by (simp add: digit_loop.simps)
next
  case (Suc k)
  show ?case
  proof (cases "n = 0")
    case True
    then show ?thesis by (simp add: digit_loop.simps)
  next
    case False
    have "n div 10 < 10 ^ k" using Suc.prems by (intro less_mult_imp_div_less) (simp add: mult.commute)
    then show ?thesis using Suc.IH [of "n div 10"] False by (simp add: digit_loop_step)
  qed
qed

lemma digit_byte: "d < 10 \<Longrightarrow> short_byte (0x30 + of_nat d)"
proof -
  assume d: "d < 10"
  have "unat (of_nat d :: u8) = d" using d by (intro unat_of_nat_small) simp
  then have "unat (0x30 + of_nat d :: u8) = 0x30 + d" using d by (subst unat_add_lem [THEN iffD1]) simp_all
  then show ?thesis using d by (simp add: short_byte_def word_le_nat_alt word_unat_eq_iff)
qed

lemma digit_loop_bytes: "b \<in> set (digit_loop n []) \<Longrightarrow> short_byte b"
proof (induction n rule: less_induct)
  case (less n)
  show ?case
  proof (cases "n = 0")
    case True
    then show ?thesis using less.prems by (simp add: digit_loop.simps)
  next
    case False
    then have "n div 10 < n" by simp
    then show ?thesis
      using less.IH [of "n div 10"] less.prems False digit_byte [of "n mod 10"] by (auto simp: digit_loop_step)
  qed
qed

text \<open>Well-formed: 11 bytes, padded with blanks, the first of them not blank.\<close>

definition short_wf :: "bytes \<Rightarrow> bool" where
  "short_wf sh \<longleftrightarrow> length sh = 11 \<and> short_byte (sh ! 0) \<and> (\<forall>b\<in>set sh. short_byte b \<or> b = 0x20)"

lemma set_put_at: "off + length ys \<le> length xs \<Longrightarrow> set (put_at off ys xs) \<subseteq> set xs \<union> set ys"
  unfolding put_at_def using set_take_subset [of off xs] set_drop_subset [of "off + length ys" xs] by auto

lemma short_direct_wf:
  assumes "short_simple base ext"
  shows "short_wf (short_direct base ext)"
proof -
  have b: "base \<noteq> []" and ub: "utf8_len base \<le> 8" and ue: "utf8_len ext \<le> 3"
    using assms by (simp_all add: short_simple_def)
  have le: "length s \<le> utf8_len s" for s :: rstr unfolding utf8_len_def by (induction s) auto
  have lb: "length base \<le> 8" and lext: "length ext \<le> 3" using le [of base] le [of ext] ub ue by linarith+
  define x where "x = put_at 0 (map short_char base) (replicate 11 (0x20 :: u8))"
  have lx: "length x = 11" using lb by (simp add: x_def)
  have x0: "x ! 0 = short_char (base ! 0)" using b lb by (simp add: x_def nth_put_at)
  have sx: "\<forall>c\<in>set x. short_byte c \<or> c = 0x20"
    using set_put_at [of 0 "map short_char base" "replicate 11 (0x20 :: u8)"] lb short_char_byte by (auto simp: x_def)
  have "short_direct base ext = put_at 8 (map short_char ext) x" by (simp add: short_direct_def x_def)
  moreover have "length (put_at 8 (map short_char ext) x) = 11" using lx lext by simp
  moreover have "put_at 8 (map short_char ext) x ! 0 = short_char (base ! 0)" using lx lext x0 by (simp add: nth_put_at)
  moreover have "\<forall>c\<in>set (put_at 8 (map short_char ext) x). short_byte c \<or> c = 0x20"
    using set_put_at [of 8 "map short_char ext" x] lx lext sx short_char_byte by auto
  ultimately show ?thesis using short_char_byte by (simp add: short_wf_def)
qed

lemma short_numbered_wf:
  assumes "0 < number" and "number < 1000000" and clean: "\<forall>b\<in>set clean. short_byte b"
  shows "short_wf (short_numbered clean ext number)"
proof -
  define digits where "digits = digit_loop number []"
  have ld: "length digits \<le> 6" using digit_loop_length [of number 6] assms(2) by (simp add: digits_def)
  have bd: "\<forall>b\<in>set digits. short_byte b" using digit_loop_bytes by (auto simp: digits_def)
  define prefix where "prefix = min (7 - length digits) (length clean)"
  have pd: "prefix + 1 + length digits \<le> 8" using ld by (simp add: prefix_def)
  define x where "x = put_at 0 (take prefix clean) (replicate 11 (0x20 :: u8))"
  define y where "y = put_at prefix [0x7e] x"
  define z where "z = put_at (prefix + 1) digits y"
  define w where "w = put_at 8 (map short_char (take 3 ext)) z"
  have w: "short_numbered clean ext number = w"
    by (simp add: short_numbered_def Let_def w_def z_def y_def x_def digits_def prefix_def)
  have tilde: "short_byte 0x7e" by (simp add: short_byte_def)
  have lp: "length (take prefix clean) = prefix" by (simp add: prefix_def)
  have lx: "length x = 11" using pd lp by (simp add: x_def)
  have ly: "length y = 11" using lx pd by (simp add: y_def)
  have lz: "length z = 11" using ly pd by (simp add: z_def)
  have lw: "length w = 11" using lz by (simp add: w_def)
  have sx: "\<forall>b\<in>set x. short_byte b \<or> b = 0x20"
    using set_put_at [of 0 "take prefix clean" "replicate 11 (0x20 :: u8)"] pd lp clean set_take_subset [of prefix clean]
    by (auto simp: x_def)
  have sy: "\<forall>b\<in>set y. short_byte b \<or> b = 0x20"
    using set_put_at [of prefix "[0x7e]" x] lx pd sx tilde by (auto simp: y_def)
  have sz: "\<forall>b\<in>set z. short_byte b \<or> b = 0x20"
    using set_put_at [of "prefix + 1" digits y] ly pd sy bd by (auto simp: z_def)
  have sw: "\<forall>b\<in>set w. short_byte b \<or> b = 0x20"
    using set_put_at [of 8 "map short_char (take 3 ext)" z] lz sz short_char_byte by (auto simp: w_def)
  have "w ! 0 = y ! 0" using lz ly pd by (simp add: w_def z_def nth_put_at)
  moreover have "short_byte (y ! 0)"
  proof (cases "prefix = 0")
    case True
    then have "y ! 0 = 0x7e" using lx by (simp add: y_def nth_put_at)
    then show ?thesis using tilde by simp
  next
    case False
    then have "y ! 0 = clean ! 0" using lx lp pd by (simp add: y_def x_def nth_put_at)
    moreover have "0 < length clean" using False by (simp add: prefix_def)
    ultimately show ?thesis using clean by simp
  qed
  ultimately show ?thesis using lw sw by (simp add: short_wf_def w)
qed

lemma short_search_Some:
  assumes "short_search clean ext used n = Some sh" and "0 < n" and "\<forall>b\<in>set clean. short_byte b"
  shows "short_wf sh \<and> sh \<notin> set used"
  using assms
proof (induction clean ext used n rule: short_search.induct)
  case (1 clean ext used n)
  show ?case
  proof (cases "1000000 \<le> n")
    case True
    then show ?thesis using 1(2) by (subst (asm) short_search.simps) simp
  next
    case False
    show ?thesis
    proof (cases "short_numbered clean ext n \<notin> set used")
      case True
      then have "sh = short_numbered clean ext n" using 1(2) False by (subst (asm) short_search.simps) simp
      then show ?thesis using True False short_numbered_wf [of n clean ext] 1(3,4) by simp
    next
      case used: False
      then have "short_search clean ext used (Suc n) = Some sh" using 1(2) False by (subst (asm) short_search.simps) simp
      then show ?thesis using 1(1) [OF False used] 1(4) by simp
    qed
  qed
qed

lemma short_name_correct:
  assumes "short_name nm existing = Ok sh"
  shows "short_wf sh \<and> (\<forall>r\<in>set existing. short r \<noteq> sh)"
proof -
  obtain base ext where be: "base_ext nm = (base, ext)" by (cases "base_ext nm")
  define used where "used = map short existing"
  define clean where "clean = map short_char (filter (\<lambda>c. c \<noteq> 0x20 \<and> c \<noteq> 0x2e) base)"
  have "short_wf sh \<and> sh \<notin> set used"
  proof (cases "short_simple base ext \<and> short_direct base ext \<notin> set used")
    case True
    then have "sh = short_direct base ext"
      using assms be by (simp add: short_name_def used_def)
    then show ?thesis using True short_direct_wf by simp
  next
    case False
    then have "short_search clean ext used 1 = Some sh"
      using assms be by (auto simp: short_name_def Let_def used_def clean_def split: option.splits)
    then show ?thesis by (rule short_search_Some) (auto simp: clean_def short_char_byte)
  qed
  then show ?thesis by (auto simp: used_def)
qed

lemma rtrim_Cons: "x \<noteq> 0x20 \<Longrightarrow> rtrim (x # xs) = x # rtrim xs"
proof -
  assume x: "x \<noteq> 0x20"
  show ?thesis
  proof (cases "\<exists>y\<in>set (rev xs). y \<noteq> 0x20")
    case True
    then show ?thesis using dropWhile_append1 [of _ "rev xs" "\<lambda>c. c = 0x20" "[x]"] by (auto simp: rtrim_def)
  next
    case False
    then have "dropWhile (\<lambda>c. c = 0x20) (rev xs @ [x]) = [x]" "dropWhile (\<lambda>c. c = 0x20) (rev xs) = []"
      using x dropWhile_append2 [of "rev xs" "\<lambda>c. c = 0x20" "[x]"] by (auto simp: dropWhile_eq_Nil_conv)
    then show ?thesis by (simp add: rtrim_def)
  qed
qed

lemma short_wf_ok:
  assumes "short_wf sh"
  shows "short_ok uc sh"
proof -
  have len: "length sh = 11" and b: "short_byte (sh ! 0)" using assms by (simp_all add: short_wf_def)
  obtain x xs where sh: "sh = x # xs" using len by (cases sh) auto
  have x: "0x21 \<le> unat x" "unat x \<le> 0x7e" "x \<noteq> 0x2e" using b by (simp_all add: sh short_byte_def word_le_nat_alt)
  have ne: "x \<noteq> 0" "x \<noteq> 0xe5" "x \<noteq> 5" "x \<noteq> 0x20" "x < 128"
    using x by (auto simp: word_less_nat_alt)
  have "unat (ucast x :: u32) = unat x" using x(2) by (simp add: unsigned_ucast_eq take_bit_nat_eq_self)
  then have dot: "(ucast x :: u32) \<noteq> 0x2e" using x(3) by (auto simp: word_unat_eq_iff)
  obtain ys where t8: "rtrim (take 8 sh) = x # ys" using rtrim_Cons [OF ne(4)] by (simp add: sh)
  have "\<exists>zs. short_alias uc sh 0 = ucast x # zs"
    unfolding short_alias_def Let_def t8 using ne by (simp add: alias_char_def)
  then show ?thesis using len ne dot by (auto simp: short_ok_def sh)
qed

section \<open>Inserting a set into a directory\<close>

text \<open>The state of the parser in front of a slot that it reaches.\<close>

fun lfn_run :: "nat \<Rightarrow> bytes list \<Rightarrow> lfn \<Rightarrow> lfn" where
  "lfn_run index [] st = st"
| "lfn_run index (e # es) st =
     lfn_run (Suc index) es (if e ! 0 \<noteq> 0xe5 \<and> e ! 11 = 0x0f then lfn_step index e st else lfn_clear st)"

lemma records_prefix:
  assumes "\<forall>e\<in>set pre. e ! 0 \<noteq> 0"
  shows "\<exists>rs. \<forall>es. records_loop uc k index (pre @ es) st =
    rs @ records_loop uc k (index + length pre) es (lfn_run index pre st)"
  using assms
proof (induction pre arbitrary: index st)
  case Nil
  then show ?case by (intro exI [of _ "[]"]) simp
next
  case (Cons e pre)
  define st' where "st' = (if e ! 0 \<noteq> 0xe5 \<and> e ! 11 = 0x0f then lfn_step index e st else lfn_clear st)"
  from Cons obtain rs where rs: "\<forall>es. records_loop uc k (Suc index) (pre @ es) st' =
      rs @ records_loop uc k (Suc index + length pre) es (lfn_run (Suc index) pre st')" by fastforce
  define r where "r = (if e ! 0 = 0xe5 \<or> e ! 11 = 0x0f then []
      else (case short_record uc k index e st of None \<Rightarrow> [] | Some r \<Rightarrow> [r]))"
  have "records_loop uc k index (e # es) st = r @ records_loop uc k (Suc index) es st'" for es
    using Cons.prems by (simp add: r_def st'_def)
  then show ?case using rs by (intro exI [of _ "r @ rs"]) (simp add: st'_def)
qed

text \<open>Once cleared, the parser does not look at what it has collected before.\<close>

definition lfn_idle :: "lfn \<Rightarrow> bool" where
  "lfn_idle st \<longleftrightarrow> remaining st = 0 \<and> ltotal st = 0"

lemma lfn_clear_idle [simp]: "lfn_idle (lfn_clear st)"
  by (simp add: lfn_idle_def lfn_clear_def)

lemma lfn_step_idle:
  assumes "lfn_idle st" and "lfn_idle st'"
  shows "lfn_step i e st = lfn_step i e st' \<or> lfn_idle (lfn_step i e st) \<and> lfn_idle (lfn_step i e st')"
proof (cases "e ! 0 AND 0x40 \<noteq> 0 \<and> 0 < unat (e ! 0 AND 0x1f) \<and> unat (e ! 0 AND 0x1f) \<le> 20 \<and> e ! 0 AND 0xa0 = 0")
  case True
  then have "lfn_first i e st = lfn_first i e st'" by (simp add: lfn_first_def Let_def)
  then show ?thesis by (simp add: lfn_step_def)
next
  case False
  then have "lfn_idle (lfn_first i e st)" "lfn_idle (lfn_first i e st')"
    using assms by (auto simp: lfn_first_def Let_def)
  then have "remaining (lfn_first i e st) = 0" "remaining (lfn_first i e st') = 0" by (simp_all add: lfn_idle_def)
  then show ?thesis by (simp add: lfn_step_def Let_def)
qed

lemma short_record_idle:
  "lfn_idle st \<Longrightarrow> lfn_idle st' \<Longrightarrow> short_record uc k i e st = short_record uc k i e st'"
  by (simp add: short_record_def long_name_def lfn_idle_def Let_def)

lemma records_idle:
  "lfn_idle st \<Longrightarrow> lfn_idle st' \<Longrightarrow> records_loop uc k i es st = records_loop uc k i es st'"
proof (induction es arbitrary: i st st')
  case Nil
  then show ?case by simp
next
  case (Cons e es)
  have eq: "records_loop uc k (Suc i) es u = records_loop uc k (Suc i) es u'" if "u = u' \<or> lfn_idle u \<and> lfn_idle u'" for u u'
    using Cons.IH that by auto
  show ?case
    using eq [of "lfn_clear st" "lfn_clear st'"] eq [OF lfn_step_idle [OF Cons.prems, of i e]]
      short_record_idle [OF Cons.prems, of uc k i e] by simp
qed

text \<open>
  The directory after \<open>insert\<close>: when the entries take the place of an end marker, the slot behind
  them becomes one.
\<close>

definition takes_end :: "bytes \<Rightarrow> nat \<Rightarrow> nat \<Rightarrow> bool" where
  "takes_end data off len \<longleftrightarrow> (\<exists>e\<in>set (chunks32 (subrange off len data)). e ! 0 = 0)"

definition dir_placed :: "bytes \<Rightarrow> nat \<Rightarrow> bytes \<Rightarrow> bytes" where
  "dir_placed data off entries =
     put_at off entries
       (if takes_end data off (length entries) \<and> off + length entries < length data
        then data[off + length entries := 0] else data)"

lemma records_deleted:
  "\<forall>e\<in>set es. e ! 0 = 0xe5 \<Longrightarrow> es \<noteq> [] \<Longrightarrow>
     \<exists>st'. records_loop uc k i (es @ post) st = records_loop uc k (i + length es) post (lfn_clear st')"
proof (induction es arbitrary: i st)
  case Nil
  then show ?case by simp
next
  case (Cons e es)
  show ?case
  proof (cases "es = []")
    case True
    then show ?thesis using Cons.prems by (intro exI [of _ st]) simp
  next
    case False
    then show ?thesis using Cons.IH [of "Suc i" "lfn_clear st"] Cons.prems by simp
  qed
qed

lemma records_end:
  assumes "m < length es" and "es ! m ! 0 = 0" and "\<forall>j<m. es ! j ! 0 = 0xe5"
  shows "records_loop uc k i es st = []"
  using assms
proof (induction m arbitrary: es i st)
  case 0
  then show ?case by (cases es) simp_all
next
  case (Suc m)
  then obtain e es' where es: "es = e # es'" by (cases es) auto
  have "e ! 0 = 0xe5" using Suc.prems(3) es by force
  moreover have "\<forall>j<m. es' ! j ! 0 = 0xe5" using Suc.prems(3) es by auto
  ultimately show ?case using Suc.IH [of es' "Suc i" "lfn_clear st"] Suc.prems es by simp
qed

text \<open>The state of the parser at a slot of a directory.\<close>

definition parser_at :: "bytes \<Rightarrow> nat \<Rightarrow> lfn" where
  "parser_at data s = lfn_run 0 (take s (chunks32 data)) lfn_init"

lemma set_entries_count: "length (set_entries uc nm sh first sz at k) = lfn_count uc nm sh + 1"
  by (simp add: set_entries_def)

lemma free_run_end:
  assumes "free_run cs s n" and "\<And>s'. s' < s \<Longrightarrow> \<not> free_run cs s' n"
    and "m < length cs" and "cs ! m ! 0 = 0"
  shows "s \<le> m"
proof (rule ccontr)
  assume "\<not> s \<le> m"
  then have "free_run cs m n"
    using assms(1,4) by (auto simp: free_run_def slot_free_def)
  then show False using assms(2) \<open>\<not> s \<le> m\<close> by simp
qed

lemma insert_tail:
  assumes sn: "s + n \<le> length cs" and n: "0 < n" and slots: "\<And>i. i < n \<Longrightarrow> slot_free cs (s + i)"
    and nozero: "\<And>m. m < s \<Longrightarrow> cs ! m ! 0 \<noteq> 0"
    and tail: "(\<forall>i<n. cs ! (s + i) ! 0 \<noteq> 0) \<Longrightarrow> cs1 = cs" and len: "length cs1 = length cs"
    and fin: "(\<exists>i<n. cs ! (s + i) ! 0 = 0) \<Longrightarrow> s + n < length cs \<Longrightarrow> cs1 ! (s + n) ! 0 = 0"
  shows "records_loop uc k s (drop s cs) st = records_loop uc k (s + n) (drop (s + n) cs1) (lfn_clear st')"
proof (cases "\<exists>i<n. cs ! (s + i) ! 0 = 0")
  case False
  have "cs ! (s + i) ! 0 = 0xe5" if "i < n" for i
  proof -
    have "\<not> (\<exists>j. j \<le> s + i \<and> cs ! j ! 0 = 0)"
    proof
      assume "\<exists>j. j \<le> s + i \<and> cs ! j ! 0 = 0"
      then obtain j where j: "j \<le> s + i" "cs ! j ! 0 = 0" by blast
      then have "s \<le> j" using nozero not_le by blast
      then have "cs ! (s + (j - s)) ! 0 = 0" "j - s < n" using j that by auto
      with False show False by blast
    qed
    then show ?thesis using slots [OF that] unfolding slot_free_def by blast
  qed
  then have del: "\<forall>e\<in>set (take n (drop s cs)). e ! 0 = 0xe5" using sn by (auto simp: in_set_conv_nth)
  have "take n (drop s cs) \<noteq> []" using sn n by simp
  from records_deleted [OF del this, of uc k s "drop n (drop s cs)" st]
  obtain st'' where "records_loop uc k s (take n (drop s cs) @ drop n (drop s cs)) st =
      records_loop uc k (s + length (take n (drop s cs))) (drop n (drop s cs)) (lfn_clear st'')" by blast
  moreover have "length (take n (drop s cs)) = n" using sn by simp
  moreover have "drop n (drop s cs) = drop (s + n) cs1" using tail False by (simp add: add.commute)
  moreover have "take n (drop s cs) @ drop n (drop s cs) = drop s cs" by (rule append_take_drop_id)
  ultimately have "records_loop uc k s (drop s cs) st =
      records_loop uc k (s + n) (drop (s + n) cs1) (lfn_clear st'')" by metis
  then show ?thesis using records_idle [of "lfn_clear st''" "lfn_clear st'"] by simp
next
  case True
  define m where "m = (LEAST i. i < n \<and> cs ! (s + i) ! 0 = 0)"
  have m: "m < n" "cs ! (s + m) ! 0 = 0" using LeastI_ex [OF True] by (simp_all add: m_def)
  have before: "cs ! (s + i) ! 0 \<noteq> 0" if "i < m" for i 
    using not_less_Least [of i "\<lambda>i. i < n \<and> cs ! (s + i) ! 0 = 0"] that m(1) by (simp add: m_def)
  have "cs ! (s + i) ! 0 = 0xe5" if i: "i < m" for i
  proof -
    have "cs ! j ! 0 \<noteq> 0" if "j \<le> s + i" for j
    proof (cases "j < s")
      case True
      then show ?thesis by (rule nozero)
    next
      case False
      then have "j = s + (j - s)" "j - s < m" using that i by auto
      then show ?thesis using before by metis
    qed
    then show ?thesis using slots [of i] i m(1) by (auto simp: slot_free_def)
  qed
  then have "records_loop uc k s (drop s cs) st = []"
    using m sn by (intro records_end [of m]) auto
  moreover have "records_loop uc k (s + n) (drop (s + n) cs1) (lfn_clear st') = []"
  proof (cases "s + n < length cs")
    case True
    then show ?thesis using fin [OF \<open>\<exists>i<n. cs ! (s + i) ! 0 = 0\<close>] len by (intro records_end [of 0]) auto
  next
    case False
    then show ?thesis using len by simp
  qed
  ultimately show ?thesis by simp
qed

lemma insert_records:
  assumes nm: "name_ok nm" and sh: "short_wf sh" and fits: "first_fits k first"
    and at: "at \<noteq> 0x0f" "at AND 8 = 0" and dvd: "32 dvd length data"
    and run: "free_run (chunks32 data) s (lfn_count uc nm sh + 1)"
    and first: "\<And>s'. s' < s \<Longrightarrow> \<not> free_run (chunks32 data) s' (lfn_count uc nm sh + 1)"
    and clean: "lfn_count uc nm sh = 0 \<Longrightarrow> long_name (parser_at data s) sh = None"
  shows "\<exists>R1 R2. records uc data k = R1 @ R2 \<and>
    records uc (dir_placed data (32 * s) (entry_set uc nm sh first sz at k)) k =
      R1 @ new_record uc nm sh first sz at s # R2"
proof -
  define cs where "cs = chunks32 data"
  define es where "es = set_entries uc nm sh first sz at k"
  define n where "n = length es"
  have ne: "n = lfn_count uc nm sh + 1" by (simp add: n_def es_def set_entries_count)
  have l32: "\<forall>e\<in>set es. length e = 32"
    using set_entries_length [OF nm] sh by (auto simp: es_def short_wf_def)
  have sn: "s + n \<le> length cs" and slots: "\<And>i. i < n \<Longrightarrow> slot_free cs (s + i)"
    using run by (auto simp: free_run_def cs_def ne)
  have lencs: "length data = 32 * length cs" using dvd by (simp add: cs_def)
  define data1 where "data1 = (if takes_end data (32 * s) (32 * n) \<and> 32 * s + 32 * n < length data
      then data[32 * s + 32 * n := 0] else data)"
  have placed: "dir_placed data (32 * s) (entry_set uc nm sh first sz at k) = put_at (32 * s) (concat es) data1"
    by (simp add: dir_placed_def data1_def entry_set_concat es_def [symmetric] length_concat_32 [OF l32] n_def)
  define cs1 where "cs1 = chunks32 data1"
  have "length data1 = length data" by (simp add: data1_def)
  then have new: "chunks32 (put_at (32 * s) (concat es) data1) = take s cs1 @ es @ drop (s + n) cs1"
    using chunks32_put [OF l32, of s data1] sn lencs by (simp add: cs1_def n_def algebra_simps)
  have te: "takes_end data (32 * s) (32 * n) \<longleftrightarrow> (\<exists>i<n. cs ! (s + i) ! 0 = 0)"
  proof -
    have "chunks32 (subrange (32 * s) (32 * n) data) = take n (drop s cs)"
      unfolding cs_def by (rule chunks32_subrange) (use sn lencs in simp)
    moreover have "(\<exists>e\<in>set (take n (drop s cs)). e ! 0 = 0) \<longleftrightarrow> (\<exists>i<n. cs ! (s + i) ! 0 = 0)"
    proof -
      have "set (take n (drop s cs)) = (\<lambda>i. cs ! (s + i)) ` {..<n}"
      proof -
        have "take n (drop s cs) = map (\<lambda>i. cs ! (s + i)) [0..<n]"
          using sn by (intro nth_equalityI) simp_all
        then show ?thesis by (simp add: atLeast0LessThan)
      qed
      then show ?thesis by auto
    qed
    ultimately show ?thesis by (simp add: takes_end_def)
  qed
  have cs1: "take s cs1 = take s cs" and cs1_tail: "\<not> takes_end data (32 * s) (32 * n) \<Longrightarrow> cs1 = cs"
    and cs1_end: "takes_end data (32 * s) (32 * n) \<Longrightarrow> s + n < length cs \<Longrightarrow> cs1 ! (s + n) ! 0 = 0"
  proof -
    have upd: "cs1 = cs[s + n := (cs ! (s + n))[0 := 0]]" if "takes_end data (32 * s) (32 * n)" "s + n < length cs"
    proof -
      have "32 * s + 32 * n < length data" using that(2) lencs by linarith
      then have "data1 = data[32 * (s + n) := 0]" using that(1) by (simp only: data1_def simp_thms if_True distrib_left)
      moreover have "s + n < length data div 32" using that(2) by (simp add: cs_def)
      ultimately show ?thesis unfolding cs1_def cs_def by (simp only: chunks32_update)
    qed
    show t: "\<not> takes_end data (32 * s) (32 * n) \<Longrightarrow> cs1 = cs" by (simp add: cs1_def data1_def cs_def)
    have nend: "cs1 = cs" if "\<not> s + n < length cs"
    proof -
      have "\<not> 32 * s + 32 * n < length data" using that lencs by linarith
      then show ?thesis by (simp only: cs1_def data1_def cs_def simp_thms if_False)
    qed
    show "take s cs1 = take s cs"
    proof (cases "takes_end data (32 * s) (32 * n) \<and> s + n < length cs")
      case True
      then show ?thesis using upd by simp
    next
      case False
      then have "cs1 = cs" using t nend by blast
      then show ?thesis by simp
    qed
    assume te: "takes_end data (32 * s) (32 * n)" "s + n < length cs"
    have "s + n < length data div 32" using te(2) by (simp add: cs_def)
    then have "length (cs ! (s + n)) = 32" using nth_chunks32 [of "s + n" data] by (simp add: cs_def)
    then show "cs1 ! (s + n) ! 0 = 0" using upd [OF te] te(2) by (cases "cs ! (s + n)") simp_all
  qed
  define pre where "pre = take s cs"
  have lpre: "length pre = s" using sn by (simp add: pre_def)
  have nozero: "cs ! m ! 0 \<noteq> 0" if "m < s" for m
  proof
    assume "cs ! m ! 0 = 0"
    moreover have "m < length cs" using that sn by simp
    ultimately have "s \<le> m" using free_run_end [OF run first, of m] by (simp add: cs_def)
    then show False using that by simp
  qed
  have "\<forall>e\<in>set pre. e ! 0 \<noteq> 0" using nozero sn by (auto simp: pre_def in_set_conv_nth)
  then obtain rs where rs: "\<And>tl. records_loop uc k 0 (pre @ tl) lfn_init = rs @ records_loop uc k s tl (parser_at data s)"
    using records_prefix [of pre uc k 0 lfn_init] lpre by (auto simp: parser_at_def pre_def cs_def)
  have old: "records uc data k = rs @ records_loop uc k s (drop s cs) (parser_at data s)"
    using rs [of "drop s cs"] by (simp add: records_def pre_def cs_def)
  have "\<exists>st'. records_loop uc k s (es @ drop (s + n) cs1) (parser_at data s) =
      new_record uc nm sh first sz at s # records_loop uc k (s + n) (drop (s + n) cs1) (lfn_clear st')"
  proof -
    have "\<exists>st'. records_loop uc k s (set_entries uc nm sh first sz at k @ drop (s + n) cs1) (parser_at data s) =
        new_record uc nm sh first sz at s # records_loop uc k (Suc (s + lfn_count uc nm sh)) (drop (s + n) cs1) (lfn_clear st')"
      by (rule records_set [OF nm short_wf_ok [OF sh] fits at clean])
    then show ?thesis by (simp add: es_def ne)
  qed
  then obtain st' where st': "records_loop uc k s (es @ drop (s + n) cs1) (parser_at data s) =
      new_record uc nm sh first sz at s # records_loop uc k (s + n) (drop (s + n) cs1) (lfn_clear st')" by blast
  have newr: "records uc (dir_placed data (32 * s) (entry_set uc nm sh first sz at k)) k =
      rs @ new_record uc nm sh first sz at s # records_loop uc k (s + n) (drop (s + n) cs1) (lfn_clear st')"
    using rs [of "es @ drop (s + n) cs1"] st' by (simp add: records_def placed new cs1 pre_def)
  have "records_loop uc k s (drop s cs) (parser_at data s) =
      records_loop uc k (s + n) (drop (s + n) cs1) (lfn_clear st')"
  proof (rule insert_tail [OF sn _ slots nozero])
    show "0 < n" by (simp add: ne)
    show "cs1 = cs" if "\<forall>i<n. cs ! (s + i) ! 0 \<noteq> 0" using that te cs1_tail by blast
    show "length cs1 = length cs" by (simp add: cs1_def cs_def data1_def)
    show "cs1 ! (s + n) ! 0 = 0" if "\<exists>i<n. cs ! (s + i) ! 0 = 0" "s + n < length cs" using that te cs1_end by blast
  qed
  then show ?thesis using old newr by auto
qed

end
