(* ===== verification/Fat_Volume.thy ===== *)
theory Fat_Volume
  imports Fat_Chain Fat_Entries
begin

text \<open>
  Files and directories of a mounted FAT volume (\<open>src/fs/fat.rs\<close>): reading and writing clusters and
  directories, path lookup, file contents, creation, replacement, growth and removal of files, and
  finding a volume on the device (superfloppy, MBR and GPT partitions).

  An operation on \<open>&self\<close> or \<open>&mut self\<close> is an operation of the state \<open>fat_state\<close>. The loop in
  \<open>insert\<close> that grows a directory has a fuel of one round per cluster that fits below
  \<open>MAX_METADATA\<close>; running out of it would be a panic of the model, and is shown not to happen.
\<close>

section \<open>Clusters and directories\<close>

record Dir =
  dir_cluster :: u32
  dir_root :: bool

definition fat_root :: "'z Volume_scheme \<Rightarrow> Dir" where
  "fat_root v = \<lparr>dir_cluster = root_cluster v, dir_root = True\<rparr>"

definition fat_read_cluster :: "u32 \<Rightarrow> bytes fat_op" where
  "fat_read_cluster c =
     andThen (gets (\<lambda>v. fat_valid v c)) (\<lambda>ok.
     if \<not> ok then fail ''invalid FAT cluster''
     else andThen (gets (\<lambda>v. (fat_cluster_lba v c, unat (spc v)))) (\<lambda>(lba, n).
          on_blk (read_run ''disk read failed'' lba n)))"

definition fat_write_cluster :: "u32 \<Rightarrow> bytes \<Rightarrow> unit fat_op" where
  "fat_write_cluster c data =
     andThen (gets (\<lambda>v. fat_valid v c \<and> length data = fat_bytes v)) (\<lambda>ok.
     if \<not> ok then fail ''invalid cluster write''
     else andThen (gets (\<lambda>v. (fat_cluster_lba v c, unat (spc v)))) (\<lambda>(lba, n).
          for_each (\<lambda>i. fat_write_sector (lba + of_nat i) (subrange (SECTOR * i) SECTOR data)) [0..<n]))"

text \<open>The root directory of FAT12/16 lies outside of the cluster heap.\<close>

definition fixed_root :: "'z Volume_scheme \<Rightarrow> Dir \<Rightarrow> bool" where
  "fixed_root v dir \<longleftrightarrow> dir_root dir \<and> kind v \<noteq> Fat32"

definition fat_load_dir :: "Dir \<Rightarrow> (u32 list \<times> bytes) fat_op" where
  "fat_load_dir dir =
     andThen (gets_res fat_check) (\<lambda>_.
     andThen (gets (\<lambda>v. fixed_root v dir)) (\<lambda>fixed.
     if fixed
     then andThen (gets (\<lambda>v. (root_lba v, root_entries v))) (\<lambda>(lba, n).
          andThen (on_blk (read_run ''directory read failed'' lba ((n * 32 + SECTOR - 1) div SECTOR))) (\<lambda>data.
          ret ([], take (n * 32) data)))
     else andThen (gets_res (\<lambda>v. if fat_bytes v = 0 then None
                                 else fat_chain v (dir_cluster dir) (MAX_METADATA div fat_bytes v))) (\<lambda>chain.
          if chain = [] then fail ''directory has no cluster''
          else andThen (map_each fat_read_cluster chain) (\<lambda>cs. ret (chain, concat cs)))))"

text \<open>Writing back one sector of a loaded directory.\<close>

definition fat_store_sector :: "Dir \<Rightarrow> u32 list \<Rightarrow> bytes \<Rightarrow> nat \<Rightarrow> unit fat_op" where
  "fat_store_sector dir chain data index =
     (let begin = index * SECTOR; tk = min SECTOR (length data - begin) in
      andThen (if tk < SECTOR
               then andThen (gets root_lba) (\<lambda>lba. on_blk (fat_sector (lba + of_nat index)))
               else ret (replicate SECTOR 0)) (\<lambda>buf.
      andThen (gets_opt (\<lambda>v.
         if fixed_root v dir then Some (root_lba v + of_nat index)
         else if fat_bytes v = 0 then None
         else map_option (\<lambda>c. fat_cluster_lba v c + of_nat (begin mod fat_bytes v div SECTOR))
                (idx chain (begin div fat_bytes v)))) (\<lambda>lba.
      fat_write_sector lba (put_at 0 (subrange begin tk data) buf))))"

definition fat_store_dir :: "Dir \<Rightarrow> u32 list \<Rightarrow> bytes \<Rightarrow> nat \<Rightarrow> nat \<Rightarrow> unit fat_op" where
  "fat_store_dir dir chain data off len =
     (if length data < off + len then fail ''invalid directory update''
      else for_each (fat_store_sector dir chain data) [off div SECTOR..<(off + len + SECTOR - 1) div SECTOR])"

section \<open>Paths\<close>

definition matches :: "unicode \<Rightarrow> rstr \<Rightarrow> Record \<Rightarrow> bool" where
  "matches uc part r \<longleftrightarrow> same uc (name r) part \<or> same uc (alias_of r) part"

definition sub_dir :: "Record \<Rightarrow> Dir" where
  "sub_dir r = \<lparr>dir_cluster = cluster r, dir_root = False\<rparr>"

text \<open>The entry of a name in a directory.\<close>

definition fat_find :: "unicode \<Rightarrow> Dir \<Rightarrow> rstr \<Rightarrow> Record option fat_op" where
  "fat_find uc dir part =
     andThen (fat_load_dir dir) (\<lambda>(_, data).
     andThen (gets kind) (\<lambda>k. ret (find (matches uc part) (records uc data k))))"

fun fat_walk :: "unicode \<Rightarrow> Dir \<Rightarrow> rstr list \<Rightarrow> (Dir \<times> Record) fat_op" where
  "fat_walk uc dir [] = fail ''cannot operate on the root directory''"
| "fat_walk uc dir (part # parts) =
     andThen (fat_find uc dir part) (\<lambda>found. case found of
       None \<Rightarrow> fail ''file not found''
     | Some r \<Rightarrow>
         if parts = [] then ret (dir, r)
         else if \<not> is_dir r then fail ''not a directory''
         else fat_walk uc (sub_dir r) parts)"

definition fat_lookup :: "unicode \<Rightarrow> rstr \<Rightarrow> (Dir \<times> Record) fat_op" where
  "fat_lookup uc path = andThen (gets fat_root) (\<lambda>dir. fat_walk uc dir (components path))"

definition fat_directory :: "unicode \<Rightarrow> rstr \<Rightarrow> Dir fat_op" where
  "fat_directory uc path =
     (if components path = [] then gets fat_root
      else andThen (fat_lookup uc path) (\<lambda>(_, r).
           if \<not> is_dir r then fail ''not a directory'' else ret (sub_dir r)))"

fun fat_descend :: "unicode \<Rightarrow> Dir \<Rightarrow> rstr list \<Rightarrow> Dir fat_op" where
  "fat_descend uc dir [] = ret dir"
| "fat_descend uc dir (part # parts) =
     andThen (fat_find uc dir part) (\<lambda>found. case found of
       None \<Rightarrow> fail ''no such directory''
     | Some r \<Rightarrow> if \<not> is_dir r then fail ''not a directory'' else fat_descend uc (sub_dir r) parts)"

definition fat_parent :: "unicode \<Rightarrow> rstr \<Rightarrow> (Dir \<times> rstr) fat_op" where
  "fat_parent uc path =
     (let parts = components path in
      if parts = [] then fail ''missing file name''
      else andThen (gets fat_root) (\<lambda>dir.
           andThen (fat_descend uc dir (butlast parts)) (\<lambda>dir. ret (dir, last parts))))"

section \<open>File contents\<close>

text \<open>The loop of \<open>data\<close>: what is still missing of the file bounds what is taken of each cluster.\<close>

fun fat_collect :: "u32 list \<Rightarrow> nat \<Rightarrow> bytes \<Rightarrow> bytes fat_op" where
  "fat_collect [] sz acc = ret acc"
| "fat_collect (c # cs) sz acc =
     andThen (fat_read_cluster c) (\<lambda>chunk. fat_collect cs sz (acc @ take (sz - length acc) chunk))"

definition fat_data :: "Record \<Rightarrow> bytes fat_op" where
  "fat_data r =
     (if is_dir r then fail ''is a directory''
      else if MAX_FILE < unat (size_of r) then fail ''file exceeds 16 MiB driver limit''
      else andThen (gets_opt (\<lambda>v. if fat_bytes v = 0 then None else Some (fat_bytes v))) (\<lambda>bytes.
           let needed = (unat (size_of r) + bytes - 1) div bytes in
           andThen (gets_res (\<lambda>v. fat_chain v (cluster r) (MAX_FILE div bytes + 1))) (\<lambda>chain.
           if length chain < needed then fail ''file chain shorter than file size''
           else fat_collect (take needed chain) (unat (size_of r)) [])))"

definition fat_put_part :: "bytes \<Rightarrow> nat \<Rightarrow> u32 list \<Rightarrow> nat \<Rightarrow> unit fat_op" where
  "fat_put_part data bytes cls i =
     fat_write_cluster (cls ! i)
       (let part = subrange (i * bytes) (min bytes (length data - i * bytes)) data
        in part @ replicate (bytes - length part) 0)"

definition fat_write_data :: "bytes \<Rightarrow> u32 fat_op" where
  "fat_write_data data =
     (if MAX_FILE < length data then fail ''file exceeds 16 MiB driver limit''
      else andThen (gets_opt (\<lambda>v. if fat_bytes v = 0 then None else Some (fat_bytes v))) (\<lambda>bytes.
           andThen (fat_allocate ((length data + bytes - 1) div bytes)) (\<lambda>cls.
           andThen (for_each (fat_put_part data bytes cls) [0..<length cls]) (\<lambda>_.
           ret (if cls = [] then 0 else hd cls)))))"

section \<open>Changing directories\<close>

text \<open>The loop of \<open>insert\<close> that looks for free slots and appends clusters until there are enough.\<close>

fun fat_make_room :: "nat \<Rightarrow> Dir \<Rightarrow> nat \<Rightarrow> u32 list \<Rightarrow> bytes \<Rightarrow> (nat \<times> u32 list \<times> bytes) fat_op" where
  "fat_make_room 0 dir needed chain data = (\<lambda>s. None)"
| "fat_make_room (Suc fuel) dir needed chain data =
     (case free_slots data needed of
        Some off \<Rightarrow> ret (off, chain, data)
      | None \<Rightarrow>
          andThen (gets (\<lambda>v. (fixed_root v dir, fat_bytes v))) (\<lambda>(fixed, bytes).
          if fixed then fail ''FAT12/16 root directory full''
          else if MAX_METADATA < length data + bytes then fail ''directory too large''
          else andThen (fat_allocate 1) (\<lambda>sel.
               andThen (gets_opt (\<lambda>v. idx sel 0)) (\<lambda>new.
               andThen (fat_write_cluster new (replicate bytes 0)) (\<lambda>_.
               if chain = [] then fail ''empty directory chain''
               else andThen (fat_set (last chain) new) (\<lambda>_.
                    fat_make_room fuel dir needed (chain @ [new]) (data @ replicate bytes 0)))))))"

definition fat_insert :: "unicode \<Rightarrow> Dir \<Rightarrow> rstr \<Rightarrow> u32 \<Rightarrow> u32 \<Rightarrow> u8 \<Rightarrow> unit fat_op" where
  "fat_insert uc dir nm first sz at =
     andThen (gets_res (\<lambda>v. Some (validate_name nm))) (\<lambda>_.
     andThen (fat_load_dir dir) (\<lambda>(chain, data).
     andThen (gets kind) (\<lambda>k.
     let existing = records uc data k in
     if \<exists>r\<in>set existing. matches uc nm r then fail ''already exists''
     else andThen (gets_res (\<lambda>v. Some (short_name nm existing))) (\<lambda>sh.
     let entries = entry_set uc nm sh first sz at k; n = length entries in
     andThen (gets_opt (\<lambda>v. if fixed_root v dir then Some 1
                             else if fat_bytes v = 0 then None else Some (MAX_METADATA div fat_bytes v + 1))) (\<lambda>fuel.
     andThen (fat_make_room fuel dir (n div 32) chain data) (\<lambda>(off, chain, data).
     let fin = off + n;
         consumed = (takes_end data off n \<and> fin < length data);
         data = (if consumed then data[fin := 0] else data) in
     andThen (if consumed then fat_store_dir dir chain data fin 32 else ret ()) (\<lambda>_.
     let lfns = put_at off (take (n - 32) entries) data in
     andThen (if 32 < n then fat_store_dir dir chain lfns off (n - 32) else ret ()) (\<lambda>_.
     fat_store_dir dir chain (put_at (off + n - 32) (drop (n - 32) entries) lfns) (off + n - 32) 32))))))))"

definition fat_update_entry :: "Dir \<Rightarrow> Record \<Rightarrow> u32 \<Rightarrow> u32 \<Rightarrow> unit fat_op" where
  "fat_update_entry dir r first sz =
     andThen (fat_load_dir dir) (\<lambda>(chain, data).
     andThen (gets_opt (\<lambda>v. if offset r + 32 \<le> length data then Some (kind v) else None)) (\<lambda>k.
     if subrange (offset r) 11 data \<noteq> short r then fail ''stale directory entry''
     else let data = put_at (offset r) (put_cluster (subrange (offset r) 32 data) first k) data in
          fat_store_dir dir chain (put_at (offset r + 28) (to_le 4 sz) data) (offset r) 32))"

section \<open>Operations on paths\<close>

text \<open>\<open>if !vol.failed { let _ = vol.free(first); } return Err(error);\<close>\<close>

definition fat_undo :: "u32 \<Rightarrow> string \<Rightarrow> unit fat_op" where
  "fat_undo first e =
     andThen (gets failed) (\<lambda>f.
       if f then fail e else andThen (attempt (fat_free first)) (\<lambda>_. fail e))"

definition fat_create :: "unicode \<Rightarrow> rstr \<Rightarrow> bytes \<Rightarrow> unit fat_op" where
  "fat_create uc path data =
     andThen (gets_res fat_check) (\<lambda>_.
     andThen (fat_parent uc path) (\<lambda>(parent, nm).
     andThen (gets_res (\<lambda>v. Some (validate_name nm))) (\<lambda>_.
     andThen (fat_find uc parent nm) (\<lambda>found.
     if found \<noteq> None then fail ''already exists''
     else andThen (fat_write_data data) (\<lambda>first.
          andThen (attempt (fat_insert uc parent nm first (of_nat (length data)) 0x20)) (\<lambda>res.
          case res of Inl e \<Rightarrow> fat_undo first e | Inr _ \<Rightarrow> ret ()))))))"

definition fat_overwrite :: "unicode \<Rightarrow> rstr \<Rightarrow> bytes \<Rightarrow> unit fat_op" where
  "fat_overwrite uc path data =
     andThen (gets_res fat_check) (\<lambda>_.
     andThen (fat_parent uc path) (\<lambda>(parent, nm).
     andThen (gets_res (\<lambda>v. Some (validate_name nm))) (\<lambda>_.
     andThen (fat_find uc parent nm) (\<lambda>found. case found of
       None \<Rightarrow> fat_create uc path data
     | Some r \<Rightarrow>
         if is_dir r then fail ''is a directory''
         else if attr r AND 1 \<noteq> 0 then fail ''file is read-only''
         else andThen (fat_write_data data) (\<lambda>first.
              andThen (attempt (fat_update_entry parent r first (of_nat (length data)))) (\<lambda>res.
              case res of Inl e \<Rightarrow> fat_undo first e | Inr _ \<Rightarrow> fat_free (cluster r)))))))"

definition fat_append :: "unicode \<Rightarrow> rstr \<Rightarrow> bytes \<Rightarrow> unit fat_op" where
  "fat_append uc path data =
     andThen (fat_parent uc path) (\<lambda>(parent, nm).
     andThen (fat_find uc parent nm) (\<lambda>found. case found of
       None \<Rightarrow> fat_create uc path data
     | Some r \<Rightarrow>
         andThen (fat_data r) (\<lambda>old.
           if MAX_FILE < length old + length data then fail ''file exceeds 16 MiB driver limit''
           else fat_overwrite uc path (old @ data))))"

definition dot_short :: bytes where "dot_short = 0x2e # replicate 10 0x20"

definition dotdot_short :: bytes where "dotdot_short = 0x2e # 0x2e # replicate 9 0x20"

definition last32 :: "bytes \<Rightarrow> bytes" where "last32 b = drop (length b - 32) b"

definition fat_mkdir :: "unicode \<Rightarrow> rstr \<Rightarrow> unit fat_op" where
  "fat_mkdir uc path =
     andThen (gets_res fat_check) (\<lambda>_.
     andThen (fat_parent uc path) (\<lambda>(parent, nm).
     andThen (gets_res (\<lambda>v. Some (validate_name nm))) (\<lambda>_.
     andThen (fat_find uc parent nm) (\<lambda>found.
     if found \<noteq> None then fail ''already exists''
     else andThen (fat_allocate 1) (\<lambda>sel.
          andThen (gets_opt (\<lambda>v. idx sel 0)) (\<lambda>c.
          andThen (gets (\<lambda>v. (fat_bytes v, kind v))) (\<lambda>(bytes, k).
          let dot = entry_set uc [0x2e] dot_short c 0 0x10 k;
              dotdot = entry_set uc [0x2e, 0x2e] dotdot_short (if dir_root parent then 0 else dir_cluster parent) 0 0x10 k
          in andThen (gets_opt (\<lambda>v. if 64 \<le> bytes
                then Some (put_at 32 (last32 dotdot) (put_at 0 (last32 dot) (replicate bytes 0))) else None)) (\<lambda>data.
             andThen (fat_write_cluster c data) (\<lambda>_.
             andThen (attempt (fat_insert uc parent nm c 0 0x10)) (\<lambda>res.
             case res of Inl e \<Rightarrow> fat_undo c e | Inr _ \<Rightarrow> ret ()))))))))))"

text \<open>The offsets \<open>(start..=offset).step_by(32)\<close> that \<open>delete\<close> marks.\<close>

definition fat_marks :: "Record \<Rightarrow> nat list" where
  "fat_marks r = (if start r \<le> offset r
     then map (\<lambda>i. start r + 32 * i) [0..<(offset r - start r) div 32 + 1] else [])"

definition fat_delete :: "unicode \<Rightarrow> rstr \<Rightarrow> unit fat_op" where
  "fat_delete uc path =
     andThen (gets_res fat_check) (\<lambda>_.
     andThen (fat_lookup uc path) (\<lambda>(parent, r).
     if attr r AND 1 \<noteq> 0 then fail ''file is read-only''
     else andThen (if is_dir r
                   then andThen (fat_load_dir (sub_dir r)) (\<lambda>(_, data).
                        andThen (gets kind) (\<lambda>k. ret (records uc data k = [])))
                   else ret True) (\<lambda>empty.
     if \<not> empty then fail ''directory not empty''
     else andThen (gets_res (\<lambda>v. if fat_bytes v = 0 then None
                                 else fat_chain v (cluster r) (MAX_FILE div fat_bytes v + 1))) (\<lambda>_.
          andThen (fat_load_dir parent) (\<lambda>(chain, dir).
          andThen (gets_opt (\<lambda>v. if \<forall>off\<in>set (fat_marks r). off < length dir
                                  then Some (foldl (\<lambda>d off. d[off := 0xe5]) dir (fat_marks r)) else None)) (\<lambda>dir.
          andThen (fat_store_dir parent chain dir (start r) (offset r + 32 - start r)) (\<lambda>_.
          fat_free (cluster r))))))))"

end
