(* ===== verification/Fat_Files.thy ===== *)
theory Fat_Files
  imports Fat_Volume
begin

text \<open>
  Files and directories of a FAT volume on disk: which sectors the operations of \<open>Fat_Volume\<close> write,
  and that writing a cluster, a directory or a file and reading it back gives what was written.
\<close>

section \<open>Clusters on the device\<close>

definition cl_lba :: "'z Volume_scheme \<Rightarrow> u32 \<Rightarrow> nat \<Rightarrow> u64" where
  "cl_lba v c i = fat_cluster_lba v c + of_nat i"

definition cl_sectors :: "'z Volume_scheme \<Rightarrow> u32 \<Rightarrow> u64 set" where
  "cl_sectors v c = cl_lba v c ` {..<unat (spc v)}"

definition cluster_data :: "fat_state \<Rightarrow> u32 \<Rightarrow> bytes" where
  "cluster_data s c = sectors (blk s) (fat_cluster_lba s c) (unat (spc s))"

lemma unat_ucast_u32: "unat (ucast (c :: u32) :: u64) = unat c"
  using unat_lt_u32 [of c] by (simp add: unsigned_ucast_eq take_bit_nat_eq_self)

lemma cl_lba_unat:
  assumes "fat_shape s" and "fat_geom s" and "fat_valid s c" and "i < unat (spc s)"
  shows "unat (cl_lba s c i) = unat (data_lba s) + (unat c - 2) * unat (spc s) + i"
    and "cl_lba s c i < dk_capacity (blk s)"
proof -
  have c: "2 \<le> unat c" "unat c < unat (clusters s) + 2" using fat_valid_iff assms by blast+
  then have "unat c - 2 < unat (clusters s)" by simp
  then have "(unat c - 2) * unat (spc s) + unat (spc s) \<le> unat (clusters s) * unat (spc s)"
    by (metis Suc_leI add.commute mult_Suc mult_le_mono1)
  moreover have geom: "unat (data_lba s) + unat (clusters s) * unat (spc s) \<le> unat (dk_capacity (blk s))"
    using assms(2) by (simp add: fat_geom_def)
  ultimately have bnd: "unat (data_lba s) + (unat c - 2) * unat (spc s) + i < unat (dk_capacity (blk s))"
    using assms(4) by linarith
  have "(2 :: u64) \<le> ucast c"
  proof -
    have "unat (2 :: u64) \<le> unat (ucast c :: u64)" using c by (simp add: unat_ucast_u32)
    then show ?thesis by (simp add: word_le_nat_alt)
  qed
  then have u: "unat ((ucast c :: u64) - 2) = unat c - 2"
    by (simp add: unat_sub unat_ucast_u32)
  have eq: "cl_lba s c i = of_nat (unat (data_lba s) + (unat c - 2) * unat (spc s) + i)"
    unfolding cl_lba_def fat_cluster_lba_def of_nat_add of_nat_mult u [symmetric] unat_ucast_u32 [of "spc s", symmetric]
    by simp
  show "unat (cl_lba s c i) = unat (data_lba s) + (unat c - 2) * unat (spc s) + i"
    unfolding eq by (rule unat_of_nat_small) (use bnd unat_lt_u64 [of "dk_capacity (blk s)"] in simp)
  then show "cl_lba s c i < dk_capacity (blk s)" using bnd by (simp add: word_less_nat_alt)
qed

lemma cl_lba_inj:
  assumes "fat_shape s" and "fat_geom s" and "fat_valid s c" "i < unat (spc s)"
    and "fat_valid s c'" "i' < unat (spc s)" and "cl_lba s c i = cl_lba s c' i'"
  shows "c = c' \<and> i = i'"
proof -
  have "(unat c - 2) * unat (spc s) + i = (unat c' - 2) * unat (spc s) + i'"
    using cl_lba_unat(1) [OF assms(1-4)] cl_lba_unat(1) [OF assms(1,2,5,6)] assms(7) by simp
  then have "((unat c - 2) * unat (spc s) + i) div unat (spc s) = ((unat c' - 2) * unat (spc s) + i') div unat (spc s)"
    "((unat c - 2) * unat (spc s) + i) mod unat (spc s) = ((unat c' - 2) * unat (spc s) + i') mod unat (spc s)"
    by simp_all
  then have "unat c - 2 = unat c' - 2" "i = i'" using assms(4,6) by simp_all
  moreover have "2 \<le> unat c" "2 \<le> unat c'" using fat_valid_iff assms(1,3,5) by blast+
  ultimately show ?thesis by (simp add: word_unat_eq_iff)
qed

lemma cl_sectors_disjoint:
  assumes "fat_shape s" and "fat_geom s" and "fat_valid s c" and "fat_valid s c'" and "c \<noteq> c'"
  shows "cl_sectors s c \<inter> cl_sectors s c' = {}"
  using cl_lba_inj [OF assms(1-3) _ assms(4)] assms(5) by (auto simp: cl_sectors_def)

text \<open>The sectors behind the table: the fixed root directory and the clusters.\<close>

definition data_area :: "'z Volume_scheme \<Rightarrow> u64 set" where
  "data_area v = {l. unat (root_lba v) \<le> unat l}"

lemma data_area_meta: "fat_geom s \<Longrightarrow> data_area s \<inter> meta_lba s = {}"
  by (auto simp: data_area_def meta_lba_def fat_geom_def word_less_nat_alt)

lemma cl_sectors_area:
  assumes "fat_shape s" and "fat_geom s" and "fat_valid s c"
  shows "cl_sectors s c \<subseteq> data_area s"
proof -
  have "unat (root_lba s) \<le> unat (data_lba s)" using assms(2) unfolding fat_geom_def by linarith
  then show ?thesis using cl_lba_unat(1) [OF assms] by (auto simp: cl_sectors_def data_area_def)
qed

section \<open>Writes behind the table\<close>

definition wrote :: "fat_state \<Rightarrow> u64 set \<Rightarrow> fat_state \<Rightarrow> bool" where
  "wrote s L s' \<longleftrightarrow> (\<exists>d. s' = s\<lparr>blk := d\<rparr> \<and> dk_capacity d = dk_capacity (blk s) \<and> disk_ok d
     \<and> (reliable (blk s) \<longrightarrow> reliable d) \<and> (\<forall>l. l \<notin> L \<longrightarrow> dk_data d l = dk_data (blk s) l))"

text \<open>A write in \<open>L\<close> failed.\<close>

definition spoiled :: "fat_state \<Rightarrow> u64 set \<Rightarrow> fat_state \<Rightarrow> bool" where
  "spoiled s L s' \<longleftrightarrow> (\<exists>d. s' = s\<lparr>blk := d, failed := True\<rparr> \<and> dk_capacity d = dk_capacity (blk s) \<and> disk_ok d
     \<and> \<not> reliable (blk s) \<and> (\<forall>l. l \<notin> L \<longrightarrow> dk_data d l = dk_data (blk s) l))"

lemma wrote_refl: "disk_ok (blk s) \<Longrightarrow> wrote s L s"
  unfolding wrote_def by (rule exI [of _ "blk s"]) simp

lemma wrote_trans:
  assumes "wrote s L s'" and "wrote s' L s''"
  shows "wrote s L s''"
  using assms unfolding wrote_def by auto

lemma wrote_spoiled:
  assumes "wrote s L s'" and "spoiled s' L s''"
  shows "spoiled s L s''"
  using assms unfolding wrote_def spoiled_def by auto

lemma wrote_mono: "wrote s L s' \<Longrightarrow> L \<subseteq> L' \<Longrightarrow> wrote s L' s'"
  unfolding wrote_def by blast

lemma spoiled_mono: "spoiled s L s' \<Longrightarrow> L \<subseteq> L' \<Longrightarrow> spoiled s L' s'"
  unfolding spoiled_def by blast

lemma wrote_fields:
  assumes "wrote s L s'"
  shows "same_geo s s'" "fat s' = fat s" "hint s' = hint s" "free_count s' = free_count s" "failed s' = failed s"
    "disk_ok (blk s')" "reliable (blk s) \<Longrightarrow> reliable (blk s')" "l \<notin> L \<Longrightarrow> dk_data (blk s') l = dk_data (blk s) l"
    "ent s' = ent s" "fat_shape s' = fat_shape s" "fat_free_set s' = fat_free_set s" "links s' = links s"
    "is_chain s' = is_chain s" "fat_chain s' = fat_chain s"
proof -
  obtain d where d: "s' = s\<lparr>blk := d\<rparr>" "dk_capacity d = dk_capacity (blk s)" "disk_ok d"
    "reliable (blk s) \<longrightarrow> reliable d" "\<And>l. l \<notin> L \<Longrightarrow> dk_data d l = dk_data (blk s) l"
    using assms unfolding wrote_def by blast
  show "same_geo s s'" "fat s' = fat s" "hint s' = hint s" "free_count s' = free_count s" "failed s' = failed s"
    "disk_ok (blk s')" "reliable (blk s) \<Longrightarrow> reliable (blk s')" "l \<notin> L \<Longrightarrow> dk_data (blk s') l = dk_data (blk s) l"
    using d by simp_all
  show e: "ent s' = ent s" by (rule ext) (simp add: d(1) ent_def)
  have v: "fat_valid s' = fat_valid s" by (rule ext) (simp add: d(1) fat_valid_def)
  show "fat_shape s' = fat_shape s" by (simp add: d(1) fat_shape_def)
  show "fat_free_set s' = fat_free_set s" by (simp add: fat_free_set_def v e)
  have i: "fat_is_eof s' = fat_is_eof s" by (rule ext) (simp add: d(1) fat_is_eof_def fat_eof_def)
  show l: "links s' = links s"
  proof
    fix cs show "links s' cs = links s cs" by (induction cs rule: induct_list012) (simp_all add: e i)
  qed
  show "is_chain s' = is_chain s" by (rule ext) (simp add: is_chain_def l v)
  have kd: "kind s' = kind s" by (simp add: d(1))
  have g: "fat_get s' = fat_get s" unfolding fat_get_def v \<open>fat s' = fat s\<close> kd ..
  have "fat_chain_loop s' mx c out = fat_chain_loop s mx c out" for mx c out
  proof (induction "mx - length out" arbitrary: c out rule: less_induct)
    case less
    show ?case
    proof (cases "\<not> fat_valid s c \<or> mx \<le> length out \<or> c \<in> set out")
      case False
      then have lp: "fat_chain_loop s' mx n (out @ [c]) = fat_chain_loop s mx n (out @ [c])" for n
        by (intro less) auto
      show ?thesis
        unfolding fat_chain_loop.simps [of s' mx c] fat_chain_loop.simps [of s mx c] v g i lp ..
    qed (unfold fat_chain_loop.simps [of s' mx c] fat_chain_loop.simps [of s mx c] v, simp)
  qed
  then show "fat_chain s' = fat_chain s" by (intro ext) (simp add: fat_chain_def d(1))
qed

lemma wrote_inv:
  assumes "wrote s L s'" and "L \<subseteq> data_area s" and "fat_inv s"
  shows "fat_inv s'"
proof -
  note w = wrote_fields [OF assms(1)]
  have geom: "fat_geom s" using assms(3) by (simp add: fat_inv_def fat_ok_def)
  have a: "unat (active s) < unat (fats s)" using assms(3) by (simp add: fat_inv_def fat_ok_def fat_shape_def)
  have "dk_data (blk s') (fat_copy_lba s (unat (active s)) i) = dk_data (blk s) (fat_copy_lba s (unat (active s)) i)"
    if "i < unat (fat_sectors s)" for i
    using fat_copy_lba_meta [OF geom a that] data_area_meta [OF geom] assms(2) by (intro w(8)) blast
  then have "fat_synced s \<Longrightarrow> fat_synced s'"
    unfolding fat_synced_def copy_synced_def same_geo_defs [OF w(1)] same_geo_fields [OF w(1)] w(2) by simp
  then show ?thesis
    using assms(3) unfolding fat_inv_def fat_ok_def w(4,5,10,11) same_geo_defs [OF w(1)] by (simp add: w(6))
qed

lemma spoiled_inv:
  assumes "spoiled s L s'" and "fat_inv s"
  shows "fat_inv s'" "same_geo s s'" "failed s'" "\<not> reliable (blk s)"
proof -
  obtain d where d: "s' = s\<lparr>blk := d, failed := True\<rparr>" "dk_capacity d = dk_capacity (blk s)" "disk_ok d" "\<not> reliable (blk s)"
    using assms(1) unfolding spoiled_def by blast
  show g: "same_geo s s'" "failed s'" "\<not> reliable (blk s)" using d by (simp_all add: same_geo_def geo_def)
  have "fat_shape s' = fat_shape s" by (simp add: d(1) fat_shape_def)
  then show "fat_inv s'"
    using assms(2) g d(1,3) unfolding fat_inv_def fat_ok_def same_geo_defs [OF g(1)] by simp
qed

lemma same_data_wrote: "same_data (blk s) d \<Longrightarrow> disk_ok (blk s) \<Longrightarrow> wrote s L (s\<lparr>blk := d\<rparr>)"
  unfolding wrote_def same_data_def by auto

lemma write_sector_wrote:
  assumes "wrote s L s1" and "\<not> failed s" and "length data = SECTOR" and "lba \<in> L" and "lba < dk_capacity (blk s)"
  shows "(\<exists>s'. fat_write_sector lba data s1 = Some (Ok (), s') \<and> wrote s L s'
      \<and> dk_data (blk s') = (dk_data (blk s1))(lba := data)) \<or>
    (\<exists>e s'. fat_write_sector lba data s1 = Some (Err e, s') \<and> spoiled s L s')"
proof -
  obtain d where d: "s1 = s\<lparr>blk := d\<rparr>" "dk_capacity d = dk_capacity (blk s)" "disk_ok d"
    "reliable (blk s) \<longrightarrow> reliable d" "\<And>l. l \<notin> L \<Longrightarrow> dk_data d l = dk_data (blk s) l"
    using assms(1) unfolding wrote_def by blast
  have "\<not> failed s1" "disk_ok (blk s1)" using assms(2) d by simp_all
  from this(1) assms(3) this(2) show ?thesis
  proof (cases rule: fat_write_sector_cases [where lba = lba])
    case (Ok d')
    have "wrote s L (s1\<lparr>blk := d'\<rparr>)"
      unfolding wrote_def using Ok d assms(4) by (intro exI [of _ d']) auto
    then show ?thesis using Ok(1,2) by simp
  next
    case (Err d')
    have "spoiled s L (s1\<lparr>blk := d', failed := True\<rparr>)"
      unfolding spoiled_def using Err d assms(4,5) by (intro exI [of _ d']) (auto, metis)
    then show ?thesis using Err(1) by auto
  qed
qed

definition cl_filled :: "fat_state \<Rightarrow> u32 \<Rightarrow> bytes \<Rightarrow> nat list \<Rightarrow> fat_state \<Rightarrow> bool" where
  "cl_filled s c data is s' \<longleftrightarrow> wrote s (cl_sectors s c) s' \<and>
     (\<forall>i\<in>set is. dk_data (blk s') (cl_lba s c i) = subrange (SECTOR * i) SECTOR data)"

lemma concat_sectors:
  assumes "length data = SECTOR * n"
  shows "concat (map (\<lambda>i. subrange (SECTOR * i) SECTOR data) [0..<n]) = data"
  using assms
proof (induction n arbitrary: data)
  case (Suc n)
  have len: "length (take (SECTOR * n) data) = SECTOR * n" using Suc(2) by simp
  have "subrange (SECTOR * i) SECTOR (take (SECTOR * n) data) = subrange (SECTOR * i) SECTOR data" if "i < n" for i
  proof -
    have "SECTOR * i + SECTOR \<le> SECTOR * n" using that by simp
    then have "min SECTOR (SECTOR * n - SECTOR * i) = SECTOR" by linarith
    then show ?thesis by (simp add: subrange_def drop_take)
  qed
  then have "map (\<lambda>i. subrange (SECTOR * i) SECTOR (take (SECTOR * n) data)) [0..<n] =
      map (\<lambda>i. subrange (SECTOR * i) SECTOR data) [0..<n]" by simp
  then have "concat (map (\<lambda>i. subrange (SECTOR * i) SECTOR data) [0..<n]) = take (SECTOR * n) data"
    using Suc(1) [OF len] by (simp only:)
  moreover have "subrange (SECTOR * n) SECTOR data = drop (SECTOR * n) data" using Suc(2) by (simp add: subrange_def)
  ultimately show ?case by simp
qed simp

lemma fat_write_cluster_triple:
  assumes inv: "fat_inv s" and nf: "\<not> failed s" and c: "fat_valid s c" and len: "length data = fat_bytes s"
  shows "(\<exists>s'. fat_write_cluster c data s = Some (Ok (), s') \<and> wrote s (cl_sectors s c) s' \<and> cluster_data s' c = data) \<or>
    (\<exists>e s'. fat_write_cluster c data s = Some (Err e, s') \<and> spoiled s (cl_sectors s c) s')"
proof -
  have sg: "fat_shape s" "fat_geom s" "disk_ok (blk s)" using inv by (simp_all add: fat_inv_def fat_ok_def)
  have run: "fat_write_cluster c data s =
      for_each (\<lambda>i. fat_write_sector (cl_lba s c i) (subrange (SECTOR * i) SECTOR data)) [0..<unat (spc s)] s"
    using c len by (simp add: fat_write_cluster_def cl_lba_def)
  have "triple (cl_filled s c data []) 
      (for_each (\<lambda>i. fat_write_sector (cl_lba s c i) (subrange (SECTOR * i) SECTOR data)) [0..<unat (spc s)])
      (\<lambda>_. cl_filled s c data [0..<unat (spc s)]) (\<lambda>_. spoiled s (cl_sectors s c))"
  proof (rule triple_for_each [where I = "cl_filled s c data"])
    fix ys i zs assume eq: "[0..<unat (spc s)] = ys @ i # zs"
    have "i \<in> set [0..<unat (spc s)]" "set ys \<subseteq> set [0..<unat (spc s)]" unfolding eq by auto
    moreover have "distinct (ys @ i # zs)" by (metis distinct_upt eq)
    ultimately have i: "i < unat (spc s)" and ys: "\<And>j. j \<in> set ys \<Longrightarrow> j < unat (spc s) \<and> j \<noteq> i" by auto
    have "SECTOR * i + SECTOR \<le> length data" using i by (simp add: len fat_bytes_def)
    then have sl: "length (subrange (SECTOR * i) SECTOR data) = SECTOR" by simp
    show "triple (cl_filled s c data ys) (fat_write_sector (cl_lba s c i) (subrange (SECTOR * i) SECTOR data))
        (\<lambda>_. cl_filled s c data (ys @ [i])) (\<lambda>_. spoiled s (cl_sectors s c))"
    proof (rule tripleI)
      fix s1 assume s1: "cl_filled s c data ys s1"
      have w: "wrote s (cl_sectors s c) s1" using s1 by (simp add: cl_filled_def)
      have mem: "cl_lba s c i \<in> cl_sectors s c" using i by (simp add: cl_sectors_def)
      have "cl_lba s c j \<noteq> cl_lba s c i" if "j \<in> set ys" for j
        using cl_lba_inj [OF sg(1,2) c _ c i, of j] ys [OF that] by blast
      then have "wrote s (cl_sectors s c) s' \<Longrightarrow>
          dk_data (blk s') = (dk_data (blk s1))(cl_lba s c i := subrange (SECTOR * i) SECTOR data) \<Longrightarrow>
          cl_filled s c data (ys @ [i]) s'" for s'
        using s1 unfolding cl_filled_def by auto
      then show "(\<exists>a s'. fat_write_sector (cl_lba s c i) (subrange (SECTOR * i) SECTOR data) s1 = Some (Ok a, s') \<and>
            cl_filled s c data (ys @ [i]) s') \<or>
          (\<exists>e s'. fat_write_sector (cl_lba s c i) (subrange (SECTOR * i) SECTOR data) s1 = Some (Err e, s') \<and>
            spoiled s (cl_sectors s c) s')"
        using write_sector_wrote [OF w nf sl mem cl_lba_unat(2) [OF sg(1,2) c i]] by blast
    qed
  qed
  moreover have "cl_filled s c data [] s" using sg(3) by (simp add: cl_filled_def wrote_refl)
  ultimately show ?thesis
  proof (cases rule: tripleE)
    case (Ok a s')
    then have w: "wrote s (cl_sectors s c) s'" and d: "\<And>i. i < unat (spc s) \<Longrightarrow>
        dk_data (blk s') (cl_lba s c i) = subrange (SECTOR * i) SECTOR data"
      by (auto simp: cl_filled_def)
    have "cluster_data s' c = concat (map (\<lambda>i. dk_data (blk s') (cl_lba s c i)) [0..<unat (spc s)])"
      unfolding cluster_data_def sectors_def cl_lba_def
        same_geo_defs [OF wrote_fields(1) [OF w]] same_geo_fields [OF wrote_fields(1) [OF w]] ..
    also have "\<dots> = concat (map (\<lambda>i. subrange (SECTOR * i) SECTOR data) [0..<unat (spc s)])"
      using d by (intro arg_cong [where f = concat] map_cong) simp_all
    also have "\<dots> = data" by (rule concat_sectors) (simp add: len fat_bytes_def)
    finally show ?thesis using Ok(1) w run by auto
  next
    case Err
    then show ?thesis using run by auto
  qed
qed

section \<open>Reading\<close>

text \<open>
  An operation that only reads leaves the volume and the data alone; on a reliable device nothing at
  all changes.
\<close>

definition only_read :: "fat_state \<Rightarrow> fat_state \<Rightarrow> bool" where
  "only_read s s' \<longleftrightarrow> (\<exists>d. s' = s\<lparr>blk := d\<rparr> \<and> same_data (blk s) d)"

lemma only_read_refl [simp]: "only_read s s"
  unfolding only_read_def by (rule exI [of _ "blk s"]) simp

lemma only_read_trans: "only_read s s' \<Longrightarrow> only_read s' s'' \<Longrightarrow> only_read s s''"
proof -
  assume "only_read s s'" "only_read s' s''"
  then obtain d d' where "s' = s\<lparr>blk := d\<rparr>" "same_data (blk s) d" "s'' = s'\<lparr>blk := d'\<rparr>" "same_data (blk s') d'"
    unfolding only_read_def by blast
  then have "s'' = s\<lparr>blk := d'\<rparr> \<and> same_data (blk s) d'" using same_data_trans [of "blk s" d d'] by simp
  then show ?thesis unfolding only_read_def ..
qed

lemma only_read_wrote: "only_read s s' \<Longrightarrow> disk_ok (blk s) \<Longrightarrow> wrote s {} s'"
  unfolding only_read_def by (auto intro: same_data_wrote)

lemma only_read_data:
  assumes "only_read s s'"
  shows "same_data (blk s) (blk s')" "cluster_data s' = cluster_data s" "kind s' = kind s" "failed s' = failed s"
    "sectors (blk s') = sectors (blk s)" "same_geo s s'" "fat s' = fat s"
proof -
  obtain d where d: "s' = s\<lparr>blk := d\<rparr>" "same_data (blk s) d" using assms unfolding only_read_def by blast
  show "same_data (blk s) (blk s')" "kind s' = kind s" "failed s' = failed s" "fat s' = fat s" using d by simp_all
  show g: "same_geo s s'" using d unfolding same_data_def by simp
  show sec: "sectors (blk s') = sectors (blk s)" by (intro ext) (use d same_data_sectors in auto)
  show "cluster_data s' = cluster_data s"
    by (rule ext) (simp only: cluster_data_def sec same_geo_defs [OF g] same_geo_fields [OF g])
qed

lemma only_read_inv: "only_read s s' \<Longrightarrow> fat_inv s \<Longrightarrow> fat_inv s'"
  using wrote_inv [of s "{}" s'] only_read_wrote [of s s'] by (simp add: fat_inv_def fat_ok_def)

text \<open>What a read operation returns is a function of the state; it can also fail on a faulty device.\<close>

definition reads :: "fat_state \<Rightarrow> 'a fat_op \<Rightarrow> 'a \<Rightarrow> bool" where
  "reads s m a \<longleftrightarrow> (\<forall>s1. only_read s s1 \<longrightarrow>
     (\<exists>s2. m s1 = Some (Ok a, s2) \<and> only_read s s2) \<or>
     (\<exists>e s2. m s1 = Some (Err e, s2) \<and> only_read s s2 \<and> \<not> reliable (blk s)))"

lemma readsE:
  assumes "reads s m a" and "only_read s s1"
  obtains (Ok) s2 where "m s1 = Some (Ok a, s2)" "only_read s s2"
        | (Err) e s2 where "m s1 = Some (Err e, s2)" "only_read s s2" "\<not> reliable (blk s)"
  using assms unfolding reads_def by blast

lemma reads_cong:
  assumes "reads s m a" and "\<And>s1. only_read s s1 \<Longrightarrow> m' s1 = m s1"
  shows "reads s m' a"
  using assms unfolding reads_def by simp

lemma reads_ret: "reads s (ret a) a"
  by (simp add: reads_def)

lemma reads_gets: "(\<And>s1. only_read s s1 \<Longrightarrow> f s1 = a) \<Longrightarrow> reads s (gets f) a"
  by (simp add: reads_def)

lemma reads_gets_res: "(\<And>s1. only_read s s1 \<Longrightarrow> f s1 = Some (Ok a)) \<Longrightarrow> reads s (gets_res f) a"
  by (simp add: reads_def)

lemma reads_gets_opt: "(\<And>s1. only_read s s1 \<Longrightarrow> f s1 = Some a) \<Longrightarrow> reads s (gets_opt f) a"
  by (simp add: reads_def)

lemma reads_andThen:
  assumes "reads s m a" and "reads s (f a) b"
  shows "reads s (andThen m f) b"
  unfolding reads_def
proof (intro allI impI)
  fix s1 assume "only_read s s1"
  with assms(1) show "(\<exists>s2. andThen m f s1 = Some (Ok b, s2) \<and> only_read s s2) \<or>
     (\<exists>e s2. andThen m f s1 = Some (Err e, s2) \<and> only_read s s2 \<and> \<not> reliable (blk s))"
  proof (cases rule: readsE)
    case (Ok s2)
    from assms(2) Ok(2) show ?thesis by (cases rule: readsE) (use Ok(1) in auto)
  qed auto
qed

lemma reads_map_each:
  assumes "\<And>x. x \<in> set xs \<Longrightarrow> reads s (f x) (g x)"
  shows "reads s (map_each f xs) (map g xs)"
  using assms
proof (induction xs)
  case (Cons x xs)
  have "reads s (andThen (map_each f xs) (\<lambda>ys. ret (g x # ys))) (map g (x # xs))"
    by (rule reads_andThen [OF Cons(1)]) (use Cons(2) reads_ret in auto)
  then show ?case using Cons(2) by (auto intro: reads_andThen)
qed (simp add: reads_ret)

lemma reads_on_blk:
  assumes "\<And>i. i < n \<Longrightarrow> lba + of_nat i < dk_capacity (blk s)"
  shows "reads s (on_blk (read_run msg lba n)) (sectors (blk s) lba n)"
  unfolding reads_def
proof (intro allI impI)
  fix s1 assume r: "only_read s s1"
  note d = only_read_data [OF r]
  show "(\<exists>s2. on_blk (read_run msg lba n) s1 = Some (Ok (sectors (blk s) lba n), s2) \<and> only_read s s2) \<or>
     (\<exists>e s2. on_blk (read_run msg lba n) s1 = Some (Err e, s2) \<and> only_read s s2 \<and> \<not> reliable (blk s))"
  proof (cases rule: read_run_cases [of msg lba n "blk s1"])
    case (Ok d')
    have "only_read s1 (s1\<lparr>blk := d'\<rparr>)" using Ok(2) by (auto simp: only_read_def)
    then show ?thesis using Ok(1) only_read_trans [OF r] by (simp add: on_blk_def d(5))
  next
    case (Err d')
    have "only_read s1 (s1\<lparr>blk := d'\<rparr>)" using Err(2) by (auto simp: only_read_def)
    moreover have "\<not> reliable (blk s1)" using Err(3) assms same_geo_fields(15) [OF d(6)] by simp
    then have "\<not> reliable (blk s)" using d(1) by (auto simp: same_data_def)
    ultimately show ?thesis using Err(1) only_read_trans [OF r] by (simp add: on_blk_def)
  qed
qed

lemma reads_cluster:
  assumes "fat_inv s" and "fat_valid s c"
  shows "reads s (fat_read_cluster c) (cluster_data s c)"
proof -
  have sg: "fat_shape s" "fat_geom s" using assms(1) by (simp_all add: fat_inv_def fat_ok_def)
  have r: "reads s (on_blk (read_run ''disk read failed'' (fat_cluster_lba s c) (unat (spc s)))) (cluster_data s c)"
    unfolding cluster_data_def
    by (rule reads_on_blk) (use cl_lba_unat(2) [OF sg assms(2)] in \<open>simp add: cl_lba_def\<close>)
  have v: "fat_valid s1 c = fat_valid s c \<and> fat_cluster_lba s1 c = fat_cluster_lba s c \<and> spc s1 = spc s"
    if "only_read s s1" for s1
    using same_geo_defs [OF only_read_data(6) [OF that]] same_geo_fields [OF only_read_data(6) [OF that]] by simp
  show ?thesis unfolding fat_read_cluster_def
  proof (rule reads_andThen [where a = True])
    show "reads s (gets (\<lambda>v. fat_valid v c)) True" by (rule reads_gets) (use v assms(2) in simp)
    have "reads s (andThen (gets (\<lambda>v. (fat_cluster_lba v c, unat (spc v)))) (\<lambda>(lba, n).
          on_blk (read_run ''disk read failed'' lba n))) (cluster_data s c)"
    proof (rule reads_andThen [where a = "(fat_cluster_lba s c, unat (spc s))"])
      show "reads s (gets (\<lambda>v. (fat_cluster_lba v c, unat (spc v)))) (fat_cluster_lba s c, unat (spc s))"
      proof (rule reads_gets)
        fix s1 assume "only_read s s1"
        from v [OF this] show "(fat_cluster_lba s1 c, unat (spc s1)) = (fat_cluster_lba s c, unat (spc s))" by simp
      qed
    qed (simp add: r)
    then show "reads s (if \<not> True then fail ''invalid FAT cluster''
     else andThen (gets (\<lambda>v. (fat_cluster_lba v c, unat (spc v)))) (\<lambda>(lba, n).
          on_blk (read_run ''disk read failed'' lba n))) (cluster_data s c)" by simp
  qed
qed

section \<open>Directories on the device\<close>

lemma nth_concat_uniform:
  assumes "\<And>x. x \<in> set xs \<Longrightarrow> length (f x) = n" and "j < length xs * n"
  shows "concat (map f xs) ! j = f (xs ! (j div n)) ! (j mod n)"
  using assms
proof (induction xs arbitrary: j)
  case (Cons x xs)
  have n: "0 < n" using Cons(3) by (cases n) simp_all
  show ?case
  proof (cases "j < n")
    case True
    then show ?thesis using Cons(2) by (simp add: nth_append)
  next
    case False
    then have j: "j - n < length xs * n" using Cons(3) by simp
    have "j div n = Suc ((j - n) div n)" "j mod n = (j - n) mod n"
      using False n by (simp_all add: le_div_geq le_mod_geq)
    then show ?thesis using Cons(1) [OF Cons(2) j] Cons(2) False by (simp add: nth_append)
  qed
qed simp

lemma length_concat_uniform: "(\<And>x. x \<in> set xs \<Longrightarrow> length (f x) = n) \<Longrightarrow> length (concat (map f xs)) = length xs * n"
  by (induction xs) simp_all

text \<open>The device sector with the bytes \<open>512 * i ..\<close> of a directory.\<close>

definition dir_lba :: "'z Volume_scheme \<Rightarrow> Dir \<Rightarrow> u32 list \<Rightarrow> nat \<Rightarrow> u64" where
  "dir_lba v dir cs i =
     (if fixed_root v dir then root_lba v + of_nat i
      else cl_lba v (cs ! (i div unat (spc v))) (i mod unat (spc v)))"

definition dir_shape :: "'z Volume_scheme \<Rightarrow> Dir \<Rightarrow> u32 list \<Rightarrow> nat \<Rightarrow> bool" where
  "dir_shape v dir cs n \<longleftrightarrow>
     (if fixed_root v dir then cs = [] \<and> n = root_entries v * 32
      else is_chain v cs \<and> hd cs = dir_cluster dir \<and> length cs \<le> MAX_METADATA div fat_bytes v
         \<and> n = length cs * fat_bytes v)"

text \<open>The directory occupies the clusters \<open>cs\<close> and its bytes are \<open>data\<close>.\<close>

definition dir_at :: "fat_state \<Rightarrow> Dir \<Rightarrow> u32 list \<Rightarrow> bytes \<Rightarrow> bool" where
  "dir_at s dir cs data \<longleftrightarrow> dir_shape s dir cs (length data) \<and>
     (\<forall>j<length data. data ! j = dk_data (blk s) (dir_lba s dir cs (j div SECTOR)) ! (j mod SECTOR))"

definition dir_sectors :: "'z Volume_scheme \<Rightarrow> Dir \<Rightarrow> u32 list \<Rightarrow> nat \<Rightarrow> u64 set" where
  "dir_sectors v dir cs n = dir_lba v dir cs ` {i. SECTOR * i < n}"

lemma is_chain_nonempty: "is_chain v cs \<Longrightarrow> cs \<noteq> []"
  by (auto simp: is_chain_def)

lemma dir_lba_chain:
  assumes "fat_shape s" and "dir_shape s dir cs n" and "\<not> fixed_root s dir" and "SECTOR * i < n"
  shows "i div unat (spc s) < length cs" "i mod unat (spc s) < unat (spc s)"
    "fat_valid s (cs ! (i div unat (spc s)))"
proof -
  have spc: "0 < unat (spc s)" using assms(1) by (simp add: fat_shape_def)
  have "SECTOR * i < SECTOR * (length cs * unat (spc s))"
    using assms(2-4) by (simp add: dir_shape_def fat_bytes_def mult.commute mult.left_commute)
  then have "i < length cs * unat (spc s)" by simp
  then show k: "i div unat (spc s) < length cs" by (simp add: less_mult_imp_div_less)
  show "i mod unat (spc s) < unat (spc s)" using spc by simp
  show "fat_valid s (cs ! (i div unat (spc s)))" using assms(2,3) k by (auto simp: dir_shape_def is_chain_def)
qed

lemma fixed_root_lba:
  assumes "fat_geom s" and "dir_shape s dir cs n" and "fixed_root s dir" and "SECTOR * i < n"
  shows "unat (dir_lba s dir cs i) = unat (root_lba s) + i" "unat (root_lba s) + i < unat (data_lba s)"
    "unat (data_lba s) \<le> unat (dk_capacity (blk s))"
proof -
  have "SECTOR * i < root_entries s * 32" using assms(2-4) by (simp add: dir_shape_def)
  then have "i < fat_root_sectors s" unfolding fat_root_sectors_def by linarith
  then show b: "unat (root_lba s) + i < unat (data_lba s)" "unat (data_lba s) \<le> unat (dk_capacity (blk s))"
    using assms(1) unfolding fat_geom_def by linarith+
  have e: "dir_lba s dir cs i = of_nat (unat (root_lba s) + i)" using assms(3) by (simp add: dir_lba_def)
  show "unat (dir_lba s dir cs i) = unat (root_lba s) + i"
    unfolding e by (rule unat_of_nat_small) (use b unat_lt_u64 [of "data_lba s"] in simp)
qed

lemma dir_lba_facts:
  assumes "fat_shape s" and "fat_geom s" and "dir_shape s dir cs n" and "SECTOR * i < n"
  shows "dir_lba s dir cs i < dk_capacity (blk s)" "dir_lba s dir cs i \<in> data_area s"
    "\<And>c. fat_valid s c \<Longrightarrow> c \<notin> set cs \<Longrightarrow> dir_lba s dir cs i \<notin> cl_sectors s c"
proof -
  show "dir_lba s dir cs i < dk_capacity (blk s)" "dir_lba s dir cs i \<in> data_area s"
    "\<And>c. fat_valid s c \<Longrightarrow> c \<notin> set cs \<Longrightarrow> dir_lba s dir cs i \<notin> cl_sectors s c"
  proof (atomize (full), cases "fixed_root s dir")
    case True
    note f = fixed_root_lba [OF assms(2,3) True assms(4)]
    have "dir_lba s dir cs i \<notin> cl_sectors s c" if "fat_valid s c" for c
      using f(1,2) cl_lba_unat(1) [OF assms(1,2) that] by (fastforce simp: cl_sectors_def)
    then show "dir_lba s dir cs i < dk_capacity (blk s) \<and> dir_lba s dir cs i \<in> data_area s \<and>
        (\<forall>c. fat_valid s c \<longrightarrow> c \<notin> set cs \<longrightarrow> dir_lba s dir cs i \<notin> cl_sectors s c)"
      using f by (simp add: word_less_nat_alt data_area_def)
  next
    case False
    note f = dir_lba_chain [OF assms(1,3) False assms(4)]
    have e: "dir_lba s dir cs i = cl_lba s (cs ! (i div unat (spc s))) (i mod unat (spc s))"
      using False by (simp add: dir_lba_def)
    have m: "dir_lba s dir cs i \<in> cl_sectors s (cs ! (i div unat (spc s)))" using f(2) by (simp add: e cl_sectors_def)
    have "dir_lba s dir cs i \<notin> cl_sectors s c" if "fat_valid s c" "c \<notin> set cs" for c
    proof -
      have "c \<noteq> cs ! (i div unat (spc s))" using that(2) f(1) by auto
      then show ?thesis using m cl_sectors_disjoint [OF assms(1,2) that(1) f(3)] by blast
    qed
    moreover have "dir_lba s dir cs i < dk_capacity (blk s)" unfolding e by (rule cl_lba_unat(2) [OF assms(1,2) f(3) f(2)])
    moreover have "dir_lba s dir cs i \<in> data_area s" using m cl_sectors_area [OF assms(1,2) f(3)] by (rule rev_subsetD)
    ultimately show "dir_lba s dir cs i < dk_capacity (blk s) \<and> dir_lba s dir cs i \<in> data_area s \<and>
        (\<forall>c. fat_valid s c \<longrightarrow> c \<notin> set cs \<longrightarrow> dir_lba s dir cs i \<notin> cl_sectors s c)" by blast
  qed
qed

lemma dir_lba_inj:
  assumes "fat_shape s" and "fat_geom s" and "dir_shape s dir cs n" and "SECTOR * i < n" "SECTOR * i' < n"
    and "dir_lba s dir cs i = dir_lba s dir cs i'"
  shows "i = i'"
proof (cases "fixed_root s dir")
  case True
  have "unat (root_lba s) + i = unat (root_lba s) + i'"
    unfolding fixed_root_lba(1) [OF assms(2,3) True assms(4), symmetric] fixed_root_lba(1) [OF assms(2,3) True assms(5), symmetric]
      assms(6) ..
  then show ?thesis by simp
next
  case False
  note f = dir_lba_chain [OF assms(1,3) False assms(4)] and f' = dir_lba_chain [OF assms(1,3) False assms(5)]
  have "distinct cs" using assms(3) False by (simp add: dir_shape_def is_chain_def)
  moreover have "cs ! (i div unat (spc s)) = cs ! (i' div unat (spc s)) \<and> i mod unat (spc s) = i' mod unat (spc s)"
    using assms(6) False by (intro cl_lba_inj [OF assms(1,2) f(3,2) f'(3,2)]) (simp add: dir_lba_def)
  ultimately have "i div unat (spc s) = i' div unat (spc s) \<and> i mod unat (spc s) = i' mod unat (spc s)"
    using f(1) f'(1) nth_eq_iff_index_eq [of cs "i div unat (spc s)" "i' div unat (spc s)"] by simp
  then show ?thesis using div_mod_eq_iff [of i "unat (spc s)" i'] by blast
qed

lemma sectors_nth:
  assumes "disk_ok d" and "j < SECTOR * n"
  shows "sectors d lba n ! j = dk_data d (lba + of_nat (j div SECTOR)) ! (j mod SECTOR)"
proof -
  have "j < length [0..<n] * SECTOR" using assms(2) by simp
  then have "sectors d lba n ! j = dk_data d (lba + of_nat ([0..<n] ! (j div SECTOR))) ! (j mod SECTOR)"
    unfolding sectors_def by (intro nth_concat_uniform) (use assms(1) in \<open>simp add: disk_ok_def\<close>)
  moreover have "j div SECTOR < n" using assms(2) by (simp add: less_mult_imp_div_less)
  ultimately show ?thesis by simp
qed

lemma length_cluster_data: "disk_ok (blk s) \<Longrightarrow> length (cluster_data s c) = fat_bytes s"
  by (simp add: cluster_data_def length_sectors fat_bytes_def)

lemma mod_mult_div: "(j :: nat) mod (m * n) div n = j div n mod m" if "0 < n"
proof -
  have "j mod (n * m) = n * (j div n mod m) + j mod n" by (rule mod_mult2_eq)
  then show ?thesis using that by (simp add: mult.commute [of m n])
qed

lemma chain_bytes_nth:
  assumes "disk_ok (blk s)" and "j < length cs * fat_bytes s" and "\<not> fixed_root s dir"
  shows "concat (map (cluster_data s) cs) ! j = dk_data (blk s) (dir_lba s dir cs (j div SECTOR)) ! (j mod SECTOR)"
proof -
  have b: "0 < fat_bytes s" using assms(2) by (cases "fat_bytes s") simp_all
  have m: "j mod fat_bytes s < SECTOR * unat (spc s)" using b by (simp add: fat_bytes_def mult.commute)
  have "concat (map (cluster_data s) cs) ! j = cluster_data s (cs ! (j div fat_bytes s)) ! (j mod fat_bytes s)"
    by (rule nth_concat_uniform) (use assms length_cluster_data in auto)
  also have "\<dots> = dk_data (blk s) (cl_lba s (cs ! (j div fat_bytes s)) (j mod fat_bytes s div SECTOR)) ! (j mod fat_bytes s mod SECTOR)"
    unfolding cluster_data_def sectors_nth [OF assms(1) m] cl_lba_def ..
  also have "j mod fat_bytes s mod SECTOR = j mod SECTOR"
    unfolding fat_bytes_def by (simp add: mod_mod_cancel)
  also have "j mod fat_bytes s div SECTOR = j div SECTOR mod unat (spc s)"
    unfolding fat_bytes_def by (rule mod_mult_div) simp
  also have "j div fat_bytes s = j div SECTOR div unat (spc s)"
    unfolding fat_bytes_def by (simp add: div_mult2_eq mult.commute [of "unat (spc s)"])
  finally show ?thesis using assms(3) by (simp add: dir_lba_def)
qed

lemma chain_bytes_at:
  assumes "disk_ok (blk s)" and "\<not> fixed_root s dir" and "is_chain s cs" and "hd cs = dir_cluster dir"
    and "length cs \<le> MAX_METADATA div fat_bytes s"
  shows "dir_at s dir cs data \<longleftrightarrow> data = concat (map (cluster_data s) cs)"
proof -
  have len: "length (concat (map (cluster_data s) cs)) = length cs * fat_bytes s"
    by (rule length_concat_uniform) (rule length_cluster_data [OF assms(1)])
  show ?thesis
  proof
    assume at: "dir_at s dir cs data"
    then have n: "length data = length cs * fat_bytes s" using assms(2) by (simp add: dir_at_def dir_shape_def)
    show "data = concat (map (cluster_data s) cs)"
    proof (rule nth_equalityI)
      show "length data = length (concat (map (cluster_data s) cs))" using n len by simp
      fix j assume j: "j < length data"
      then show "data ! j = concat (map (cluster_data s) cs) ! j"
        using at chain_bytes_nth [OF assms(1) _ assms(2), of j cs] n unfolding dir_at_def by simp
    qed
  next
    assume "data = concat (map (cluster_data s) cs)"
    then show "dir_at s dir cs data"
      using assms len chain_bytes_nth [OF assms(1) _ assms(2)] by (simp add: dir_at_def dir_shape_def)
  qed
qed

lemma fixed_bytes_at:
  assumes "disk_ok (blk s)" and "fixed_root s dir"
  shows "dir_at s dir cs data \<longleftrightarrow>
    cs = [] \<and> data = take (root_entries s * 32) (sectors (blk s) (root_lba s) ((root_entries s * 32 + SECTOR - 1) div SECTOR))"
    (is "_ \<longleftrightarrow> cs = [] \<and> data = ?d")
proof -
  define n where "n = (root_entries s * 32 + SECTOR - 1) div SECTOR"
  have le: "root_entries s * 32 \<le> SECTOR * n" unfolding n_def by linarith
  have len: "length ?d = root_entries s * 32"
    using le length_sectors [OF assms(1)] unfolding n_def [symmetric] by simp
  have nth: "?d ! j = dk_data (blk s) (dir_lba s dir cs (j div SECTOR)) ! (j mod SECTOR)" if "j < root_entries s * 32" for j
    using that le sectors_nth [OF assms(1), of j n "root_lba s"] assms(2) unfolding n_def [symmetric]
    by (simp add: dir_lba_def)
  show ?thesis
  proof
    assume at: "dir_at s dir cs data"
    then have "cs = []" and n: "length data = root_entries s * 32" using assms(2) by (simp_all add: dir_at_def dir_shape_def)
    moreover have "data = ?d"
      by (rule nth_equalityI) (use at n nth len in \<open>simp_all add: dir_at_def\<close>)
    ultimately show "cs = [] \<and> data = ?d" by simp
  next
    assume "cs = [] \<and> data = ?d"
    then have "data = ?d" "cs = []" by auto
    then show "dir_at s dir cs data"
      using nth len assms(2) unfolding dir_at_def dir_shape_def by (simp only: if_True) simp
  qed
qed

text \<open>\<open>load_dir\<close> returns the clusters and the bytes of the directory.\<close>

lemma only_read_tab:
  assumes "only_read s s1" and "disk_ok (blk s)"
  shows "fat_chain s1 = fat_chain s" "is_chain s1 = is_chain s" "fixed_root s1 = fixed_root s"
    "fat_bytes s1 = fat_bytes s" "root_lba s1 = root_lba s" "root_entries s1 = root_entries s" "fat_check s1 = fat_check s"
    "dir_at s1 dir cs data = dir_at s dir cs data"
proof -
  note d = only_read_data [OF assms(1)] and w = wrote_fields [OF only_read_wrote [OF assms]]
  note g = same_geo_fields [OF d(6)] same_geo_defs [OF d(6)]
  show "fat_chain s1 = fat_chain s" by (rule w(14))
  show c: "is_chain s1 = is_chain s" by (rule w(13))
  show f: "fixed_root s1 = fixed_root s" by (intro ext) (simp add: fixed_root_def d(3))
  show "fat_bytes s1 = fat_bytes s" "root_lba s1 = root_lba s" "root_entries s1 = root_entries s" using g by simp_all
  show "fat_check s1 = fat_check s" by (simp add: fat_check_def d(4))
  have "dir_lba s1 dir cs = dir_lba s dir cs" by (rule ext) (simp add: dir_lba_def f cl_lba_def g)
  moreover have "dk_data (blk s1) = dk_data (blk s)" using d(1) by (simp add: same_data_def)
  ultimately show "dir_at s1 dir cs data = dir_at s dir cs data"
    by (simp add: dir_at_def dir_shape_def f c g)
qed

lemma load_dir_run:
  assumes "\<not> failed s"
  shows "fat_load_dir dir s =
     (if fixed_root s dir
      then andThen (on_blk (read_run ''directory read failed'' (root_lba s) ((root_entries s * 32 + SECTOR - 1) div SECTOR)))
             (\<lambda>data. ret ([], take (root_entries s * 32) data)) s
      else if fat_bytes s = 0 then None
      else (case fat_chain s (dir_cluster dir) (MAX_METADATA div fat_bytes s) of
              None \<Rightarrow> None
            | Some (Inl e) \<Rightarrow> Some (Err e, s)
            | Some (Inr chain) \<Rightarrow>
                if chain = [] then Some (Err ''directory has no cluster'', s)
                else andThen (map_each fat_read_cluster chain) (\<lambda>cs. ret (chain, concat cs)) s))"
  using assms by (simp add: fat_load_dir_def fat_check_def split: option.splits sum.splits)

lemma load_dir_reads:
  assumes inv: "fat_inv s" and nf: "\<not> failed s" and at: "dir_at s dir cs data"
  shows "reads s (fat_load_dir dir) (cs, data)"
proof -
  have sg: "fat_shape s" "fat_geom s" and ok: "disk_ok (blk s)" using inv by (simp_all add: fat_inv_def fat_ok_def)
  show ?thesis
  proof (cases "fixed_root s dir")
    case True
    define n where "n = (root_entries s * 32 + SECTOR - 1) div SECTOR"
    have e: "cs = []" "data = take (root_entries s * 32) (sectors (blk s) (root_lba s) n)"
      using at fixed_bytes_at [OF ok True] by (simp_all add: n_def)
    have "root_lba s + of_nat i < dk_capacity (blk s)" if "i < n" for i
    proof -
      have "SECTOR * i < root_entries s * 32" using that unfolding n_def by linarith
      moreover have "dir_shape s dir cs (root_entries s * 32)" using True e(1) by (simp add: dir_shape_def)
      ultimately have "dir_lba s dir cs i < dk_capacity (blk s)" using dir_lba_facts(1) [OF sg] by blast
      then show ?thesis using True by (simp add: dir_lba_def)
    qed
    then have "reads s (on_blk (read_run ''directory read failed'' (root_lba s) n)) (sectors (blk s) (root_lba s) n)"
      by (rule reads_on_blk)
    then have r: "reads s (andThen (on_blk (read_run ''directory read failed'' (root_lba s) n))
        (\<lambda>data. ret ([], take (root_entries s * 32) data))) (cs, data)"
      by (rule reads_andThen) (simp add: e reads_ret)
    have "fat_load_dir dir s1 = andThen (on_blk (read_run ''directory read failed'' (root_lba s) n))
        (\<lambda>data. ret ([], take (root_entries s * 32) data)) s1" if s1: "only_read s s1" for s1
      unfolding n_def using load_dir_run [of s1 dir] only_read_data(4) [OF s1] nf True
      by (simp only: only_read_tab [OF s1 ok] if_True not_False_eq_True simp_thms)
    then show ?thesis by (rule reads_cong [OF r])
  next
    case False
    have ch: "is_chain s cs" "hd cs = dir_cluster dir" "length cs \<le> MAX_METADATA div fat_bytes s"
      using at False by (simp_all add: dir_at_def dir_shape_def)
    have e: "data = concat (map (cluster_data s) cs)" using at chain_bytes_at [OF ok False ch] by simp
    have ne: "cs \<noteq> []" using ch(1) is_chain_nonempty by blast
    have valid: "fat_valid s c" if "c \<in> set cs" for c using ch(1) that by (simp add: is_chain_def)
    have "dir_cluster dir \<noteq> 0"
    proof
      assume "dir_cluster dir = 0"
      then have "fat_valid s 0" using valid [OF hd_in_set [OF ne]] ch(2) by simp
      then show False by (simp add: fat_valid_def)
    qed
    then have chain: "fat_chain s (dir_cluster dir) (MAX_METADATA div fat_bytes s) = Some (Ok cs)"
      using fat_chain_Ok_iff [OF sg(1) nf] ch by simp
    have "reads s (map_each fat_read_cluster cs) (map (cluster_data s) cs)"
      by (rule reads_map_each) (rule reads_cluster [OF inv valid])
    then have r: "reads s (andThen (map_each fat_read_cluster cs) (\<lambda>xs. ret (cs, concat xs))) (cs, data)"
      by (rule reads_andThen) (simp add: e reads_ret)
    have "fat_load_dir dir s1 = andThen (map_each fat_read_cluster cs) (\<lambda>xs. ret (cs, concat xs)) s1"
      if s1: "only_read s s1" for s1
      using load_dir_run [of s1 dir] only_read_data(4) [OF s1] nf False fat_bytes_pos [OF sg(1)] ne
      by (simp add: only_read_tab [OF s1 ok] chain)
    then show ?thesis by (rule reads_cong [OF r])
  qed
qed

lemma load_dir_Ok:
  assumes inv: "fat_inv s"
  shows "triple (only_read s) (fat_load_dir dir) (\<lambda>(cs, data) s'. only_read s s' \<and> \<not> failed s \<and> dir_at s dir cs data)
    (\<lambda>_. only_read s)"
proof (rule tripleI)
  fix s1 assume s1: "only_read s s1"
  have sg: "fat_shape s" "fat_geom s" and ok: "disk_ok (blk s)" using inv by (simp_all add: fat_inv_def fat_ok_def)
  show "(\<exists>a s'. fat_load_dir dir s1 = Some (Ok a, s') \<and> (case a of (cs, data) \<Rightarrow> \<lambda>s'. only_read s s' \<and> \<not> failed s \<and> dir_at s dir cs data) s') \<or>
     (\<exists>e s'. fat_load_dir dir s1 = Some (Err e, s') \<and> only_read s s')"
  proof (cases "failed s \<or> (\<exists>cs data. dir_at s dir cs data)")
    case True
    show ?thesis
    proof (cases "failed s")
      case True
      then have "failed s1" using only_read_data(4) [OF s1] by simp
      then show ?thesis using s1 by (simp add: fat_load_dir_def fat_check_def)
    next
      case False
      with True obtain cs data where at: "dir_at s dir cs data" by blast
      from load_dir_reads [OF inv False at] s1 show ?thesis by (cases rule: readsE) (use at False in auto)
    qed
  next
    case False
    then have nf: "\<not> failed s" and none: "\<And>cs data. \<not> dir_at s dir cs data" by auto
    have nfix: "\<not> fixed_root s dir" using none fixed_bytes_at [OF ok] by blast
    have "\<not> (is_chain s cs \<and> hd cs = dir_cluster dir \<and> length cs \<le> MAX_METADATA div fat_bytes s)" for cs
      using none chain_bytes_at [OF ok nfix] by blast
    then have "fat_chain s (dir_cluster dir) (MAX_METADATA div fat_bytes s) = Some (Ok cs) \<Longrightarrow> cs = []" for cs
      using fat_chain_Ok_iff [OF sg(1) nf, of "dir_cluster dir"] by (cases "dir_cluster dir = 0") (auto simp: fat_chain_def nf)
    then have "\<exists>e. fat_load_dir dir s1 = Some (Err e, s1)"
      using load_dir_run [of s1 dir] only_read_data(4) [OF s1] nf nfix fat_bytes_pos [OF sg(1)]
        fat_chain_total [OF sg(1), of "dir_cluster dir" "MAX_METADATA div fat_bytes s"]
      by (auto simp: only_read_tab [OF s1 ok] split: option.splits sum.splits)
    then show ?thesis using s1 by auto
  qed
qed

section \<open>Writing a directory\<close>

text \<open>
  The write-back of the sectors \<open>is\<close> of a directory: \<open>old\<close> is what it held before, \<open>data\<close> the new bytes.
\<close>

definition dir_stored :: "fat_state \<Rightarrow> Dir \<Rightarrow> u32 list \<Rightarrow> bytes \<Rightarrow> bytes \<Rightarrow> nat list \<Rightarrow> fat_state \<Rightarrow> bool" where
  "dir_stored s dir cs old data is s' \<longleftrightarrow> wrote s (dir_sectors s dir cs (length data)) s' \<and>
     (\<forall>j<length data. dk_data (blk s') (dir_lba s dir cs (j div SECTOR)) ! (j mod SECTOR) =
        (if j div SECTOR \<in> set is then data ! j else old ! j))"

text \<open>A fault while a directory is written: a failed write stops the volume, a failed read does not.\<close>

definition stored_part :: "fat_state \<Rightarrow> u64 set \<Rightarrow> fat_state \<Rightarrow> bool" where
  "stored_part s L s' \<longleftrightarrow> \<not> reliable (blk s) \<and> (wrote s L s' \<or> spoiled s L s')"

lemma dir_sector_data:
  assumes "i * SECTOR < length data" and "tk = min SECTOR (length data - i * SECTOR)" and "length buf = SECTOR"
  shows "length (put_at 0 (subrange (i * SECTOR) tk data) buf) = SECTOR"
    and "j < length data \<Longrightarrow> j div SECTOR = i \<Longrightarrow> put_at 0 (subrange (i * SECTOR) tk data) buf ! (j mod SECTOR) = data ! j"
proof -
  have len: "length (subrange (i * SECTOR) tk data) = tk" "tk \<le> SECTOR" using assms(1,2) by simp_all
  then show "length (put_at 0 (subrange (i * SECTOR) tk data) buf) = SECTOR" using assms(3) by simp
  assume j: "j < length data" "j div SECTOR = i"
  then have e: "j = i * SECTOR + j mod SECTOR" by (metis div_mult_mod_eq)
  then have "j mod SECTOR < tk" using j(1) assms(2) by simp
  then have "put_at 0 (subrange (i * SECTOR) tk data) buf ! (j mod SECTOR) = data ! (i * SECTOR + j mod SECTOR)"
    using len assms(3) j e by (simp add: nth_put_at)
  then show "put_at 0 (subrange (i * SECTOR) tk data) buf ! (j mod SECTOR) = data ! j" using e by simp
qed

lemma store_lba:
  assumes "fat_shape s" and "dir_shape s dir cs n" and "SECTOR * i < n" and "same_geo s s1"
  shows "(if fixed_root s1 dir then Some (root_lba s1 + of_nat i)
         else if fat_bytes s1 = 0 then None
         else map_option (\<lambda>c. fat_cluster_lba s1 c + of_nat (i * SECTOR mod fat_bytes s1 div SECTOR))
                (idx cs (i * SECTOR div fat_bytes s1))) = Some (dir_lba s dir cs i)"
proof -
  note g = same_geo_fields [OF assms(4)] same_geo_defs [OF assms(4)]
  have f: "fixed_root s1 dir = fixed_root s dir" by (simp add: fixed_root_def g)
  show ?thesis
  proof (cases "fixed_root s dir")
    case False
    note d = dir_lba_chain [OF assms(1,2) False assms(3)]
    have "i * SECTOR mod fat_bytes s div SECTOR = i mod unat (spc s)"
      using mod_mult_div [of SECTOR "i * SECTOR" "unat (spc s)"] by (simp add: fat_bytes_def)
    moreover have "i * SECTOR div fat_bytes s = i div unat (spc s)" by (simp add: fat_bytes_def)
    ultimately show ?thesis using False d(1) fat_bytes_pos [OF assms(1)]
      by (simp add: f g dir_lba_def cl_lba_def)
  qed (simp add: f g dir_lba_def)
qed

lemma store_sector_triple:
  assumes inv: "fat_inv s" and nf: "\<not> failed s" and shape: "dir_shape s dir cs (length data)"
    and i: "i * SECTOR < length data" "i \<notin> set is"
  shows "triple (dir_stored s dir cs old data is) (fat_store_sector dir cs data i)
    (\<lambda>_. dir_stored s dir cs old data (is @ [i])) (\<lambda>_. stored_part s (dir_sectors s dir cs (length data)))"
proof (rule tripleI)
  fix s1 assume s1: "dir_stored s dir cs old data is s1"
  have sg: "fat_shape s" "fat_geom s" "disk_ok (blk s)" using inv by (simp_all add: fat_inv_def fat_ok_def)
  define L where "L = dir_sectors s dir cs (length data)"
  define tk where "tk = min SECTOR (length data - i * SECTOR)"
  have i': "SECTOR * i < length data" using i(1) by simp
  have w: "wrote s L s1" using s1 by (simp add: dir_stored_def L_def)
  note geo1 = wrote_fields(1) [OF w] and f = dir_lba_facts [OF sg(1,2) shape i']
  have mem: "dir_lba s dir cs i \<in> L" using i' by (auto simp: L_def dir_sectors_def)
  have upd: "dir_stored s dir cs old data (is @ [i]) s'"
    if w': "wrote s L s'" and d: "dk_data (blk s') = (dk_data (blk s1))(dir_lba s dir cs i := put_at 0 (subrange (i * SECTOR) tk data) buf)"
      and buf: "length buf = SECTOR" for s' buf
    unfolding dir_stored_def L_def [symmetric]
  proof (intro conjI w' allI impI)
    fix j assume j: "j < length data"
    then have j': "SECTOR * (j div SECTOR) < length data" using mult_div_mod_eq [of SECTOR j] by linarith
    have "j div SECTOR \<noteq> i \<Longrightarrow> dir_lba s dir cs (j div SECTOR) \<noteq> dir_lba s dir cs i"
      using dir_lba_inj [OF sg(1,2) shape j' i'] by blast
    then show "dk_data (blk s') (dir_lba s dir cs (j div SECTOR)) ! (j mod SECTOR) =
        (if j div SECTOR \<in> set (is @ [i]) then data ! j else old ! j)"
      using s1 j dir_sector_data(2) [OF i(1) tk_def buf j] unfolding d dir_stored_def by auto
  qed
  have wr: "(\<exists>s'. fat_write_sector (dir_lba s dir cs i) (put_at 0 (subrange (i * SECTOR) tk data) buf) s2 = Some (Ok (), s') \<and>
        dir_stored s dir cs old data (is @ [i]) s') \<or>
      (\<exists>e s'. fat_write_sector (dir_lba s dir cs i) (put_at 0 (subrange (i * SECTOR) tk data) buf) s2 = Some (Err e, s') \<and>
        stored_part s L s')"
    if w2: "wrote s L s2" and d2: "dk_data (blk s2) = dk_data (blk s1)" and buf: "length buf = SECTOR" for s2 buf
    using write_sector_wrote [OF w2 nf dir_sector_data(1) [OF i(1) tk_def buf] mem f(1)] upd [OF _ _ buf] d2 spoiled_inv(4) [OF _ inv]
    unfolding stored_part_def by metis
  have run: "fat_store_sector dir cs data i s2 = fat_write_sector (dir_lba s dir cs i) (put_at 0 (subrange (i * SECTOR) tk data) buf) s3"
    if b: "(if tk < SECTOR then andThen (gets root_lba) (\<lambda>lba. on_blk (fat_sector (lba + of_nat i))) else ret (replicate SECTOR 0)) s2 =
        Some (Ok buf, s3)" and g: "same_geo s s3" for s2 s3 buf
  proof -
    note lba = store_lba [OF sg(1) shape i' g]
    show ?thesis
      unfolding fat_store_sector_def Let_def tk_def [symmetric] using b lba by simp
  qed
  show "(\<exists>a s'. fat_store_sector dir cs data i s1 = Some (Ok a, s') \<and> dir_stored s dir cs old data (is @ [i]) s') \<or>
     (\<exists>e s'. fat_store_sector dir cs data i s1 = Some (Err e, s') \<and> stored_part s (dir_sectors s dir cs (length data)) s')"
  proof (cases "tk < SECTOR")
    case False
    then show ?thesis
      using run [of s1 "replicate SECTOR 0" s1] wr [OF w, of "replicate SECTOR 0"] geo1 by (auto simp: L_def)
  next
    case True
    have fixed: "fixed_root s dir"
    proof (rule ccontr)
      assume "\<not> fixed_root s dir"
      then have "length data = length cs * unat (spc s) * SECTOR" using shape by (simp add: dir_shape_def fat_bytes_def)
      then have "i < length cs * unat (spc s)" "length data - i * SECTOR = (length cs * unat (spc s) - i) * SECTOR"
        using i(1) by (simp_all add: diff_mult_distrib)
      then show False using True unfolding tk_def by simp
    qed
    then have lba: "root_lba s1 + of_nat i = dir_lba s dir cs i"
      using same_geo_fields(10) [OF geo1] by (simp add: dir_lba_def)
    show ?thesis
    proof (cases rule: rd_or_cases [of "''disk read failed''" "dir_lba s dir cs i" "blk s1"])
      case (Ok d)
      define s2 where "s2 = s1\<lparr>blk := d\<rparr>"
      have w2: "wrote s L s2" unfolding s2_def
        by (rule wrote_trans [OF w same_data_wrote [OF Ok(2) wrote_fields(6) [OF w]]])
      have len: "length (dk_data (blk s1) (dir_lba s dir cs i)) = SECTOR"
        using wrote_fields(6) [OF w] by (simp add: disk_ok_def)
      have "dk_data (blk s2) = dk_data (blk s1)" using Ok(2) by (simp add: s2_def same_data_def)
      from wr [OF w2 this len] run [of s1 _ s2] wrote_fields(1) [OF w2] Ok(1) True lba show ?thesis
        by (simp add: L_def on_blk_def fat_sector_def s2_def)
    next
      case (Err d)
      have "wrote s L (s1\<lparr>blk := d\<rparr>)"
        by (rule wrote_trans [OF w same_data_wrote [OF Err(2) wrote_fields(6) [OF w]]])
      moreover have "\<not> reliable (blk s)"
        using Err(3) f(1) same_geo_fields(15) [OF geo1] wrote_fields(7) [OF w] by auto
      moreover have "fat_store_sector dir cs data i s1 = Some (Err ''disk read failed'', s1\<lparr>blk := d\<rparr>)"
        unfolding fat_store_sector_def Let_def tk_def [symmetric] using True lba Err(1)
        by (simp add: on_blk_def fat_sector_def)
      ultimately show ?thesis by (simp add: stored_part_def L_def)
    qed
  qed
qed

lemma fat_store_dir_triple:
  assumes inv: "fat_inv s" and nf: "\<not> failed s" and at: "dir_at s dir cs old" and len: "length data = length old"
    and range: "off + n \<le> length data" and same: "\<And>j. j < length data \<Longrightarrow> j < off \<or> off + n \<le> j \<Longrightarrow> data ! j = old ! j"
  shows "(\<exists>s'. fat_store_dir dir cs data off n s = Some (Ok (), s') \<and>
        wrote s (dir_sectors s dir cs (length data)) s' \<and> dir_at s' dir cs data) \<or>
    (\<exists>e s'. fat_store_dir dir cs data off n s = Some (Err e, s') \<and> stored_part s (dir_sectors s dir cs (length data)) s')"
proof -
  have sg: "fat_shape s" "fat_geom s" "disk_ok (blk s)" using inv by (simp_all add: fat_inv_def fat_ok_def)
  define idxs where "idxs = [off div SECTOR..<(off + n + SECTOR - 1) div SECTOR]"
  define L where "L = dir_sectors s dir cs (length data)"
  have shape: "dir_shape s dir cs (length data)" using at len by (simp add: dir_at_def)
  have "triple (dir_stored s dir cs old data []) (for_each (fat_store_sector dir cs data) idxs)
      (\<lambda>_. dir_stored s dir cs old data idxs) (\<lambda>_. stored_part s L)"
    unfolding L_def
  proof (rule triple_for_each [where I = "dir_stored s dir cs old data"])
    fix ys i zs assume eq: "idxs = ys @ i # zs"
    have "distinct idxs" by (simp add: idxs_def)
    then have ni: "i \<notin> set ys" unfolding eq by simp
    have "i \<in> set idxs" unfolding eq by simp
    then have "i < (off + n + SECTOR - 1) div SECTOR" by (simp add: idxs_def)
    then have "i * SECTOR < off + n" by linarith
    then have "i * SECTOR < length data" using range by simp
    then show "triple (dir_stored s dir cs old data ys) (fat_store_sector dir cs data i)
        (\<lambda>_. dir_stored s dir cs old data (ys @ [i])) (\<lambda>_. stored_part s (dir_sectors s dir cs (length data)))"
      by (rule store_sector_triple [OF inv nf shape _ ni])
  qed
  moreover have "dir_stored s dir cs old data [] s"
    using at len wrote_refl [OF sg(3)] by (simp add: dir_stored_def dir_at_def)
  moreover have run: "fat_store_dir dir cs data off n s = for_each (fat_store_sector dir cs data) idxs s"
    using range by (simp add: fat_store_dir_def idxs_def)
  ultimately show ?thesis
  proof (cases rule: tripleE)
    case (Ok a s')
    have w: "wrote s L s'" using Ok(2) by (simp add: dir_stored_def L_def)
    note g = wrote_fields(1) [OF w]
    have f: "fixed_root s' dir = fixed_root s dir" by (simp add: fixed_root_def same_geo_fields [OF g])
    have lba: "dir_lba s' dir cs i = dir_lba s dir cs i" for i
      by (simp add: dir_lba_def f cl_lba_def same_geo_fields [OF g] same_geo_defs [OF g])
    have "data ! j = (if j div SECTOR \<in> set idxs then data ! j else old ! j)" if j: "j < length data" for j
    proof (cases "j div SECTOR \<in> set idxs")
      case False
      then consider "j div SECTOR < off div SECTOR" | "(off + n + SECTOR - 1) div SECTOR \<le> j div SECTOR"
        by (force simp: idxs_def)
      then have "j < off \<or> off + n \<le> j"
      proof cases
        case 1
        then show ?thesis using div_le_mono [of off j SECTOR] by linarith
      next
        case 2
        then have "off + n \<le> j div SECTOR * SECTOR" by linarith
        then show ?thesis using div_mult_mod_eq [of j SECTOR] by linarith
      qed
      then show ?thesis using same [OF j] False by simp
    qed simp
    then have "dir_at s' dir cs data"
      using Ok(2) shape unfolding dir_at_def dir_stored_def lba
      by (simp add: dir_shape_def f same_geo_fields [OF g] same_geo_defs [OF g] wrote_fields(13) [OF w])
    then show ?thesis using Ok(1) w run by (simp add: L_def)
  next
    case Err
    then show ?thesis using run by (simp add: L_def)
  qed
qed

end
