(* ===== verification/Fat_Ops.thy ===== *)
theory Fat_Ops
  imports Fat_Files
begin

text \<open>
  What the operations of a FAT volume do to its files and directories: every change is framed by the
  clusters whose table entries change and the sectors that are written, so that files and
  directories elsewhere keep their contents. On top of it: the contents of a written file can be read
  back, and a directory insertion adds one record.
\<close>

section \<open>Frames\<close>

text \<open>
  From \<open>s\<close> to \<open>s'\<close> only the entries of the clusters \<open>C\<close> and, besides table and FSInfo, only the
  sectors \<open>L\<close> changed; the invariant holds and the volume has not stopped.
\<close>

definition frame :: "fat_state \<Rightarrow> u32 set \<Rightarrow> u64 set \<Rightarrow> fat_state \<Rightarrow> bool" where
  "frame s C L s' \<longleftrightarrow> fat_inv s' \<and> \<not> failed s' \<and> same_geo s s' \<and> (reliable (blk s) \<longrightarrow> reliable (blk s'))
     \<and> (\<forall>c. fat_valid s c \<longrightarrow> c \<notin> C \<longrightarrow> ent s' c = ent s c)
     \<and> (\<forall>l. l \<notin> meta_lba s \<longrightarrow> l \<notin> L \<longrightarrow> dk_data (blk s') l = dk_data (blk s) l)"

lemma frame_trans:
  assumes "frame s C L s'" and "frame s' C' L' s''" and "C \<subseteq> C''" "C' \<subseteq> C''" "L \<subseteq> L''" "L' \<subseteq> L''"
  shows "frame s C'' L'' s''"
proof -
  have g: "same_geo s s'" "same_geo s' s''" using assms(1,2) by (simp_all add: frame_def)
  have e: "ent s'' c = ent s c" if "fat_valid s c" "c \<notin> C''" for c
  proof -
    have "ent s' c = ent s c" using assms(1,3) that unfolding frame_def by blast
    moreover have "ent s'' c = ent s' c"
      using assms(2,4) that same_geo_defs(3) [OF g(1)] unfolding frame_def by auto
    ultimately show ?thesis by simp
  qed
  have d: "dk_data (blk s'') l = dk_data (blk s) l" if "l \<notin> meta_lba s" "l \<notin> L''" for l
  proof -
    have "dk_data (blk s') l = dk_data (blk s) l" using assms(1,5) that unfolding frame_def by blast
    moreover have "dk_data (blk s'') l = dk_data (blk s') l"
      using assms(2,6) that same_geo_defs(9) [OF g(1)] unfolding frame_def by auto
    ultimately show ?thesis by simp
  qed
  show ?thesis
    using assms(1,2) e d same_geo_trans [OF g] unfolding frame_def by blast
qed

lemma frame_refl: "fat_inv s \<Longrightarrow> \<not> failed s \<Longrightarrow> frame s C L s"
  by (simp add: frame_def)

lemma frame_wrote:
  assumes "wrote s L s'" and "L \<subseteq> data_area s" and "fat_inv s" and "\<not> failed s"
  shows "frame s {} L s'"
  using wrote_fields [OF assms(1)] wrote_inv [OF assms(1-3)] assms(4) by (simp add: frame_def)

lemma frame_only_read:
  assumes "only_read s s'" and "fat_inv s" and "\<not> failed s"
  shows "frame s C L s'"
proof -
  have "disk_ok (blk s)" using assms(2) by (simp add: fat_inv_def fat_ok_def)
  then have "frame s {} {} s'" by (intro frame_wrote [OF only_read_wrote]) (use assms in simp_all)
  then show ?thesis by (rule frame_trans [OF frame_refl [OF assms(2,3)], where C = "{}" and L = "{}"]) simp_all
qed

lemma frame_allocated:
  assumes "allocated s n sel s'"
  shows "frame s (set sel) {} s'"
  using assms unfolding allocated_def frame_def keeps_data_def by auto

lemma frame_released:
  assumes "released s cs s'"
  shows "frame s (set cs) {} s'"
  using assms unfolding released_def frame_def keeps_data_def by auto

lemma frame_chain:
  assumes "frame s C L s'" and "is_chain s cs" and "set cs \<inter> C = {}"
  shows "is_chain s' cs"
proof -
  have g: "same_geo s s'" using assms(1) by (simp add: frame_def)
  have e: "ent s' c = ent s c" if "c \<in> set cs" for c
    using assms that unfolding frame_def is_chain_def by blast
  have "links s ds \<Longrightarrow> set ds \<subseteq> set cs \<Longrightarrow> links s' ds" for ds
    by (induction ds rule: induct_list012) (simp_all add: e same_geo_defs(6) [OF g])
  then show ?thesis using assms(2) same_geo_defs(3) [OF g] by (simp add: is_chain_def)
qed

lemma frame_sector:
  assumes "frame s C L s'" and "fat_geom s" and "l \<in> data_area s" and "l \<notin> L"
  shows "dk_data (blk s') l = dk_data (blk s) l"
  using assms data_area_meta [OF assms(2)] unfolding frame_def by blast

lemma frame_cluster:
  assumes "frame s C L s'" and "fat_inv s" and "fat_valid s c" and "cl_sectors s c \<inter> L = {}"
  shows "cluster_data s' c = cluster_data s c"
proof -
  have sg: "fat_shape s" "fat_geom s" using assms(2) by (simp_all add: fat_inv_def fat_ok_def)
  have g: "same_geo s s'" using assms(1) by (simp add: frame_def)
  have "dk_data (blk s') (cl_lba s c i) = dk_data (blk s) (cl_lba s c i)" if "i < unat (spc s)" for i
  proof -
    have "cl_lba s c i \<in> cl_sectors s c" using that by (simp add: cl_sectors_def)
    then show ?thesis using frame_sector [OF assms(1) sg(2)] cl_sectors_area [OF sg assms(3)] assms(4) by blast
  qed
  then show ?thesis
    unfolding cluster_data_def sectors_def same_geo_defs [OF g] same_geo_fields [OF g] cl_lba_def
    by (intro arg_cong [where f = concat] map_cong) simp_all
qed

lemma frame_dir:
  assumes "frame s C L s'" and "fat_inv s" and "dir_at s dir cs data"
    and "set cs \<inter> C = {}" and "dir_sectors s dir cs (length data) \<inter> L = {}"
  shows "dir_at s' dir cs data"
proof -
  have sg: "fat_shape s" "fat_geom s" using assms(2) by (simp_all add: fat_inv_def fat_ok_def)
  have g: "same_geo s s'" using assms(1) by (simp add: frame_def)
  have shape: "dir_shape s dir cs (length data)" using assms(3) by (simp add: dir_at_def)
  have f: "fixed_root s' dir = fixed_root s dir" by (simp add: fixed_root_def same_geo_fields [OF g])
  have lba: "dir_lba s' dir cs i = dir_lba s dir cs i" for i
    by (simp add: dir_lba_def f cl_lba_def same_geo_fields [OF g] same_geo_defs [OF g])
  have "dk_data (blk s') (dir_lba s dir cs (j div SECTOR)) = dk_data (blk s) (dir_lba s dir cs (j div SECTOR))"
    if j: "j < length data" for j
  proof -
    have "SECTOR * (j div SECTOR) < length data" using j mult_div_mod_eq [of SECTOR j] by linarith
    then show ?thesis
      using frame_sector [OF assms(1) sg(2) dir_lba_facts(2) [OF sg shape]] assms(5) by (auto simp: dir_sectors_def)
  qed
  moreover have "dir_shape s' dir cs (length data)"
    using shape frame_chain [OF assms(1) _ assms(4)] unfolding dir_shape_def f
    by (simp add: same_geo_fields [OF g] same_geo_defs [OF g] split: if_splits)
  ultimately show ?thesis using assms(3) unfolding dir_at_def lba by simp
qed

section \<open>File contents\<close>

definition chain_data :: "fat_state \<Rightarrow> u32 list \<Rightarrow> bytes" where
  "chain_data s cs = concat (map (cluster_data s) cs)"

text \<open>The record stands for a file with these contents.\<close>

definition file_at :: "fat_state \<Rightarrow> Record \<Rightarrow> bytes \<Rightarrow> bool" where
  "file_at s r data \<longleftrightarrow> \<not> is_dir r \<and> unat (size_of r) \<le> MAX_FILE \<and>
     (\<exists>cs. fat_chain s (cluster r) (MAX_FILE div fat_bytes s + 1) = Some (Ok cs) \<and>
        unat (size_of r) \<le> length cs * fat_bytes s \<and> data = take (unat (size_of r)) (chain_data s cs))"

lemma length_chain_data: "disk_ok (blk s) \<Longrightarrow> length (chain_data s cs) = length cs * fat_bytes s"
  unfolding chain_data_def by (rule length_concat_uniform) (rule length_cluster_data)

lemma collect_reads:
  assumes "fat_inv s" and "\<forall>c\<in>set cs. fat_valid s c"
  shows "reads s (fat_collect cs sz acc) (acc @ take (sz - length acc) (chain_data s cs))"
  using assms(2)
proof (induction cs arbitrary: acc)
  case (Cons c cs)
  have "reads s (fat_collect cs sz (acc @ take (sz - length acc) (cluster_data s c)))
      (acc @ take (sz - length acc) (chain_data s (c # cs)))"
    using Cons(1) [of "acc @ take (sz - length acc) (cluster_data s c)"] Cons(2)
    by (simp add: chain_data_def min_def diff_diff_left split: if_splits)
  then show ?case using reads_andThen [OF reads_cluster [OF assms(1), of c]] Cons(2) by simp
qed (simp add: chain_data_def reads_ret)

lemma fat_data_reads:
  assumes "fat_inv s" and "file_at s r data"
  shows "reads s (fat_data r) data"
proof -
  have sg: "fat_shape s" "fat_geom s" "disk_ok (blk s)" using assms(1) by (simp_all add: fat_inv_def fat_ok_def)
  note pos = fat_bytes_pos [OF sg(1)]
  obtain cs where cs: "fat_chain s (cluster r) (MAX_FILE div fat_bytes s + 1) = Some (Ok cs)"
    "unat (size_of r) \<le> length cs * fat_bytes s" "data = take (unat (size_of r)) (chain_data s cs)"
    using assms(2) by (auto simp: file_at_def)
  have nd: "\<not> is_dir r" "\<not> MAX_FILE < unat (size_of r)" using assms(2) by (auto simp: file_at_def)
  have nf: "\<not> failed s" using cs(1) by (auto simp: fat_chain_def)
  define needed where "needed = (unat (size_of r) + fat_bytes s - 1) div fat_bytes s"
  have needed': "(unat (size_of r) + fat_bytes s - Suc 0) div fat_bytes s = needed" by (simp add: needed_def)
  have "needed < length cs + 1"
    unfolding needed_def by (rule less_mult_imp_div_less) (use cs(2) pos in simp)
  then have le: "needed \<le> length cs" by simp
  have cover: "unat (size_of r) \<le> needed * fat_bytes s"
    unfolding needed_def using dividend_less_div_times [OF pos, of "unat (size_of r) + fat_bytes s - 1"] pos by linarith
  have "take (unat (size_of r)) (chain_data s (take needed cs)) = data"
  proof -
    have "chain_data s cs = chain_data s (take needed cs) @ chain_data s (drop needed cs)"
      unfolding chain_data_def by (metis append_take_drop_id concat_append map_append)
    moreover have "unat (size_of r) \<le> length (chain_data s (take needed cs))"
      using length_chain_data [OF sg(3)] le cover by simp
    ultimately show ?thesis using cs(3) by simp
  qed
  moreover have "\<forall>c\<in>set cs. fat_valid s c"
    using fat_chain_Ok_iff [OF sg(1) nf, of "cluster r"] cs(1)
    by (cases "cluster r = 0") (auto simp: fat_chain_def nf is_chain_def)
  then have "\<forall>c\<in>set (take needed cs). fat_valid s c" using set_take_subset by fastforce
  ultimately have r: "reads s (fat_collect (take needed cs) (unat (size_of r)) []) data"
    using collect_reads [OF assms(1), of "take needed cs" "unat (size_of r)" "[]"] by simp
  show ?thesis
  proof (rule reads_cong [OF r])
    fix s1 assume s1: "only_read s s1"
    show "fat_data r s1 = fat_collect (take needed cs) (unat (size_of r)) [] s1"
      using nd pos le cs(1) unfolding fat_data_def Let_def
      by (simp add: only_read_tab [OF s1 sg(3)] needed')
  qed
qed

text \<open>What \<open>write_data\<close> leaves behind: a chain of formerly free clusters with the contents.\<close>

definition data_stored :: "fat_state \<Rightarrow> bytes \<Rightarrow> u32 \<Rightarrow> u32 list \<Rightarrow> fat_state \<Rightarrow> bool" where
  "data_stored s data first cls s' \<longleftrightarrow>
     frame s (set cls) (\<Union>(cl_sectors s ` set cls)) s' \<and> distinct cls \<and> set cls \<subseteq> fat_free_set s
   \<and> length cls = (length data + fat_bytes s - 1) div fat_bytes s
   \<and> first = (if cls = [] then 0 else hd cls) \<and> (cls \<noteq> [] \<longrightarrow> is_chain s' cls)
   \<and> take (length data) (chain_data s' cls) = data"

definition part_of :: "bytes \<Rightarrow> nat \<Rightarrow> nat \<Rightarrow> bytes" where
  "part_of data bytes i =
     (let part = subrange (i * bytes) (min bytes (length data - i * bytes)) data in part @ replicate (bytes - length part) 0)"

lemma concat_parts:
  assumes "0 < bytes"
  shows "length data \<le> n * bytes \<Longrightarrow> take (length data) (concat (map (part_of data bytes) [0..<n])) = data"
proof (induction n arbitrary: data)
  case (Suc n)
  show ?case
  proof (cases "length data \<le> bytes")
    case True
    then have "take (length data) (part_of data bytes 0) = data" "length data \<le> length (part_of data bytes 0)"
      by (simp_all add: part_of_def Let_def)
    then show ?thesis by (simp only: upt_conv_Cons zero_less_Suc list.map concat.simps take_append) simp
  next
    case False
    have p: "part_of data bytes (Suc i) = part_of (drop bytes data) bytes i" for i
      by (simp add: part_of_def Let_def subrange_def add.commute)
    have z: "part_of data bytes 0 = take bytes data" "length (take bytes data) = bytes"
      using False by (simp_all add: part_of_def Let_def subrange_def)
    have u: "[0..<Suc n] = 0 # map Suc [0..<n]" by (simp add: map_Suc_upt upt_conv_Cons del: upt_Suc)
    have "map (part_of data bytes) [0..<Suc n] = part_of data bytes 0 # map (part_of (drop bytes data) bytes) [0..<n]"
      unfolding u by (simp add: p)
    then have "concat (map (part_of data bytes) [0..<Suc n]) = take bytes data @ concat (map (part_of (drop bytes data) bytes) [0..<n])"
      using z(1) by simp
    moreover have "take (length data - bytes) (concat (map (part_of (drop bytes data) bytes) [0..<n])) = drop bytes data"
      using Suc(1) [of "drop bytes data"] Suc(2) by simp
    ultimately show ?thesis using z(2) False by simp
  qed
qed simp

definition parts_stored :: "fat_state \<Rightarrow> bytes \<Rightarrow> u32 list \<Rightarrow> nat list \<Rightarrow> fat_state \<Rightarrow> bool" where
  "parts_stored s data cls is s' \<longleftrightarrow> wrote s (\<Union>(cl_sectors s ` set cls)) s' \<and>
     (\<forall>i\<in>set is. cluster_data s' (cls ! i) = part_of data (fat_bytes s) i)"

lemma wrote_cluster_other:
  assumes "wrote s L s'" and "cl_sectors s c \<inter> L = {}"
  shows "cluster_data s' c = cluster_data s c"
proof -
  note g = wrote_fields(1) [OF assms(1)]
  have "dk_data (blk s') (cl_lba s c i) = dk_data (blk s) (cl_lba s c i)" if "i < unat (spc s)" for i
    by (rule wrote_fields(8) [OF assms(1)]) (use assms(2) that in \<open>auto simp: cl_sectors_def\<close>)
  then show ?thesis
    unfolding cluster_data_def sectors_def same_geo_defs [OF g] same_geo_fields [OF g] cl_lba_def
    by (intro arg_cong [where f = concat] map_cong) simp_all
qed

lemma same_geo_cl_sectors: "same_geo s s' \<Longrightarrow> cl_sectors s' = cl_sectors s" "same_geo s s' \<Longrightarrow> data_area s' = data_area s"
  by (rule ext) (simp_all add: cl_sectors_def cl_lba_def [abs_def] same_geo_defs same_geo_fields data_area_def)

lemma clusters_area:
  assumes "fat_shape s" and "fat_geom s" and "\<forall>c\<in>C. fat_valid s c"
  shows "\<Union>(cl_sectors s ` C) \<subseteq> data_area s"
  using cl_sectors_area [OF assms(1,2)] assms(3) by blast

lemma put_part_triple:
  assumes inv: "fat_inv s" and nf: "\<not> failed s" and v: "\<forall>c\<in>set cls. fat_valid s c" and d: "distinct cls"
    and i: "i < length cls" and new: "\<forall>j\<in>set is. j < length cls \<and> j \<noteq> i"
  shows "triple (parts_stored s data cls is) (fat_put_part data (fat_bytes s) cls i)
    (\<lambda>_. parts_stored s data cls (is @ [i])) (\<lambda>_. spoiled s (\<Union>(cl_sectors s ` set cls)))"
proof (rule tripleI)
  fix s1 assume s1: "parts_stored s data cls is s1"
  define L where "L = \<Union>(cl_sectors s ` set cls)"
  have sg: "fat_shape s" "fat_geom s" using inv by (simp_all add: fat_inv_def fat_ok_def)
  have w: "wrote s L s1" using s1 by (simp add: parts_stored_def L_def)
  note f = wrote_fields [OF w]
  note geo = same_geo_cl_sectors [OF f(1)]
  have "L \<subseteq> data_area s" using clusters_area [OF sg] v by (simp add: L_def)
  then have inv1: "fat_inv s1" and nf1: "\<not> failed s1" using wrote_inv [OF w _ inv] nf f(5) by simp_all
  have vi: "fat_valid s (cls ! i)" using v i by simp
  have sub: "cl_sectors s (cls ! i) \<subseteq> L" using nth_mem [OF i] by (auto simp: L_def)
  have len: "length (part_of data (fat_bytes s) i) = fat_bytes s" by (simp add: part_of_def Let_def min_def)
  have other: "cl_sectors s (cls ! j) \<inter> cl_sectors s (cls ! i) = {}" if "j \<in> set is" for j
  proof -
    have j: "j < length cls" "j \<noteq> i" using new that by blast+
    have "cls ! j \<noteq> cls ! i" using nth_eq_iff_index_eq [OF d j(1) i] j(2) by simp
    then show ?thesis using cl_sectors_disjoint [OF sg] v vi j(1) by simp
  qed
  have valid1: "fat_valid s1 (cls ! i)" and len1: "length (part_of data (fat_bytes s) i) = fat_bytes s1"
    using vi len same_geo_defs [OF f(1)] by simp_all
  have run: "fat_put_part data (fat_bytes s) cls i = fat_write_cluster (cls ! i) (part_of data (fat_bytes s) i)"
    by (simp add: fat_put_part_def part_of_def)
  have ok: "parts_stored s data cls (is @ [i]) s'"
    if w': "wrote s1 (cl_sectors s1 (cls ! i)) s'" and cd: "cluster_data s' (cls ! i) = part_of data (fat_bytes s) i" for s'
  proof -
    have "wrote s L s'" using wrote_trans [OF w wrote_mono [OF w']] geo(1) sub by simp
    moreover have "cluster_data s' (cls ! j) = part_of data (fat_bytes s) j" if "j \<in> set is" for j
      using wrote_cluster_other [OF w'] other [OF that] geo(1) s1 that by (simp add: parts_stored_def)
    ultimately show ?thesis using cd by (auto simp: parts_stored_def L_def)
  qed
  have err: "spoiled s L s'" if "spoiled s1 (cl_sectors s1 (cls ! i)) s'" for s'
    using wrote_spoiled [OF w spoiled_mono [OF that]] geo(1) sub by simp
  show "(\<exists>a s'. fat_put_part data (fat_bytes s) cls i s1 = Some (Ok a, s') \<and> parts_stored s data cls (is @ [i]) s') \<or>
     (\<exists>e s'. fat_put_part data (fat_bytes s) cls i s1 = Some (Err e, s') \<and> spoiled s (\<Union>(cl_sectors s ` set cls)) s')"
    using fat_write_cluster_triple [OF inv1 nf1 valid1 len1] ok err unfolding run L_def by blast
qed

lemma write_parts:
  assumes inv: "fat_inv s" and nf: "\<not> failed s" and v: "\<forall>c\<in>set cls. fat_valid s c" and d: "distinct cls"
  shows "(\<exists>s'. for_each (fat_put_part data (fat_bytes s) cls) [0..<length cls] s = Some (Ok (), s') \<and>
        wrote s (\<Union>(cl_sectors s ` set cls)) s' \<and> map (cluster_data s') cls = map (part_of data (fat_bytes s)) [0..<length cls]) \<or>
    (\<exists>e s'. for_each (fat_put_part data (fat_bytes s) cls) [0..<length cls] s = Some (Err e, s') \<and>
        spoiled s (\<Union>(cl_sectors s ` set cls)) s')"
proof -
  have "triple (parts_stored s data cls []) (for_each (fat_put_part data (fat_bytes s) cls) [0..<length cls])
      (\<lambda>_. parts_stored s data cls [0..<length cls]) (\<lambda>_. spoiled s (\<Union>(cl_sectors s ` set cls)))"
  proof (rule triple_for_each [where I = "parts_stored s data cls"])
    fix ys i zs assume eq: "[0..<length cls] = ys @ i # zs"
    have "i \<in> set [0..<length cls]" "set ys \<subseteq> set [0..<length cls]" unfolding eq by auto
    moreover have "distinct (ys @ i # zs)" by (metis distinct_upt eq)
    ultimately have "i < length cls" "\<forall>j\<in>set ys. j < length cls \<and> j \<noteq> i" by auto
    then show "triple (parts_stored s data cls ys) (fat_put_part data (fat_bytes s) cls i)
        (\<lambda>_. parts_stored s data cls (ys @ [i])) (\<lambda>_. spoiled s (\<Union>(cl_sectors s ` set cls)))"
      by (rule put_part_triple [OF assms])
  qed
  moreover have "parts_stored s data cls [] s"
    using inv wrote_refl by (simp add: parts_stored_def fat_inv_def fat_ok_def)
  ultimately show ?thesis
  proof (cases rule: tripleE)
    case (Ok a s')
    then have "map (cluster_data s') cls = map (part_of data (fat_bytes s)) [0..<length cls]"
      by (intro nth_equalityI) (simp_all add: parts_stored_def)
    then show ?thesis using Ok by (simp add: parts_stored_def)
  qed blast
qed

lemma fat_write_data_cases:
  assumes inv: "fat_inv s" and nf: "\<not> failed s"
  shows "(\<exists>first cls s'. fat_write_data data s = Some (Ok first, s') \<and> length data \<le> MAX_FILE \<and> data_stored s data first cls s') \<or>
    (\<exists>e s'. fat_write_data data s = Some (Err e, s') \<and> fat_inv s' \<and> same_geo s s' \<and> (s' = s \<or> \<not> reliable (blk s))
        \<and> (reliable (blk s) \<longrightarrow> MAX_FILE < length data \<or> card (fat_free_set s) < (length data + fat_bytes s - 1) div fat_bytes s))"
proof -
  have sg: "fat_shape s" "fat_geom s" "disk_ok (blk s)" using inv by (simp_all add: fat_inv_def fat_ok_def)
  note pos = fat_bytes_pos [OF sg(1)]
  define n where "n = (length data + fat_bytes s - 1) div fat_bytes s"
  have cover: "length data \<le> n * fat_bytes s"
    unfolding n_def using dividend_less_div_times [OF pos, of "length data + fat_bytes s - 1"] pos by linarith
  consider "MAX_FILE < length data" | "length data \<le> MAX_FILE" "n = 0" | "length data \<le> MAX_FILE" "0 < n" by linarith
  then show ?thesis
  proof cases
    case 1
    then show ?thesis using inv by (simp add: fat_write_data_def)
  next
    case 2
    then have e: "data = []" using cover by simp
    have run: "fat_write_data data s = Some (Ok 0, s)"
      using 2 pos nf by (simp add: fat_write_data_def e fat_allocate_def fat_check_def)
    have "data_stored s data 0 [] s"
      using 2(2) frame_refl [OF inv nf] by (simp add: data_stored_def n_def e chain_data_def)
    then show ?thesis using run 2(1) by blast
  next
    case 3
    have run: "fat_write_data data s = andThen (fat_allocate n) (\<lambda>cls.
           andThen (for_each (fat_put_part data (fat_bytes s) cls) [0..<length cls]) (\<lambda>_.
           ret (if cls = [] then 0 else hd cls))) s"
      using 3(1) pos by (simp add: fat_write_data_def n_def)
    from fat_allocate_triple [OF inv nf 3(2)] show ?thesis
    proof (elim disjE exE conjE)
      fix cls s1 assume r1: "fat_allocate n s = Some (Ok cls, s1)" and al: "allocated s n cls s1"
      have a: "length cls = n" "distinct cls" "set cls \<subseteq> fat_free_set s" "fat_inv s1" "\<not> failed s1" "same_geo s s1"
        "reliable (blk s) \<longrightarrow> reliable (blk s1)"
        using al by (auto simp: allocated_def keeps_data_def)
      note g = same_geo_defs [OF a(6)] same_geo_cl_sectors [OF a(6)]
      have v: "\<forall>c\<in>set cls. fat_valid s1 c" using a(3) g by (auto simp: fat_free_set_def)
      have ch: "is_chain s1 cls" by (rule allocated_chain [OF inv al 3(2)])
      from write_parts [OF a(4,5) v a(2), of data] show ?thesis
      proof (elim disjE exE conjE)
        fix s2 assume r2: "for_each (fat_put_part data (fat_bytes s1) cls) [0..<length cls] s1 = Some (Ok (), s2)"
          and w: "wrote s1 (\<Union>(cl_sectors s1 ` set cls)) s2"
          and cd: "map (cluster_data s2) cls = map (part_of data (fat_bytes s1)) [0..<length cls]"
        have area: "\<Union>(cl_sectors s1 ` set cls) \<subseteq> data_area s1"
          using clusters_area [OF _ _ v] a(4) by (simp add: fat_inv_def fat_ok_def)
        have f2: "frame s1 {} (\<Union>(cl_sectors s1 ` set cls)) s2" by (rule frame_wrote [OF w area a(4,5)])
        have "frame s (set cls) (\<Union>(cl_sectors s ` set cls)) s2"
          by (rule frame_trans [OF frame_allocated [OF al] f2]) (simp_all add: g)
        moreover have "is_chain s2 cls" using ch wrote_fields(13) [OF w] by simp
        moreover have "take (length data) (chain_data s2 cls) = data"
          unfolding chain_data_def cd a(1) g using concat_parts [OF pos cover] .
        ultimately have "data_stored s data (hd cls) cls s2"
          using a(1-3) 3(2) by (auto simp: data_stored_def n_def)
        moreover have "cls \<noteq> []" using a(1) 3(2) by auto
        ultimately show ?thesis using run r1 r2 3(1) g by auto
      next
        fix e s2 assume r2: "for_each (fat_put_part data (fat_bytes s1) cls) [0..<length cls] s1 = Some (Err e, s2)"
          and sp: "spoiled s1 (\<Union>(cl_sectors s1 ` set cls)) s2"
        show ?thesis
          using run r1 r2 g spoiled_inv [OF sp a(4)] same_geo_trans [OF a(6)] a(7) by auto
      qed
    next
      assume "fat_allocate n s = Some (Err ''disk full'', s)" "card (fat_free_set s) < n"
      then show ?thesis using run inv by (auto simp: n_def)
    next
      fix e s1 assume "fat_allocate n s = Some (Err e, s1)" "fat_inv s1" "keeps_data s s1" "\<not> reliable (blk s)"
      then show ?thesis using run by (auto simp: keeps_data_def)
    qed
  qed
qed

section \<open>Growing a directory\<close>

lemma relink_cases:
  assumes inv: "fat_inv s" and nf: "\<not> failed s" and ch: "is_chain s cs" and d: "fat_valid s d"
  shows "(\<exists>s'. fat_set (last cs) d s = Some (Ok (), s') \<and> frame s {last cs} {} s' \<and> ent s' (last cs) = d) \<or>
    (\<exists>e s'. fat_set (last cs) d s = Some (Err e, s') \<and> fat_inv s' \<and> same_geo s s' \<and> \<not> reliable (blk s))"
proof -
  have ok: "fat_ok s" and shape: "fat_shape s" using inv by (simp_all add: fat_inv_def fat_ok_def)
  have c: "fat_valid s (last cs)" using ch is_chain_nonempty [OF ch] by (simp add: is_chain_def)
  have nz: "ent s (last cs) \<noteq> 0" using is_chain_nonzero [OF shape ch] is_chain_nonempty [OF ch] by simp
  have dz: "d \<noteq> 0" using d by (auto simp: fat_valid_def)
  from tab_step_set [OF c entry_fits(1) [OF shape d], of Map.empty] tab_step_refl [OF ok nf] show ?thesis
  proof (cases rule: tripleE)
    case (Ok a s')
    have t: "keeps_data s s'" "fat_ok s'" "\<not> failed s'" "free_count s' = free_count s" "reliable (blk s) \<longrightarrow> reliable (blk s')"
      and e: "\<And>c'. fat_valid s c' \<Longrightarrow> ent s' c' = (if c' = last cs then d else ent s c')"
      using Ok(2) by (simp_all add: tab_step_def)
    have g: "same_geo s s'" using t(1) by (simp add: keeps_data_def)
    have "fat_free_set s' = fat_free_set s"
      unfolding fat_free_set_def same_geo_defs(3) [OF g] using e nz dz by (auto split: if_splits)
    then have "fat_inv s'" using t inv nf by (simp add: fat_inv_def)
    then have "frame s {last cs} {} s'" using t g e by (simp add: frame_def keeps_data_def)
    then show ?thesis using Ok(1) e [OF c] by auto
  next
    case (Err e s')
    then have "fat_inv s'" "same_geo s s'" "\<not> reliable (blk s)"
      using broken_inv [of s s'] by (simp_all add: broken_def keeps_data_def)
    then show ?thesis using Err(1) by blast
  qed
qed

lemma links_snoc:
  assumes "links v cs" and "distinct cs" and "\<And>c. c \<in> set cs \<Longrightarrow> c \<noteq> last cs \<Longrightarrow> ent v' c = ent v c"
    and "ent v' (last cs) = d" and "fat_is_eof v' (ent v' d)"
  shows "links v' (cs @ [d])"
  using assms
proof (induction cs rule: induct_list012)
  case (3 x y zs)
  have "x \<noteq> last (y # zs)" using 3(4) last_in_set [of "y # zs"] by auto
  then have "ent v' x = y" using 3(3) 3(5) [of x] by simp
  moreover have "links v' ((y # zs) @ [d])"
  proof (rule 3(2))
    show "ent v' c = ent v c" if "c \<in> set (y # zs)" "c \<noteq> last (y # zs)" for c
      using that 3(5) [of c] by simp
  qed (use 3 in simp_all)
  ultimately show ?case by simp
qed simp_all

lemma chain_snoc:
  assumes "is_chain s cs" and "d \<notin> set cs" and "same_geo s s'"
    and "\<And>c. c \<in> set cs \<Longrightarrow> c \<noteq> last cs \<Longrightarrow> ent s' c = ent s c"
    and "ent s' (last cs) = d" and "fat_is_eof s' (ent s' d)" and "fat_valid s d"
  shows "is_chain s' (cs @ [d])"
  using assms links_snoc [of s cs s' d] same_geo_defs(3) [OF assms(3)] unfolding is_chain_def by auto

lemma frame_free_set:
  assumes "frame s C L s'" and "\<And>c. c \<in> C \<Longrightarrow> fat_valid s c \<Longrightarrow> ent s' c \<noteq> 0"
  shows "fat_free_set s' \<subseteq> fat_free_set s"
proof
  fix c assume "c \<in> fat_free_set s'"
  moreover have "fat_valid s' = fat_valid s" using assms(1) same_geo_defs(3) by (simp add: frame_def)
  ultimately have v: "fat_valid s c" "ent s' c = 0" by (simp_all add: fat_free_set_def)
  then have "ent s c = ent s' c" using assms unfolding frame_def by metis
  then show "c \<in> fat_free_set s" using v by (simp add: fat_free_set_def)
qed

lemma chain_not_free:
  assumes "fat_shape s" and "is_chain s cs" and "set sel \<subseteq> fat_free_set s"
  shows "set cs \<inter> set sel = {}"
  using is_chain_nonzero [OF assms(1,2)] assms(3) by (auto simp: fat_free_set_def)

lemma cl_sectors_inter:
  assumes "fat_shape s" and "fat_geom s" and "fat_valid s c" and "\<forall>c'\<in>C. fat_valid s c'" and "c \<notin> C"
  shows "cl_sectors s c \<inter> \<Union>(cl_sectors s ` C) = {}"
  using cl_sectors_disjoint [OF assms(1-3)] assms(4,5) by blast

text \<open>One round: a zeroed cluster is appended to the chain of a directory.\<close>

definition dir_grown :: "fat_state \<Rightarrow> Dir \<Rightarrow> u32 list \<Rightarrow> bytes \<Rightarrow> u32 list \<Rightarrow> fat_state \<Rightarrow> bool" where
  "dir_grown s dir cs data news s' \<longleftrightarrow>
     dir_at s' dir (cs @ news) (data @ replicate (length news * fat_bytes s) 0)
   \<and> frame s (set cs \<union> set news) (\<Union>(cl_sectors s ` set news)) s' \<and> set news \<subseteq> fat_free_set s
   \<and> fat_free_set s' \<subseteq> fat_free_set s"

lemma grow_cases:
  assumes inv: "fat_inv s" and nf: "\<not> failed s" and at: "dir_at s dir cs data" and fx: "\<not> fixed_root s dir"
    and room: "length data + fat_bytes s \<le> MAX_METADATA"
    and body_def: "body = andThen (fat_allocate 1) (\<lambda>sel.
               andThen (gets_opt (\<lambda>v. idx sel 0)) (\<lambda>new.
               andThen (fat_write_cluster new (replicate (fat_bytes s) 0)) (\<lambda>_.
               if cs = [] then fail ''empty directory chain''
               else andThen (fat_set (last cs) new) (\<lambda>_. k new))))"
  shows "(\<exists>new s'. body s = k new s' \<and> dir_grown s dir cs data [new] s') \<or>
    (\<exists>e s'. body s = Some (Err e, s') \<and> fat_inv s' \<and> same_geo s s')"
proof -
  have sg: "fat_shape s" "fat_geom s" "disk_ok (blk s)" using inv by (simp_all add: fat_inv_def fat_ok_def)
  note pos = fat_bytes_pos [OF sg(1)]
  have ch: "is_chain s cs" "hd cs = dir_cluster dir" "length cs \<le> MAX_METADATA div fat_bytes s" "length data = length cs * fat_bytes s"
    using at fx by (simp_all add: dir_at_def dir_shape_def)
  note ne = is_chain_nonempty [OF ch(1)]
  have v: "\<forall>c\<in>set cs. fat_valid s c" using ch(1) by (simp add: is_chain_def)
  from fat_allocate_triple [OF inv nf zero_less_one] show ?thesis
  proof (elim disjE exE conjE)
    fix sel s1 assume r1: "fat_allocate 1 s = Some (Ok sel, s1)" and al: "allocated s 1 sel s1"
    then obtain new where sel: "sel = [new]" by (auto simp: allocated_def length_Suc_conv)
    have free: "{new} \<subseteq> fat_free_set s" and inv1: "fat_inv s1" "\<not> failed s1" and g1: "same_geo s s1"
      using al sel by (auto simp: allocated_def keeps_data_def)
    have vn: "fat_valid s new" using free by (simp add: fat_free_set_def)
    have f1: "frame s {new} {} s1" using frame_allocated [OF al] sel by simp
    have nn: "new \<notin> set cs" using chain_not_free [OF sg(1) ch(1), of "[new]"] free by auto
    have vn1: "fat_valid s1 new" and len1: "length (replicate (fat_bytes s) (0 :: u8)) = fat_bytes s1"
      using vn same_geo_defs [OF g1] by simp_all
    have b1: "body s = andThen (fat_write_cluster new (replicate (fat_bytes s) 0)) (\<lambda>_. andThen (fat_set (last cs) new) (\<lambda>_. k new)) s1"
      unfolding body_def using r1 sel ne by simp
    from fat_write_cluster_triple [OF inv1 vn1 len1] show ?thesis
    proof (elim disjE exE conjE)
      fix s2 assume r2: "fat_write_cluster new (replicate (fat_bytes s) 0) s1 = Some (Ok (), s2)"
        and w: "wrote s1 (cl_sectors s1 new) s2" and cd: "cluster_data s2 new = replicate (fat_bytes s) 0"
      have sg1: "fat_shape s1" "fat_geom s1" using inv1 by (simp_all add: fat_inv_def fat_ok_def)
      have f2: "frame s1 {} (cl_sectors s new) s2"
        using frame_wrote [OF w cl_sectors_area [OF sg1 vn1] inv1] same_geo_cl_sectors [OF g1] by simp
      have f12: "frame s {new} (cl_sectors s new) s2" by (rule frame_trans [OF f1 f2]) simp_all
      have inv2: "fat_inv s2" "\<not> failed s2" and g2: "same_geo s s2" using f12 by (simp_all add: frame_def)
      have ch2: "is_chain s2 cs" by (rule frame_chain [OF f12 ch(1)]) (use nn in simp)
      have chn: "is_chain s2 [new]"
        using allocated_chain [OF inv al] sel wrote_fields(13) [OF w] by simp
      have vn2: "fat_valid s2 new" using vn same_geo_defs [OF g2] by simp
      from relink_cases [OF inv2 ch2 vn2] show ?thesis
      proof (elim disjE exE conjE)
        fix s3 assume r3: "fat_set (last cs) new s2 = Some (Ok (), s3)" and f3: "frame s2 {last cs} {} s3"
          and e3: "ent s3 (last cs) = new"
        have inv3: "fat_inv s3" "\<not> failed s3" and g23: "same_geo s2 s3" using f3 by (simp_all add: frame_def)
        have g3: "same_geo s s3" by (rule same_geo_trans [OF g2 g23])
        have ent3: "ent s3 c = ent s2 c" if "fat_valid s c" "c \<noteq> last cs" for c
          using f3 that same_geo_defs [OF g2] by (simp add: frame_def)
        have ch3: "is_chain s3 (cs @ [new])"
        proof (rule chain_snoc [OF ch2 nn g23])
          show "ent s3 c = ent s2 c" if "c \<in> set cs" "c \<noteq> last cs" for c using ent3 v that by simp
          have "new \<noteq> last cs" using nn ne by auto
          then show "fat_is_eof s3 (ent s3 new)"
            using ent3 [OF vn] chn same_geo_defs(6) [OF g23] by (simp add: is_chain_def)
        qed (use e3 vn2 in simp_all)
        have fr: "frame s (set cs \<union> {new}) (cl_sectors s new) s3"
          by (rule frame_trans [OF f12 f3]) (use ne in auto)
        have cd3: "cluster_data s3 new = replicate (fat_bytes s) 0"
          using frame_cluster [OF f3 inv2(1) vn2] cd by simp
        have same: "cluster_data s3 c = cluster_data s c" if "c \<in> set cs" for c
          by (rule frame_cluster [OF fr inv]) (use v that nn cl_sectors_disjoint [OF sg(1,2) _ vn] in auto)
        have fx3: "\<not> fixed_root s3 dir" using fx by (simp add: fixed_root_def same_geo_fields [OF g3])
        have "length (cs @ [new]) * fat_bytes s \<le> MAX_METADATA" using room ch(4) by simp
        then have le: "length (cs @ [new]) \<le> MAX_METADATA div fat_bytes s3"
          using pos same_geo_defs [OF g3] by (simp add: less_eq_div_iff_mult_less_eq)
        have "data = concat (map (cluster_data s) cs)" using at chain_bytes_at [OF sg(3) fx ch(1-3)] by simp
        then have bytes: "data @ replicate (fat_bytes s) 0 = concat (map (cluster_data s3) (cs @ [new]))"
          using cd3 same by (simp cong: map_cong)
        have "dir_at s3 dir (cs @ [new]) (data @ replicate (fat_bytes s) 0)"
          using chain_bytes_at [OF _ fx3 ch3 _ le] inv3 ne ch(2) bytes by (simp add: fat_inv_def fat_ok_def)
        moreover have "fat_free_set s3 \<subseteq> fat_free_set s"
          by (rule frame_free_set [OF fr]) (use is_chain_nonzero [OF _ ch3] inv3 in \<open>auto simp: fat_inv_def fat_ok_def\<close>)
        ultimately have "dir_grown s dir cs data [new] s3"
          using fr free by (simp add: dir_grown_def)
        then show ?thesis using b1 r2 r3 by auto
      next
        fix e s3 assume "fat_set (last cs) new s2 = Some (Err e, s3)" "fat_inv s3" "same_geo s2 s3"
        then show ?thesis using b1 r2 same_geo_trans [OF g2] by auto
      qed
    next
      fix e s2 assume "fat_write_cluster new (replicate (fat_bytes s) 0) s1 = Some (Err e, s2)" "spoiled s1 (cl_sectors s1 new) s2"
      then show ?thesis using b1 spoiled_inv [of s1 "cl_sectors s1 new" s2] inv1 same_geo_trans [OF g1] by auto
    qed
  next
    assume "fat_allocate 1 s = Some (Err ''disk full'', s)"
    then show ?thesis using inv by (auto simp: body_def)
  next
    fix e s1 assume "fat_allocate 1 s = Some (Err e, s1)" "fat_inv s1" "keeps_data s s1"
    then show ?thesis by (auto simp: body_def keeps_data_def)
  qed
qed

lemma dir_grown_refl:
  assumes "fat_inv s" and "\<not> failed s" and "dir_at s dir cs data"
  shows "dir_grown s dir cs data [] s"
  using assms frame_refl [OF assms(1,2)] by (simp add: dir_grown_def)

lemma dir_grown_trans:
  assumes "dir_grown s dir cs data xs s1" and "dir_grown s1 dir (cs @ xs) (data @ replicate (length xs * fat_bytes s) 0) ys s2"
  shows "dir_grown s dir cs data (xs @ ys) s2"
proof -
  have g: "same_geo s s1" using assms(1) by (simp add: dir_grown_def frame_def)
  have "frame s (set cs \<union> set (xs @ ys)) (\<Union>(cl_sectors s ` set (xs @ ys))) s2"
    by (rule frame_trans [where s' = s1 and C = "set cs \<union> set xs" and L = "\<Union>(cl_sectors s ` set xs)"
          and C' = "set (cs @ xs) \<union> set ys" and L' = "\<Union>(cl_sectors s ` set ys)"])
      (use assms same_geo_cl_sectors(1) [OF g] in \<open>auto simp: dir_grown_def\<close>)
  moreover have "dir_at s2 dir (cs @ xs @ ys) (data @ replicate (length (xs @ ys) * fat_bytes s) 0)"
    using assms(2) same_geo_defs(4) [OF g] by (simp add: dir_grown_def replicate_add add_mult_distrib)
  moreover have "set (xs @ ys) \<subseteq> fat_free_set s" "fat_free_set s2 \<subseteq> fat_free_set s"
    using assms by (auto simp: dir_grown_def)
  ultimately show ?thesis by (simp add: dir_grown_def)
qed

text \<open>The loop ends within its fuel.\<close>

lemma make_room_cases:
  assumes "fat_inv s" and "\<not> failed s" and "dir_at s dir cs data"
    and "if fixed_root s dir then 0 < fuel else MAX_METADATA div fat_bytes s < fuel + length cs"
  shows "(\<exists>off news s'. fat_make_room fuel dir needed cs data s =
        Some (Ok (off, cs @ news, data @ replicate (length news * fat_bytes s) 0), s') \<and>
        free_slots (data @ replicate (length news * fat_bytes s) 0) needed = Some off \<and> dir_grown s dir cs data news s') \<or>
    (\<exists>e s'. fat_make_room fuel dir needed cs data s = Some (Err e, s') \<and> fat_inv s' \<and> same_geo s s')"
  using assms
proof (induction fuel arbitrary: s cs data)
  case 0
  have "\<not> fixed_root s dir" "MAX_METADATA div fat_bytes s < length cs" using "0.prems"(4) by (simp_all split: if_splits)
  then show ?case using "0.prems"(3) by (simp add: dir_at_def dir_shape_def)
next
  case (Suc fuel)
  note inv = Suc.prems(1) and nf = Suc.prems(2) and at = Suc.prems(3)
  show ?case
  proof (cases "free_slots data needed")
    case (Some off)
    then show ?thesis using dir_grown_refl [OF inv nf at] by (intro disjI1 exI [of _ off] exI [of _ "[]"]) simp
  next
    case None
    show ?thesis
    proof (cases "fixed_root s dir \<or> MAX_METADATA < length data + fat_bytes s")
      case True
      then show ?thesis using None inv by auto
    next
      case False
      define k where "k new = fat_make_room fuel dir needed (cs @ [new]) (data @ replicate (fat_bytes s) 0)" for new
      define body where "body = andThen (fat_allocate 1) (\<lambda>sel.
               andThen (gets_opt (\<lambda>v. idx sel 0)) (\<lambda>new.
               andThen (fat_write_cluster new (replicate (fat_bytes s) 0)) (\<lambda>_.
               if cs = [] then fail ''empty directory chain''
               else andThen (fat_set (last cs) new) (\<lambda>_. k new))))"
      have run: "fat_make_room (Suc fuel) dir needed cs data s = body s"
        using None False unfolding body_def k_def by simp
      have fx: "\<not> fixed_root s dir" "length data + fat_bytes s \<le> MAX_METADATA" using False by auto
      from grow_cases [OF inv nf at fx body_def] show ?thesis
      proof (elim disjE exE conjE)
        fix new s1 assume b: "body s = k new s1" and gr: "dir_grown s dir cs data [new] s1"
        have inv1: "fat_inv s1" "\<not> failed s1" and g: "same_geo s s1" using gr by (auto simp: dir_grown_def frame_def)
        have at1: "dir_at s1 dir (cs @ [new]) (data @ replicate (fat_bytes s) 0)" using gr by (simp add: dir_grown_def)
        have "if fixed_root s1 dir then 0 < fuel else MAX_METADATA div fat_bytes s1 < fuel + length (cs @ [new])"
          using Suc.prems(4) fx(1) same_geo_defs(4) [OF g] same_geo_fields(1) [OF g] by (auto simp: fixed_root_def)
        from Suc.IH [OF inv1 at1 this] show ?thesis
        proof (elim disjE exE conjE)
          fix off news s' assume r: "fat_make_room fuel dir needed (cs @ [new]) (data @ replicate (fat_bytes s) 0) s1 =
              Some (Ok (off, (cs @ [new]) @ news, (data @ replicate (fat_bytes s) 0) @ replicate (length news * fat_bytes s1) 0), s')"
            and fs: "free_slots ((data @ replicate (fat_bytes s) 0) @ replicate (length news * fat_bytes s1) 0) needed = Some off"
            and gr': "dir_grown s1 dir (cs @ [new]) (data @ replicate (fat_bytes s) 0) news s'"
          have z: "(data @ replicate (fat_bytes s) 0) @ replicate (length news * fat_bytes s1) 0 =
              data @ replicate (length (new # news) * fat_bytes s) 0"
            using same_geo_defs(4) [OF g] by (simp add: replicate_add)
          have "dir_grown s dir cs data ([new] @ news) s'" using dir_grown_trans [OF gr] gr' by simp
          then show ?thesis using run b r fs unfolding z k_def by (intro disjI1 exI [of _ off] exI [of _ "new # news"]) simp
        next
          fix e s' assume "fat_make_room fuel dir needed (cs @ [new]) (data @ replicate (fat_bytes s) 0) s1 = Some (Err e, s')"
            "fat_inv s'" "same_geo s1 s'"
          then show ?thesis using run b same_geo_trans [OF g] by (auto simp: k_def)
        qed
      qed (use run in auto)
    qed
  qed
qed

section \<open>Inserting a record\<close>

lemma dir_sectors_area:
  assumes "fat_shape s" and "fat_geom s" and "dir_shape s dir cs n"
  shows "dir_sectors s dir cs n \<subseteq> data_area s"
  using dir_lba_facts(2) [OF assms] by (auto simp: dir_sectors_def)

lemma dir_sectors_geo:
  assumes "same_geo s s'"
  shows "dir_sectors s' dir cs n = dir_sectors s dir cs n"
proof -
  have f: "fixed_root s' dir = fixed_root s dir" by (simp add: fixed_root_def same_geo_fields [OF assms])
  have "dir_lba s' dir cs = dir_lba s dir cs"
    by (rule ext) (simp add: dir_lba_def f cl_lba_def same_geo_fields [OF assms] same_geo_defs [OF assms])
  then show ?thesis by (simp add: dir_sectors_def)
qed

text \<open>A part of a directory is written back, or nothing when nothing changed.\<close>

lemma maybe_store_cases:
  assumes inv: "fat_inv s" and nf: "\<not> failed s" and at: "dir_at s dir cs old" and len: "length data = length old"
    and range: "b \<Longrightarrow> off + n \<le> length data"
    and same: "\<And>j. j < length data \<Longrightarrow> \<not> b \<or> j < off \<or> off + n \<le> j \<Longrightarrow> data ! j = old ! j"
  shows "(\<exists>s'. (if b then fat_store_dir dir cs data off n else ret ()) s = Some (Ok (), s') \<and>
        frame s {} (dir_sectors s dir cs (length data)) s' \<and> dir_at s' dir cs data) \<or>
    (\<exists>e s'. (if b then fat_store_dir dir cs data off n else ret ()) s = Some (Err e, s') \<and> fat_inv s' \<and> same_geo s s'
        \<and> \<not> reliable (blk s))"
proof (cases b)
  case True
  have area: "dir_sectors s dir cs (length data) \<subseteq> data_area s"
    using inv at len dir_sectors_area by (simp add: fat_inv_def fat_ok_def dir_at_def)
  have err: "fat_inv s' \<and> same_geo s s' \<and> \<not> reliable (blk s)" if "stored_part s (dir_sectors s dir cs (length data)) s'" for s'
    using that wrote_inv [OF _ area inv] wrote_fields(1) spoiled_inv(1,2) [OF _ inv] unfolding stored_part_def by blast
  have "(\<exists>s'. fat_store_dir dir cs data off n s = Some (Ok (), s') \<and>
        wrote s (dir_sectors s dir cs (length data)) s' \<and> dir_at s' dir cs data) \<or>
    (\<exists>e s'. fat_store_dir dir cs data off n s = Some (Err e, s') \<and> stored_part s (dir_sectors s dir cs (length data)) s')"
    by (rule fat_store_dir_triple [OF inv nf at len range [OF True]]) (use same in blast)
  then show ?thesis using True frame_wrote [OF _ area inv nf] err by (simp only: if_True) blast
next
  case False
  then have "data = old" using len same by (intro nth_equalityI) auto
  then show ?thesis using False at frame_refl [OF inv nf] by simp
qed

lemma valid_name_count:
  assumes "valid_name nm"
  shows "lfn_count uc nm sh \<le> 20"
proof -
  have "length (encode_utf16 nm) \<le> 255" using assms by (simp add: valid_name_def)
  then have "(length (encode_utf16 nm) + 12) div 13 \<le> 20" by linarith
  then show ?thesis by (simp add: lfn_count_def)
qed

lemma length_entry_set:
  assumes "valid_name nm" and "length sh = 11"
  shows "length (entry_set uc nm sh first sz at k) = 32 * (lfn_count uc nm sh + 1)"
proof -
  have "length (lfn_entry (encode_utf16 nm) (lfn_count uc nm sh) (checksum sh) i) = 32" if "i < lfn_count uc nm sh" for i
    using lfn_entry_facts(1) [OF that valid_name_count [OF assms(1)]] by blast
  then have "length (concat (map (lfn_entry (encode_utf16 nm) (lfn_count uc nm sh) (checksum sh)) [0..<lfn_count uc nm sh])) =
      length [0..<lfn_count uc nm sh] * 32"
    by (intro length_concat_uniform) simp
  then show ?thesis using short_entry_facts(1) [OF assms(2) refl] by (simp add: entry_set_def Let_def)
qed

lemma dir_length_dvd:
  assumes "dir_at s dir cs data"
  shows "32 dvd length data"
proof (cases "fixed_root s dir")
  case False
  then have "length data = length cs * (unat (spc s) * SECTOR)" using assms by (simp add: dir_at_def dir_shape_def fat_bytes_def)
  also have "\<dots> = 32 * (length cs * unat (spc s) * 16)" by simp
  finally show ?thesis by (rule dvdI)
qed (use assms in \<open>simp add: dir_at_def dir_shape_def\<close>)

lemma put_at_split:
  assumes "m \<le> length e" and "off + length e \<le> length xs"
  shows "put_at (off + m) (drop m e) (put_at off (take m e) xs) = put_at off e xs"
proof (rule nth_equalityI)
  have l: "length (take m e) = m" "length (drop m e) = length e - m" using assms(1) by simp_all
  show "length (put_at (off + m) (drop m e) (put_at off (take m e) xs)) = length (put_at off e xs)"
    using assms l by simp
  fix i assume i: "i < length (put_at (off + m) (drop m e) (put_at off (take m e) xs))"
  then have i': "i < length xs" using assms l by simp
  show "put_at (off + m) (drop m e) (put_at off (take m e) xs) ! i = put_at off e xs ! i"
    using assms l i' by (auto simp: nth_put_at)
qed

text \<open>What an insertion leaves behind.\<close>

definition inserted ::
  "fat_state \<Rightarrow> unicode \<Rightarrow> Dir \<Rightarrow> rstr \<Rightarrow> u32 \<Rightarrow> u32 \<Rightarrow> u8 \<Rightarrow> u32 list \<Rightarrow> bytes \<Rightarrow> u32 list \<Rightarrow> bytes \<Rightarrow> nat \<Rightarrow> fat_state \<Rightarrow> bool" where
  "inserted s uc dir nm first sz at cs data news sh off s' \<longleftrightarrow>
     dir_at s dir cs data \<and> valid_name nm \<and> (\<forall>r\<in>set (records uc data (kind s)). \<not> matches uc nm r)
   \<and> short_name nm (records uc data (kind s)) = Ok sh \<and> set news \<subseteq> fat_free_set s
   \<and> free_slots (data @ replicate (length news * fat_bytes s) 0) (lfn_count uc nm sh + 1) = Some off
   \<and> dir_at s' dir (cs @ news)
       (dir_placed (data @ replicate (length news * fat_bytes s) 0) off (entry_set uc nm sh first sz at (kind s)))
   \<and> frame s (set cs \<union> set news)
       (\<Union>(cl_sectors s ` set news) \<union> dir_sectors s dir (cs @ news) (length data + length news * fat_bytes s)) s'"

text \<open>The three writes of an insertion: the new end mark, the long-name entries, the short entry.\<close>

definition place_writes :: "Dir \<Rightarrow> u32 list \<Rightarrow> bytes \<Rightarrow> nat \<Rightarrow> bytes \<Rightarrow> unit fat_op" where
  "place_writes dir chain data off entries =
     (let n = length entries; fin = off + n; consumed = (takes_end data off n \<and> fin < length data);
         data = (if consumed then data[fin := 0] else data) in
     andThen (if consumed then fat_store_dir dir chain data fin 32 else ret ()) (\<lambda>_.
     let lfns = put_at off (take (n - 32) entries) data in
     andThen (if 32 < n then fat_store_dir dir chain lfns off (n - 32) else ret ()) (\<lambda>_.
     fat_store_dir dir chain (put_at (off + n - 32) (drop (n - 32) entries) lfns) (off + n - 32) 32)))"

lemma place_writes_cases:
  assumes inv: "fat_inv s" and nf: "\<not> failed s" and at: "dir_at s dir cs data"
    and n: "length entries = 32 * Suc m" and off: "off = 32 * i" and fits: "off + length entries \<le> length data"
  shows "(\<exists>s'. place_writes dir cs data off entries s = Some (Ok (), s') \<and>
        frame s {} (dir_sectors s dir cs (length data)) s' \<and> dir_at s' dir cs (dir_placed data off entries)) \<or>
    (\<exists>e s'. place_writes dir cs data off entries s = Some (Err e, s') \<and> fat_inv s' \<and> same_geo s s'
        \<and> \<not> reliable (blk s))"
proof -
  define n where "n = length entries"
  define fin where "fin = off + n"
  define b where "b \<longleftrightarrow> takes_end data off n \<and> fin < length data"
  define d1 where "d1 = (if b then data[fin := 0] else data)"
  define d2 where "d2 = put_at off (take (n - 32) entries) d1"
  define d3 where "d3 = put_at (off + n - 32) (drop (n - 32) entries) d2"
  define L where "L = dir_sectors s dir cs (length data)"
  have n32: "n = 32 * Suc m" "32 \<le> n" using n by (simp_all add: n_def)
  have l1: "length d1 = length data" by (simp add: d1_def)
  have tk: "length (take (n - 32) entries) = n - 32" "length (drop (n - 32) entries) = 32" using n32 by (simp_all add: n_def)
  have l2: "length d2 = length data" using l1 tk fits n32 by (simp add: d2_def n_def [symmetric])
  have l3: "length d3 = length data" using l2 tk fits n32 by (simp add: d3_def n_def [symmetric])
  have fin32: "fin + 32 \<le> length data" if b
  proof -
    obtain q where q: "length data = 32 * q" using dir_length_dvd [OF at] by blast
    have f: "fin = 32 * (i + Suc m)" using n32 off by (simp add: fin_def)
    have "fin < length data" using that by (simp add: b_def)
    then have "i + Suc m < q" unfolding q f by simp
    then show ?thesis unfolding q f by simp
  qed
  have eq3: "d3 = dir_placed data off entries"
  proof -
    have "off + n - 32 = off + (n - 32)" using n32 by simp
    then have "d3 = put_at off entries d1"
      unfolding d3_def d2_def using put_at_split [of "n - 32" entries off d1] n32 fits l1 by (simp add: n_def)
    then show ?thesis by (simp add: dir_placed_def d1_def b_def fin_def n_def)
  qed
  have run: "place_writes dir cs data off entries = andThen (if b then fat_store_dir dir cs d1 fin 32 else ret ()) (\<lambda>_.
     andThen (if 32 < n then fat_store_dir dir cs d2 off (n - 32) else ret ()) (\<lambda>_.
     if True then fat_store_dir dir cs d3 (off + n - 32) 32 else ret ()))"
    unfolding place_writes_def Let_def d3_def d2_def d1_def b_def fin_def n_def by simp
  have "(\<exists>s'. (if b then fat_store_dir dir cs d1 fin 32 else ret ()) s = Some (Ok (), s') \<and>
        frame s {} (dir_sectors s dir cs (length d1)) s' \<and> dir_at s' dir cs d1) \<or>
    (\<exists>e s'. (if b then fat_store_dir dir cs d1 fin 32 else ret ()) s = Some (Err e, s') \<and> fat_inv s' \<and> same_geo s s'
        \<and> \<not> reliable (blk s))"
    by (rule maybe_store_cases [OF inv nf at l1]) (use fin32 l1 in \<open>auto simp: d1_def nth_list_update\<close>)
  then show ?thesis
  proof (elim disjE exE conjE)
    fix s1 assume r1: "(if b then fat_store_dir dir cs d1 fin 32 else ret ()) s = Some (Ok (), s1)"
      and f1: "frame s {} (dir_sectors s dir cs (length d1)) s1" and at1: "dir_at s1 dir cs d1"
    have inv1: "fat_inv s1" "\<not> failed s1" and g1: "same_geo s s1" and rl1: "reliable (blk s) \<longrightarrow> reliable (blk s1)"
      using f1 by (simp_all add: frame_def)
    have "(\<exists>s'. (if 32 < n then fat_store_dir dir cs d2 off (n - 32) else ret ()) s1 = Some (Ok (), s') \<and>
          frame s1 {} (dir_sectors s1 dir cs (length d2)) s' \<and> dir_at s' dir cs d2) \<or>
      (\<exists>e s'. (if 32 < n then fat_store_dir dir cs d2 off (n - 32) else ret ()) s1 = Some (Err e, s') \<and> fat_inv s' \<and> same_geo s1 s'
        \<and> \<not> reliable (blk s1))"
      by (rule maybe_store_cases [OF inv1 at1]) (use l1 l2 tk fits n32 in \<open>auto simp: d2_def n_def [symmetric] nth_put_at\<close>)
    then show ?thesis
    proof (elim disjE exE conjE)
      fix s2 assume r2: "(if 32 < n then fat_store_dir dir cs d2 off (n - 32) else ret ()) s1 = Some (Ok (), s2)"
        and f2: "frame s1 {} (dir_sectors s1 dir cs (length d2)) s2" and at2: "dir_at s2 dir cs d2"
      have inv2: "fat_inv s2" "\<not> failed s2" and g2: "same_geo s1 s2" and rl2: "reliable (blk s1) \<longrightarrow> reliable (blk s2)"
        using f2 by (simp_all add: frame_def)
      have "(\<exists>s'. (if True then fat_store_dir dir cs d3 (off + n - 32) 32 else ret ()) s2 = Some (Ok (), s') \<and>
            frame s2 {} (dir_sectors s2 dir cs (length d3)) s' \<and> dir_at s' dir cs d3) \<or>
        (\<exists>e s'. (if True then fat_store_dir dir cs d3 (off + n - 32) 32 else ret ()) s2 = Some (Err e, s') \<and> fat_inv s' \<and> same_geo s2 s'
        \<and> \<not> reliable (blk s2))"
        by (rule maybe_store_cases [OF inv2 at2]) (use l2 l3 tk fits n32 in \<open>auto simp: d3_def n_def [symmetric] nth_put_at\<close>)
      then show ?thesis
      proof (elim disjE exE conjE)
        fix s3 assume r3: "(if True then fat_store_dir dir cs d3 (off + n - 32) 32 else ret ()) s2 = Some (Ok (), s3)"
          and f3: "frame s2 {} (dir_sectors s2 dir cs (length d3)) s3" and at3: "dir_at s3 dir cs d3"
        have "frame s {} L s2"
          by (rule frame_trans [OF f1 f2]) (simp_all add: L_def l1 l2 dir_sectors_geo [OF g1])
        then have "frame s {} L s3"
          by (rule frame_trans [OF _ f3]) (simp_all add: L_def l3 dir_sectors_geo [OF same_geo_trans [OF g1 g2]])
        then show ?thesis using run r1 r2 r3 at3 eq3 by (simp add: L_def)
      qed (use run r1 r2 rl1 rl2 same_geo_trans [OF same_geo_trans [OF g1 g2]] in auto)
    qed (use run r1 rl1 same_geo_trans [OF g1] in auto)
  qed (use run in auto)
qed

lemma free_slots_fit:
  assumes "free_slots data needed = Some off" and "0 < needed"
  obtains i where "off = 32 * i" "off + 32 * needed \<le> length data" "free_run (chunks32 data) i needed"
    "\<And>i'. i' < i \<Longrightarrow> \<not> free_run (chunks32 data) i' needed"
proof -
  obtain i where i: "off = i * 32" "free_run (chunks32 data) i needed" "\<And>i'. i' < i \<Longrightarrow> \<not> free_run (chunks32 data) i' needed"
    using free_slots_correct [OF assms(2), of data] assms(1) by auto
  have "i + needed \<le> length data div 32" using i(2) by (simp add: free_run_def)
  then have "off + 32 * needed \<le> length data" using i(1) by linarith
  with i show ?thesis by (intro that [of i]) (auto simp: mult.commute)
qed

lemma fat_insert_unfold:
  "fat_insert uc dir nm first sz at =
     andThen (gets_res (\<lambda>v. Some (validate_name nm))) (\<lambda>_.
     andThen (fat_load_dir dir) (\<lambda>(chain, data).
     andThen (gets kind) (\<lambda>k.
     if \<exists>r\<in>set (records uc data k). matches uc nm r then fail ''already exists''
     else andThen (gets_res (\<lambda>v. Some (short_name nm (records uc data k)))) (\<lambda>sh.
     andThen (gets_opt (\<lambda>v. if fixed_root v dir then Some 1
                             else if fat_bytes v = 0 then None else Some (MAX_METADATA div fat_bytes v + 1))) (\<lambda>fuel.
     andThen (fat_make_room fuel dir (length (entry_set uc nm sh first sz at k) div 32) chain data) (\<lambda>(off, chain, data).
     place_writes dir chain data off (entry_set uc nm sh first sz at k)))))))"
  unfolding fat_insert_def place_writes_def Let_def ..

lemma insert_cases:
  assumes inv: "fat_inv s" and nf: "\<not> failed s"
  shows "(\<exists>cs data news sh off s'. fat_insert uc dir nm first sz at s = Some (Ok (), s') \<and>
        inserted s uc dir nm first sz at cs data news sh off s') \<or>
    (\<exists>e s'. fat_insert uc dir nm first sz at s = Some (Err e, s') \<and> fat_inv s' \<and> same_geo s s')"
proof (cases "valid_name nm")
  case False
  then show ?thesis using inv by (simp add: fat_insert_unfold validate_name_def)
next
  case vn: True
  define rest where "rest = (\<lambda>(chain, data).
     andThen (gets kind) (\<lambda>k.
     if \<exists>r\<in>set (records uc data k). matches uc nm r then fail ''already exists''
     else andThen (gets_res (\<lambda>v. Some (short_name nm (records uc data k)))) (\<lambda>sh.
     andThen (gets_opt (\<lambda>v. if fixed_root v dir then Some 1
                             else if fat_bytes v = 0 then None else Some (MAX_METADATA div fat_bytes v + 1))) (\<lambda>fuel.
     andThen (fat_make_room fuel dir (length (entry_set uc nm sh first sz at k) div 32) chain data) (\<lambda>(off, chain, data).
     place_writes dir chain data off (entry_set uc nm sh first sz at k))))))"
  have run0: "fat_insert uc dir nm first sz at s = andThen (fat_load_dir dir) rest s"
    using vn by (simp add: fat_insert_unfold validate_name_def rest_def)
  from load_dir_Ok [OF inv] only_read_refl show ?thesis
  proof (cases rule: tripleE [where m = "fat_load_dir dir"])
    case (Err e s1)
    then show ?thesis using run0 only_read_inv [OF _ inv] only_read_data(6) by auto
  next
    case (Ok a s1)
    obtain cs data where a: "a = (cs, data)" by force
    have ro: "only_read s s1" and at: "dir_at s dir cs data" using Ok(2) a by auto
    have ok: "disk_ok (blk s)" "fat_shape s" using inv by (simp_all add: fat_inv_def fat_ok_def)
    have f1: "frame s {} {} s1" by (rule frame_only_read [OF ro inv nf])
    have inv1: "fat_inv s1" "\<not> failed s1" and g1: "same_geo s s1" using f1 by (simp_all add: frame_def)
    have at1: "dir_at s1 dir cs data" using at only_read_tab(8) [OF ro ok(1)] by simp
    have k1: "kind s1 = kind s" by (rule only_read_data(3) [OF ro])
    define rs where "rs = records uc data (kind s)"
    have run1: "fat_insert uc dir nm first sz at s = rest (cs, data) s1" using run0 Ok(1) a by simp
    show ?thesis
    proof (cases "(\<exists>r\<in>set rs. matches uc nm r) \<or> (\<exists>e. short_name nm rs = Err e)")
      case True
      then have "\<exists>e. fat_insert uc dir nm first sz at s = Some (Err e, s1)"
        unfolding run1 rest_def by (auto simp: k1 rs_def)
      then show ?thesis using inv1 g1 by blast
    next
      case False
      then have nomatch: "\<forall>r\<in>set rs. \<not> matches uc nm r" by blast
      obtain sh where sh: "short_name nm rs = Ok sh" using False by (cases "short_name nm rs") auto
      have len: "length sh = 11" using short_name_correct [OF sh] by (simp add: short_wf_def)
      define entries where "entries = entry_set uc nm sh first sz at (kind s)"
      have n: "length entries = 32 * Suc (lfn_count uc nm sh)" using length_entry_set [OF vn len] by (simp add: entries_def)
      define fuel where "fuel = (if fixed_root s dir then 1 else MAX_METADATA div fat_bytes s + 1)"
      have f: "fixed_root s1 dir = fixed_root s dir" "fat_bytes s1 = fat_bytes s" using only_read_tab [OF ro ok(1)] by simp_all
      have run2: "fat_insert uc dir nm first sz at s =
          andThen (fat_make_room fuel dir (lfn_count uc nm sh + 1) cs data) (\<lambda>(off, chain, data).
            place_writes dir chain data off entries) s1"
        unfolding run1 rest_def using nomatch sh fat_bytes_pos [OF ok(2)] n
        by (simp add: k1 rs_def [symmetric] entries_def [symmetric] f fuel_def)
      have "if fixed_root s1 dir then 0 < fuel else MAX_METADATA div fat_bytes s1 < fuel + length cs"
        by (simp add: fuel_def f)
      from make_room_cases [OF inv1 at1 this, of "lfn_count uc nm sh + 1"] show ?thesis
      proof (elim disjE exE conjE)
        fix off s2 and news :: "u32 list"
        define data2 where "data2 = data @ replicate (length news * fat_bytes s) 0"
        assume r2: "fat_make_room fuel dir (lfn_count uc nm sh + 1) cs data s1 =
            Some (Ok (off, cs @ news, data @ replicate (length news * fat_bytes s1) 0), s2)"
          and fs: "free_slots (data @ replicate (length news * fat_bytes s1) 0) (lfn_count uc nm sh + 1) = Some off"
          and gr: "dir_grown s1 dir cs data news s2"
        have fs': "free_slots data2 (lfn_count uc nm sh + 1) = Some off" using fs f by (simp add: data2_def)
        from fs' obtain i where i: "off = 32 * i" "off + 32 * (lfn_count uc nm sh + 1) \<le> length data2"
          by (rule free_slots_fit) simp
        have inv2: "fat_inv s2" "\<not> failed s2" and g12: "same_geo s1 s2" using gr by (auto simp: dir_grown_def frame_def)
        have g2: "same_geo s s2" by (rule same_geo_trans [OF g1 g12])
        have at2: "dir_at s2 dir (cs @ news) data2" using gr f by (simp add: dir_grown_def data2_def)
        have fit: "off + length entries \<le> length data2" using i(2) n by simp
        from place_writes_cases [OF inv2 at2 n i(1) fit] show ?thesis
        proof (elim disjE exE conjE)
          fix s3 assume r3: "place_writes dir (cs @ news) data2 off entries s2 = Some (Ok (), s3)"
            and f3: "frame s2 {} (dir_sectors s2 dir (cs @ news) (length data2)) s3"
            and at3: "dir_at s3 dir (cs @ news) (dir_placed data2 off entries)"
          have f2: "frame s1 (set cs \<union> set news) (\<Union>(cl_sectors s ` set news)) s2" and free: "set news \<subseteq> fat_free_set s1"
            using gr same_geo_cl_sectors(1) [OF g1] by (simp_all add: dir_grown_def)
          have f13: "frame s1 (set cs \<union> set news) (\<Union>(cl_sectors s ` set news) \<union> dir_sectors s dir (cs @ news) (length data2)) s3"
            by (rule frame_trans [OF f2 f3]) (auto simp: dir_sectors_geo [OF g2])
          have "frame s (set cs \<union> set news) (\<Union>(cl_sectors s ` set news) \<union> dir_sectors s dir (cs @ news) (length data2)) s3"
            by (rule frame_trans [OF f1 f13]) simp_all
          moreover have "fat_free_set s1 = fat_free_set s" using wrote_fields(11) [OF only_read_wrote [OF ro ok(1)]] .
          ultimately have "inserted s uc dir nm first sz at cs data news sh off s3"
            unfolding inserted_def using at vn nomatch sh free fs' at3
            by (simp add: rs_def data2_def entries_def)
          moreover have "fat_insert uc dir nm first sz at s = Some (Ok (), s3)"
            unfolding run2 using r2 r3 f by (simp add: data2_def)
          ultimately show ?thesis by blast
        next
          fix e s3 assume "place_writes dir (cs @ news) data2 off entries s2 = Some (Err e, s3)" "fat_inv s3" "same_geo s2 s3"
          then show ?thesis
            unfolding run2 using r2 f same_geo_trans [OF g2] by (auto simp: data2_def)
        qed
      next
        fix e s2 assume "fat_make_room fuel dir (lfn_count uc nm sh + 1) cs data s1 = Some (Err e, s2)" "fat_inv s2" "same_geo s1 s2"
        then show ?thesis unfolding run2 using same_geo_trans [OF g1] by auto
      qed
    qed
  qed
qed

end
