(* ===== verification/Fat_Create.thy ===== *)
theory Fat_Create
  imports Fat_Ops
begin

text \<open>
  The operations on paths of a FAT volume: which directory and record a path leads to, and that
  creating, replacing, growing and removing files keep the invariant of the volume whatever the
  device does, and have their effect when they report success.
\<close>

section \<open>Walking a path\<close>

lemma dir_at_unique:
  assumes "fat_shape s" and "dir_at s dir cs data" and "dir_at s dir cs' data'"
  shows "cs' = cs \<and> data' = data"
proof -
  have cs: "cs' = cs"
  proof (cases "fixed_root s dir")
    case False
    then have "is_chain s cs" "is_chain s cs'" "hd cs = hd cs'" using assms(2,3) by (simp_all add: dir_at_def dir_shape_def)
    then show ?thesis using links_unique [OF assms(1)] by blast
  qed (use assms(2,3) in \<open>simp add: dir_at_def dir_shape_def\<close>)
  have "length data' = length data"
    using assms(2,3) unfolding cs by (simp add: dir_at_def dir_shape_def split: if_splits)
  then have "data' = data" using assms(2,3) unfolding cs by (intro nth_equalityI) (simp_all add: dir_at_def)
  with cs show ?thesis by simp
qed

lemma find_triple:
  assumes "fat_inv s"
  shows "triple (only_read s) (fat_find uc dir nm)
    (\<lambda>f s'. only_read s s' \<and> \<not> failed s \<and> (\<exists>cs data. dir_at s dir cs data \<and> f = find (matches uc nm) (records uc data (kind s))))
    (\<lambda>_. only_read s)"
  unfolding fat_find_def
proof (rule triple_andThen [OF load_dir_Ok [OF assms]])
  fix a :: "u32 list \<times> bytes"
  obtain cs data where a: "a = (cs, data)" by force
  show "triple ((case a of (cs, data) \<Rightarrow> \<lambda>s'. only_read s s' \<and> \<not> failed s \<and> dir_at s dir cs data))
      (case a of (_, data) \<Rightarrow> andThen (gets kind) (\<lambda>k. ret (find (matches uc nm) (records uc data k))))
      (\<lambda>f s'. only_read s s' \<and> \<not> failed s \<and> (\<exists>cs data. dir_at s dir cs data \<and> f = find (matches uc nm) (records uc data (kind s))))
      (\<lambda>_. only_read s)"
  proof (rule tripleI)
    fix s1 assume "(case a of (cs, data) \<Rightarrow> \<lambda>s'. only_read s s' \<and> \<not> failed s \<and> dir_at s dir cs data) s1"
    then have s1: "only_read s s1" "\<not> failed s" "dir_at s dir cs data" by (simp_all add: a)
    then show "(\<exists>f s'. (case a of (_, data) \<Rightarrow> andThen (gets kind) (\<lambda>k. ret (find (matches uc nm) (records uc data k)))) s1 = Some (Ok f, s')
          \<and> only_read s s' \<and> \<not> failed s \<and> (\<exists>cs data. dir_at s dir cs data \<and> f = find (matches uc nm) (records uc data (kind s))))
        \<or> (\<exists>e s'. (case a of (_, data) \<Rightarrow> andThen (gets kind) (\<lambda>k. ret (find (matches uc nm) (records uc data k)))) s1 = Some (Err e, s')
          \<and> only_read s s')"
      using only_read_data(3) [OF s1(1)] by (auto simp: a)
  qed
qed

lemma find_reads:
  assumes "fat_inv s" and "\<not> failed s" and "dir_at s dir cs data"
  shows "reads s (fat_find uc dir nm) (find (matches uc nm) (records uc data (kind s)))"
  unfolding fat_find_def
proof (rule reads_andThen [OF load_dir_reads [OF assms]])
  have "reads s (gets kind) (kind s)" by (rule reads_gets) (rule only_read_data(3))
  then show "reads s (case (cs, data) of (_, data) \<Rightarrow> andThen (gets kind) (\<lambda>k. ret (find (matches uc nm) (records uc data k))))
      (find (matches uc nm) (records uc data (kind s)))"
    by (auto intro: reads_andThen reads_ret)
qed

lemma descend_triple:
  assumes "fat_inv s"
  shows "triple (only_read s) (fat_descend uc dir parts) (\<lambda>_. only_read s) (\<lambda>_. only_read s)"
proof (induction parts arbitrary: dir)
  case (Cons part parts)
  show ?case unfolding fat_descend.simps
  proof (rule triple_andThen)
    show "triple (only_read s) (fat_find uc dir part) (\<lambda>_. only_read s) (\<lambda>_. only_read s)"
      by (rule triple_weaken [OF find_triple [OF assms]]) auto
    show "triple (only_read s) (case f of None \<Rightarrow> fail ''no such directory''
        | Some r \<Rightarrow> if \<not> is_dir r then fail ''not a directory'' else fat_descend uc (sub_dir r) parts)
        (\<lambda>_. only_read s) (\<lambda>_. only_read s)" for f
      by (cases f) (auto intro!: triple_fail Cons)
  qed
qed (auto intro: triple_ret)

lemma parent_triple:
  assumes "fat_inv s"
  shows "triple (only_read s) (fat_parent uc path)
    (\<lambda>(dir, nm) s'. only_read s s' \<and> components path \<noteq> [] \<and> nm = last (components path)) (\<lambda>_. only_read s)"
proof (cases "components path = []")
  case True
  then show ?thesis by (auto simp: fat_parent_def intro: triple_fail)
next
  case False
  then have e: "fat_parent uc path = andThen (gets fat_root) (\<lambda>dir.
      andThen (fat_descend uc dir (butlast (components path))) (\<lambda>dir. ret (dir, last (components path))))"
    by (simp add: fat_parent_def Let_def)
  show ?thesis unfolding e
    by (rule triple_andThen [OF triple_gets], assumption, rule triple_andThen [OF descend_triple [OF assms]])
      (use False in \<open>auto intro!: triple_ret\<close>)
qed

text \<open>The directory and the record a path leads to.\<close>

definition found_in :: "unicode \<Rightarrow> fat_state \<Rightarrow> Dir \<Rightarrow> Record \<Rightarrow> bool" where
  "found_in uc s dir r \<longleftrightarrow> \<not> failed s \<and> (\<exists>cs data. dir_at s dir cs data \<and> r \<in> set (records uc data (kind s)))"

lemma walk_triple:
  assumes "fat_inv s"
  shows "triple (only_read s) (fat_walk uc dir parts) (\<lambda>(d, r) s'. only_read s s' \<and> found_in uc s d r) (\<lambda>_. only_read s)"
proof (induction parts arbitrary: dir)
  case (Cons part parts)
  show ?case unfolding fat_walk.simps
  proof (rule triple_andThen [OF find_triple [OF assms]])
    fix f :: "Record option"
    show "triple (\<lambda>s'. only_read s s' \<and> \<not> failed s \<and> (\<exists>cs data. dir_at s dir cs data \<and> f = find (matches uc part) (records uc data (kind s))))
        (case f of None \<Rightarrow> fail ''file not found''
         | Some r \<Rightarrow> if parts = [] then ret (dir, r) else if \<not> is_dir r then fail ''not a directory'' else fat_walk uc (sub_dir r) parts)
        (\<lambda>(d, r) s'. only_read s s' \<and> found_in uc s d r) (\<lambda>_. only_read s)"
    proof (cases f)
      case (Some r)
      have "found_in uc s dir r"
        if "\<not> failed s" "dir_at s dir cs data" "f = find (matches uc part) (records uc data (kind s))" for cs data
        using that find_SomeD [of "matches uc part" "records uc data (kind s)" r] Some unfolding found_in_def by auto
      then show ?thesis unfolding Some
        by (auto intro!: triple_ret triple_fail triple_weaken [OF Cons])
    qed (auto intro: triple_fail)
  qed
qed (auto intro: triple_fail)

lemma lookup_triple:
  assumes "fat_inv s"
  shows "triple (only_read s) (fat_lookup uc path) (\<lambda>(d, r) s'. only_read s s' \<and> found_in uc s d r) (\<lambda>_. only_read s)"
  unfolding fat_lookup_def by (rule triple_andThen [OF triple_gets], assumption, rule walk_triple [OF assms])

section \<open>Directories without orphans\<close>

text \<open>
  No complete run of long-name entries is followed by a free slot: a new short entry put there would
  take over its name.
\<close>

definition tidy_dir :: "bytes \<Rightarrow> bool" where
  "tidy_dir data \<longleftrightarrow> (\<forall>i\<in>set [0..<Suc (length data div 32)].
     (i < length data div 32 \<longrightarrow> slot_free (chunks32 data) i) \<longrightarrow>
     ltotal (parser_at data i) = 0 \<or> 0 < remaining (parser_at data i))"

lemma lfn_run_snoc:
  "lfn_run index (es @ [e]) st =
     (if e ! 0 \<noteq> 0xe5 \<and> e ! 11 = 0x0f then lfn_step (index + length es) e (lfn_run index es st)
      else lfn_clear (lfn_run index es st))"
proof (induction es arbitrary: index st)
  case (Cons x es)
  show ?case unfolding append_Cons lfn_run.simps Cons by simp
qed simp

lemma records_loop_zeros: "records_loop uc k i (es @ replicate m (replicate 32 0)) st = records_loop uc k i es st"
proof (induction es arbitrary: i st)
  case Nil
  show ?case by (cases m) simp_all
next
  case (Cons e es)
  show ?case unfolding append_Cons records_loop.simps Cons ..
qed

lemma records_zeros: "32 dvd length data \<Longrightarrow> records uc (data @ replicate (32 * m) 0) k = records uc data k"
  by (simp add: records_def chunks32_zeros records_loop_zeros)

lemma tidy_dir_clean:
  assumes tidy: "tidy_dir data" and dvd: "32 dvd length data"
    and free: "slot_free (chunks32 (data @ replicate (32 * m) 0)) i" and i: "i < length data div 32 + m"
  shows "long_name (parser_at (data @ replicate (32 * m) 0) i) sh = None"
proof -
  define cs where "cs = chunks32 data"
  have len: "length cs = length data div 32" by (simp add: cs_def)
  have eq: "chunks32 (data @ replicate (32 * m) 0) = cs @ replicate m (replicate 32 0)"
    using chunks32_zeros [OF dvd] by (simp add: cs_def)
  show ?thesis
  proof (cases "i \<le> length cs")
    case True
    then have p: "parser_at (data @ replicate (32 * m) 0) i = parser_at data i"
      unfolding parser_at_def eq by (simp add: cs_def [symmetric])
    have "slot_free cs i" if "i < length cs"
      using free that unfolding eq slot_free_def by (auto simp: nth_append)
    then have "ltotal (parser_at data i) = 0 \<or> 0 < remaining (parser_at data i)"
      using tidy True unfolding tidy_dir_def len [symmetric] cs_def [symmetric] by (auto simp: less_Suc_eq_le simp del: upt_Suc)
    then show ?thesis unfolding p by (auto simp: long_name_def)
  next
    case False
    then obtain j where j: "i = length cs + Suc j" by (metis add_Suc_right less_iff_Suc_add not_le)
    have "min (Suc j) m = Suc j" using i j len by simp
    then have "take i (cs @ replicate m (replicate 32 0)) = (cs @ replicate j (replicate 32 (0 :: u8))) @ [replicate 32 0]"
      unfolding j by (simp add: take_append take_all replicate_append_same [symmetric])
    then have "parser_at (data @ replicate (32 * m) 0) i = lfn_clear (lfn_run 0 (cs @ replicate j (replicate 32 0)) lfn_init)"
      unfolding parser_at_def eq by (simp only: lfn_run_snoc) simp
    then show ?thesis by (simp add: long_name_def lfn_clear_def)
  qed
qed

section \<open>Creating a file\<close>

text \<open>Every chain that shares no cluster with \<open>cs\<close> is still a chain with the same contents.\<close>

definition untouched :: "fat_state \<Rightarrow> u32 list \<Rightarrow> fat_state \<Rightarrow> bool" where
  "untouched s cs s' \<longleftrightarrow> (\<forall>ds. is_chain s ds \<and> set ds \<inter> set cs = {} \<longrightarrow> is_chain s' ds \<and> chain_data s' ds = chain_data s ds)"

lemma chain_data_frame:
  assumes "frame s C L s'" and "fat_inv s" and "\<forall>c\<in>set ds. fat_valid s c \<and> cl_sectors s c \<inter> L = {}"
  shows "chain_data s' ds = chain_data s ds"
  unfolding chain_data_def using frame_cluster [OF assms(1,2)] assms(3) by (intro arg_cong [where f = concat] map_cong) simp_all

lemma first_fits_valid:
  assumes "fat_shape s" and "c = 0 \<or> fat_valid s c"
  shows "first_fits (kind s) c"
  using assms(2)
proof
  assume "fat_valid s c"
  then have "unat c < unat (clusters s) + 2" using fat_valid_iff [OF assms(1)] by blast
  moreover have "unat (clusters s) \<le> fat_limit (kind s)" using assms(1) by (simp add: fat_shape_def)
  ultimately show ?thesis by (cases "kind s") (simp_all add: first_fits_def fat_limit_def)
qed (simp add: first_fits_def)

lemma fat_bytes_32: "fat_bytes s = 32 * (unat (spc s) * 16)"
  by (simp add: fat_bytes_def)

text \<open>The records of the directory after an insertion.\<close>

lemma inserted_records:
  assumes ins: "inserted s uc dir nm first sz at cs data news sh off s'"
    and tidy: "tidy_dir data" and nm: "name_ok nm" and fits: "first_fits (kind s) first"
    and at: "at \<noteq> 0x0f" "at AND 8 = 0"
  obtains data' R1 R2 i where "dir_at s' dir (cs @ news) data'" "records uc data (kind s) = R1 @ R2"
    "records uc data' (kind s) = R1 @ new_record uc nm sh first sz at i # R2"
proof -
  have dat: "dir_at s dir cs data" and sh: "short_name nm (records uc data (kind s)) = Ok sh"
    and fs: "free_slots (data @ replicate (length news * fat_bytes s) 0) (lfn_count uc nm sh + 1) = Some off"
    and at': "dir_at s' dir (cs @ news)
       (dir_placed (data @ replicate (length news * fat_bytes s) 0) off (entry_set uc nm sh first sz at (kind s)))"
    using ins by (simp_all add: inserted_def)
  define m where "m = length news * (unat (spc s) * 16)"
  have m: "length news * fat_bytes s = 32 * m" by (simp add: m_def fat_bytes_32)
  define data2 where "data2 = data @ replicate (32 * m) 0"
  note dvd = dir_length_dvd [OF dat]
  have dvd2: "32 dvd length data2" using dvd by (simp add: data2_def)
  from fs obtain i where i: "off = 32 * i" "free_run (chunks32 data2) i (lfn_count uc nm sh + 1)"
    "\<And>i'. i' < i \<Longrightarrow> \<not> free_run (chunks32 data2) i' (lfn_count uc nm sh + 1)"
    unfolding m data2_def [symmetric] by (rule free_slots_fit) simp_all
  have ilt: "i + (lfn_count uc nm sh + 1) \<le> length data2 div 32" using i(2) by (simp add: free_run_def)
  then have "i < length data div 32 + m" using dvd by (auto simp: data2_def)
  moreover have "slot_free (chunks32 data2) i" using i(2) unfolding free_run_def by (metis add.right_neutral add_gr_0 zero_less_one)
  ultimately have clean: "long_name (parser_at data2 i) sh = None"
    unfolding data2_def by (intro tidy_dir_clean [OF tidy dvd])
  have wf: "short_wf sh" using short_name_correct [OF sh] by blast
  obtain R1 R2 where R: "records uc data2 (kind s) = R1 @ R2"
    "records uc (dir_placed data2 (32 * i) (entry_set uc nm sh first sz at (kind s))) (kind s) =
      R1 @ new_record uc nm sh first sz at i # R2"
    using insert_records [OF nm wf fits at dvd2 i(2,3) clean, of sz] by blast
  have "records uc data (kind s) = R1 @ R2" using R(1) records_zeros [OF dvd, of uc m] by (simp add: data2_def)
  with R(2) at' show ?thesis unfolding m data2_def [symmetric] i(1) by (intro that)
qed

definition created :: "unicode \<Rightarrow> fat_state \<Rightarrow> Dir \<Rightarrow> rstr \<Rightarrow> bytes \<Rightarrow> fat_state \<Rightarrow> bool" where
  "created uc s dir nm data s' \<longleftrightarrow> (\<exists>cs dd cs' dd' R1 R2 r.
     dir_at s dir cs dd \<and> records uc dd (kind s) = R1 @ R2 \<and> (\<forall>r0\<in>set (R1 @ R2). \<not> matches uc nm r0)
   \<and> dir_at s' dir cs' dd' \<and> records uc dd' (kind s) = R1 @ r # R2
   \<and> name r = nm \<and> attr r = 0x20 \<and> unat (size_of r) = length data \<and> file_at s' r data \<and> untouched s cs s')"

lemma stored_then_inserted:
  assumes inv: "fat_inv s" and nf: "\<not> failed s" and st: "data_stored s data first cls s1"
    and ins: "inserted s1 uc dir nm first sz at cs dd news sh off s2" and at: "dir_at s dir cs dd"
  shows "frame s (set cls \<union> (set cs \<union> set news))
      (\<Union>(cl_sectors s ` (set cls \<union> set news)) \<union> dir_sectors s dir (cs @ news) (length dd + length news * fat_bytes s)) s2"
    and "fat_free_set s1 \<subseteq> fat_free_set s" and "set cls \<inter> set (cs @ news) = {}"
    and "chain_data s2 cls = chain_data s1 cls" and "cls \<noteq> [] \<Longrightarrow> is_chain s2 cls"
    and "untouched s cs s2"
proof -
  have f1: "frame s (set cls) (\<Union>(cl_sectors s ` set cls)) s1" and free1: "set cls \<subseteq> fat_free_set s"
    and ch1: "cls \<noteq> [] \<longrightarrow> is_chain s1 cls" using st by (simp_all add: data_stored_def)
  have sg: "fat_shape s" "fat_geom s" using inv by (simp_all add: fat_inv_def fat_ok_def)
  have inv1: "fat_inv s1" "\<not> failed s1" and g1: "same_geo s s1" using f1 by (simp_all add: frame_def)
  have sg1: "fat_shape s1" "fat_geom s1" using inv1 by (simp_all add: fat_inv_def fat_ok_def)
  have f2: "frame s1 (set cs \<union> set news)
      (\<Union>(cl_sectors s ` set news) \<union> dir_sectors s dir (cs @ news) (length dd + length news * fat_bytes s)) s2"
    and newfree: "set news \<subseteq> fat_free_set s1" and at1: "dir_at s1 dir cs dd"
    and at2: "dir_at s2 dir (cs @ news) (dir_placed (dd @ replicate (length news * fat_bytes s) 0) off (entry_set uc nm sh first sz at (kind s1)))"
    using ins same_geo_cl_sectors(1) [OF g1] dir_sectors_geo [OF g1] same_geo_defs(4) [OF g1] by (simp_all add: inserted_def)
  show fr: "frame s (set cls \<union> (set cs \<union> set news))
      (\<Union>(cl_sectors s ` (set cls \<union> set news)) \<union> dir_sectors s dir (cs @ news) (length dd + length news * fat_bytes s)) s2"
    by (rule frame_trans [OF f1 f2]) auto
  have nz: "ent s1 c \<noteq> 0" if "c \<in> set cls" for c
    using is_chain_nonzero [OF sg1(1) _ that] ch1 that by auto
  show free: "fat_free_set s1 \<subseteq> fat_free_set s" by (rule frame_free_set [OF f1]) (rule nz)
  have csch: "cs = [] \<or> is_chain s cs" using at by (auto simp: dir_at_def dir_shape_def split: if_splits)
  have "set cls \<inter> set cs = {}" using csch chain_not_free [OF sg(1) _ free1] by auto
  moreover have "set cls \<inter> set news = {}" using nz newfree by (auto simp: fat_free_set_def)
  ultimately show disj: "set cls \<inter> set (cs @ news) = {}" by auto
  show "is_chain s2 cls" if "cls \<noteq> []"
    by (rule frame_chain [OF f2]) (use ch1 that disj in auto)
  have vnews: "\<forall>c\<in>set news. fat_valid s c" using newfree same_geo_defs(3) [OF g1] by (auto simp: fat_free_set_def)
  define n where "n = length dd + length news * fat_bytes s"
  have g2: "same_geo s s2" and inv2: "fat_inv s2" using fr by (simp_all add: frame_def)
  have sg2: "fat_shape s2" "fat_geom s2" using inv2 by (simp_all add: fat_inv_def fat_ok_def)
  have f: "fixed_root s2 dir = fixed_root s dir" by (simp add: fixed_root_def same_geo_fields [OF g2])
  have shape: "dir_shape s2 dir (cs @ news) n"
    using at2 at unfolding dir_at_def dir_shape_def f n_def
    by (auto simp: same_geo_fields [OF g2] same_geo_defs [OF g2] algebra_simps)
  have away: "cl_sectors s c \<inter> (\<Union>(cl_sectors s ` set news) \<union> dir_sectors s dir (cs @ news) n) = {}"
    if c: "fat_valid s c" "c \<notin> set (cs @ news)" for c
  proof -
    have "fat_valid s2 c" using c(1) same_geo_defs(3) [OF g2] by simp
    then have "cl_sectors s c \<inter> dir_sectors s dir (cs @ news) n = {}"
      using dir_lba_facts(3) [OF sg2 shape _ _ c(2)] same_geo_cl_sectors(1) [OF g2] dir_sectors_geo [OF g2, symmetric]
      by (auto simp: dir_sectors_def)
    moreover have "cl_sectors s c \<inter> \<Union>(cl_sectors s ` set news) = {}"
      by (rule cl_sectors_inter [OF sg c(1) vnews]) (use c(2) in simp)
    ultimately show ?thesis by blast
  qed
  have vcls: "\<forall>c\<in>set cls. fat_valid s c" using free1 by (auto simp: fat_free_set_def)
  show "chain_data s2 cls = chain_data s1 cls"
  proof (rule chain_data_frame [OF f2 [folded n_def] inv1(1)])
    show "\<forall>c\<in>set cls. fat_valid s1 c \<and>
        cl_sectors s1 c \<inter> (\<Union>(cl_sectors s ` set news) \<union> dir_sectors s dir (cs @ news) n) = {}"
      using away vcls disj same_geo_defs(3) [OF g1] same_geo_cl_sectors(1) [OF g1] by auto
  qed
  show "untouched s cs s2" unfolding untouched_def
  proof (intro allI impI)
    fix ds assume ds: "is_chain s ds \<and> set ds \<inter> set cs = {}"
    have v: "\<forall>c\<in>set ds. fat_valid s c" using ds by (simp add: is_chain_def)
    have n1: "set ds \<inter> set cls = {}" using chain_not_free [OF sg(1) _ free1] ds by blast
    have n2: "set ds \<inter> set news = {}" using chain_not_free [OF sg(1), of ds news] ds newfree free by blast
    have "is_chain s2 ds" by (rule frame_chain [OF fr]) (use ds n1 n2 in auto)
    moreover have "chain_data s2 ds = chain_data s ds"
    proof (rule chain_data_frame [OF fr [folded n_def] inv], intro ballI conjI)
      fix c assume c: "c \<in> set ds"
      then show vc: "fat_valid s c" using v by blast
      have "c \<notin> set (cs @ news)" "c \<notin> set cls" using c ds n1 n2 by auto
      then show "cl_sectors s c \<inter> (\<Union>(cl_sectors s ` (set cls \<union> set news)) \<union> dir_sectors s dir (cs @ news) n) = {}"
        using away [OF vc] cl_sectors_inter [OF sg vc vcls] by blast
    qed
    ultimately show "is_chain s2 ds \<and> chain_data s2 ds = chain_data s ds" ..
  qed
qed

lemma free_cases:
  assumes "fat_inv s"
  shows "\<exists>r s'. fat_free first s = Some (r, s') \<and> fat_inv s' \<and> same_geo s s' \<and> (failed s \<longrightarrow> s' = s)"
proof -
  have shape: "fat_shape s" using assms by (simp add: fat_inv_def fat_ok_def)
  note pos = fat_bytes_pos [OF shape]
  obtain r where r: "fat_chain s first (MAX_FILE div fat_bytes s + 1) = Some r"
    using fat_chain_total [OF shape, of first "MAX_FILE div fat_bytes s + 1"] by blast
  show ?thesis
  proof (cases r)
    case (Inl e)
    then have "fat_free first s = Some (Err e, s)" using r pos by (simp add: fat_free_def)
    then show ?thesis using assms by simp
  next
    case (Inr cs)
    then have nf: "\<not> failed s" using r by (auto simp: fat_chain_def)
    from fat_free_correct [OF assms nf r [unfolded Inr]] show ?thesis
      using nf by (auto simp: released_def keeps_data_def)
  qed
qed

lemma undo_cases:
  assumes "fat_inv s"
  shows "\<exists>s'. fat_undo first e s = Some (Err e, s') \<and> fat_inv s' \<and> same_geo s s'"
proof (cases "failed s")
  case False
  obtain r s' where "fat_free first s = Some (r, s')" "fat_inv s'" "same_geo s s'"
    using free_cases [OF assms] by blast
  then show ?thesis using False by (simp add: fat_undo_def)
qed (use assms in \<open>simp add: fat_undo_def\<close>)

lemma created_only_read:
  assumes "only_read s s1" and "disk_ok (blk s)" and "created uc s1 dir nm data s'"
  shows "created uc s dir nm data s'"
proof -
  note t = only_read_tab [OF assms(1,2)] only_read_data [OF assms(1)]
  have "chain_data s1 = chain_data s" by (rule ext) (simp add: chain_data_def t)
  then have "untouched s1 cs s' = untouched s cs s'" for cs by (simp add: untouched_def t)
  then show ?thesis using assms(3) unfolding created_def by (simp only: t)
qed

lemma dir_survives:
  assumes inv: "fat_inv s" and st: "data_stored s data first cls s'" and at: "dir_at s dir cs dd"
  shows "dir_at s' dir cs dd"
proof -
  have fr: "frame s (set cls) (\<Union>(cl_sectors s ` set cls)) s'" and free: "set cls \<subseteq> fat_free_set s"
    using st by (simp_all add: data_stored_def)
  have sg: "fat_shape s" "fat_geom s" using inv by (simp_all add: fat_inv_def fat_ok_def)
  have shape: "dir_shape s dir cs (length dd)" using at by (simp add: dir_at_def)
  have csch: "cs = [] \<or> is_chain s cs" using at by (auto simp: dir_at_def dir_shape_def split: if_splits)
  have disj: "set cs \<inter> set cls = {}" using csch chain_not_free [OF sg(1) _ free] by auto
  have "dir_sectors s dir cs (length dd) \<inter> \<Union>(cl_sectors s ` set cls) = {}"
    using dir_lba_facts(3) [OF sg shape] disj free by (auto simp: dir_sectors_def fat_free_set_def)
  then show ?thesis by (rule frame_dir [OF fr inv at disj])
qed

lemma stored_created:
  assumes inv: "fat_inv s" and nf: "\<not> failed s" and st: "data_stored s data first cls s1"
    and ins: "inserted s1 uc dir nm first (of_nat (length data)) 0x20 cs dd news sh off s2"
    and len: "length data \<le> MAX_FILE" and nm: "name_ok nm" and tidy: "tidy_dir dd" and at: "dir_at s dir cs dd"
  shows "created uc s dir nm data s2"
proof -
  note si = stored_then_inserted [OF inv nf st ins at]
  have shape: "fat_shape s" using inv by (simp add: fat_inv_def fat_ok_def)
  have d: "length cls = (length data + fat_bytes s - 1) div fat_bytes s" "first = (if cls = [] then 0 else hd cls)"
    "set cls \<subseteq> fat_free_set s" "take (length data) (chain_data s1 cls) = data" and g1: "same_geo s s1"
    using st by (simp_all add: data_stored_def frame_def)
  have inv2: "fat_inv s2" and nf2: "\<not> failed s2" and g2: "same_geo s s2" using si(1) by (simp_all add: frame_def)
  have k: "kind s1 = kind s" using same_geo_fields(1) [OF g1] .
  have v: "first = 0 \<or> fat_valid s first"
  proof (cases "cls = []")
    case False
    then have "hd cls \<in> fat_free_set s" using d(3) hd_in_set by blast
    then show ?thesis using False d(2) by (simp add: fat_free_set_def)
  qed (simp add: d(2))
  have fits: "first_fits (kind s1) first" using first_fits_valid [OF shape v] k by simp
  have tag: "(0x20 :: u8) \<noteq> 0x0f" "(0x20 :: u8) AND 8 = 0" by simp_all
  from inserted_records [OF ins tidy nm fits tag] obtain dd' R1 R2 i where R: "dir_at s2 dir (cs @ news) dd'"
    "records uc dd (kind s) = R1 @ R2"
    "records uc dd' (kind s) = R1 @ new_record uc nm sh first (of_nat (length data)) 0x20 i # R2"
    unfolding k by blast
  define r where "r = new_record uc nm sh first (of_nat (length data)) 0x20 i"
  have nomatch: "\<forall>r0\<in>set (R1 @ R2). \<not> matches uc nm r0" using ins R(2) k by (simp add: inserted_def)
  have sz: "unat (of_nat (length data) :: u32) = length data"
    by (rule unat_of_nat_small) (use len in \<open>simp add: MAX_FILE_def\<close>)
  have r: "name r = nm" "attr r = 0x20" "unat (size_of r) = length data" "cluster r = first" "\<not> is_dir r"
    using sz by (simp_all add: r_def new_record_def is_dir_def)
  have pos: "0 < fat_bytes s" by (rule fat_bytes_pos [OF shape])
  have b2: "fat_bytes s2 = fat_bytes s" using same_geo_defs(4) [OF g2] .
  have cover: "length data \<le> length cls * fat_bytes s"
    unfolding d(1) using dividend_less_div_times [OF pos, of "length data + fat_bytes s - 1"] pos by linarith
  have bound: "length cls \<le> MAX_FILE div fat_bytes s + 1"
  proof -
    have "length cls \<le> (MAX_FILE + fat_bytes s) div fat_bytes s"
      unfolding d(1) by (rule div_le_mono) (use len in simp)
    then show ?thesis using pos by (simp add: div_add_self2)
  qed
  have chain: "fat_chain s2 first (MAX_FILE div fat_bytes s2 + 1) = Some (Ok cls)"
  proof (cases "cls = []")
    case True
    then show ?thesis using d(2) nf2 by (simp add: fat_chain_def)
  next
    case False
    have "first \<noteq> 0"
    proof
      assume "first = 0"
      moreover have "hd cls \<in> fat_free_set s" using d(3) hd_in_set [OF False] by blast
      ultimately have "fat_valid s 0" using False d(2) by (simp add: fat_free_set_def)
      then show False by (simp add: fat_valid_def)
    qed
    then show ?thesis
      using fat_chain_Ok_iff [OF _ nf2, of first] inv2 si(5) [OF False] False d(2) bound b2
      by (simp add: fat_inv_def fat_ok_def)
  qed
  have "file_at s2 r data"
    unfolding file_at_def using r len chain cover si(4) d(4) b2 by auto
  then show ?thesis
    unfolding created_def using at R r nomatch si(6) unfolding r_def [symmetric] by blast
qed

lemma create_cases:
  assumes inv: "fat_inv s"
  shows "(\<exists>s' dir nm s0. fat_create uc path data s = Some (Ok (), s') \<and> \<not> failed s \<and> fat_parent uc path s = Some (Ok (dir, nm), s0)
      \<and> valid_name nm \<and> fat_inv s' \<and> same_geo s s'
      \<and> (name_ok nm \<and> (\<forall>cs dd. dir_at s dir cs dd \<longrightarrow> tidy_dir dd) \<longrightarrow> created uc s dir nm data s')) \<or>
    (\<exists>e s'. fat_create uc path data s = Some (Err e, s') \<and> fat_inv s' \<and> same_geo s s' \<and> (failed s \<longrightarrow> s' = s))"
proof (cases "failed s")
  case True
  then show ?thesis using inv by (simp add: fat_create_def fat_check_def)
next
  case nf: False
  have ok: "disk_ok (blk s)" using inv by (simp add: fat_inv_def fat_ok_def)
  define cont where "cont = (\<lambda>parent nm first. andThen (attempt (fat_insert uc parent nm first (of_nat (length data)) 0x20)) (\<lambda>res.
          case res of Inl e \<Rightarrow> fat_undo first e | Inr _ \<Rightarrow> ret ()))"
  define body where "body = (\<lambda>(parent, nm).
     andThen (gets_res (\<lambda>v. Some (validate_name nm))) (\<lambda>_.
     andThen (fat_find uc parent nm) (\<lambda>found.
     if found \<noteq> None then fail ''already exists'' else andThen (fat_write_data data) (cont parent nm))))"
  have run: "fat_create uc path data s = andThen (fat_parent uc path) body s"
    using nf unfolding fat_create_def body_def cont_def by (simp add: fat_check_def)
  have err: ?thesis if "fat_create uc path data s = Some (Err e, s')" "fat_inv s'" "same_geo s s'" for e s'
    using that nf by blast
  from parent_triple [OF inv] only_read_refl show ?thesis
  proof (cases rule: tripleE [where m = "fat_parent uc path"])
    case (Err e s1)
    then show ?thesis using run err [of e s1] only_read_inv [OF _ inv] only_read_data(6) by simp
  next
    case (Ok a s1)
    obtain dir nm where a: "a = (dir, nm)" by force
    have ro1: "only_read s s1" using Ok(2) a by simp
    note r1 = Ok(1) [unfolded a]
    have run1: "fat_create uc path data s = body (dir, nm) s1" using run r1 by simp
    show ?thesis
    proof (cases "valid_name nm")
      case False
      then show ?thesis
        using run1 err [of _ s1] only_read_inv [OF ro1 inv] only_read_data(6) [OF ro1] by (simp add: body_def validate_name_def)
    next
      case vn: True
      from find_triple [OF inv] ro1 show ?thesis
      proof (cases rule: tripleE [where m = "fat_find uc dir nm"])
        case (Err e s2)
        then show ?thesis
          using run1 err [of e s2] only_read_inv [OF _ inv] only_read_data(6) vn by (simp add: body_def validate_name_def)
      next
        case (Ok f s2)
        then have ro2: "only_read s s2" by blast
        have inv2: "fat_inv s2" and g2: "same_geo s s2" and nf2: "\<not> failed s2"
          using only_read_inv [OF ro2 inv] only_read_data(4,6) [OF ro2] nf by simp_all
        show ?thesis
        proof (cases f)
          case (Some x)
          then show ?thesis using run1 Ok(1) vn err [of _ s2] inv2 g2 by (simp add: body_def validate_name_def)
        next
          case None
          then have run2: "fat_create uc path data s = andThen (fat_write_data data) (cont dir nm) s2"
            using run1 Ok(1) vn by (simp add: body_def validate_name_def)
          from fat_write_data_cases [OF inv2 nf2, of data]
          consider (stored) first cls s3 where "fat_write_data data s2 = Some (Ok first, s3)" "length data \<le> MAX_FILE"
              "data_stored s2 data first cls s3"
            | (fault) e s3 where "fat_write_data data s2 = Some (Err e, s3)" "fat_inv s3" "same_geo s2 s3"
            by blast
          then show ?thesis
          proof cases
            case (stored first cls s3)
            note r3 = stored(1) and len = stored(2) and st = stored(3)
            have inv3: "fat_inv s3" "\<not> failed s3" and g23: "same_geo s2 s3" using st by (simp_all add: data_stored_def frame_def)
            note g3 = same_geo_trans [OF g2 g23]
            from insert_cases [OF inv3, of uc dir nm first "of_nat (length data)" "0x20"] show ?thesis
            proof (elim disjE exE conjE)
              fix cs dd news sh off s4
              assume r4: "fat_insert uc dir nm first (of_nat (length data)) 0x20 s3 = Some (Ok (), s4)"
                and ins: "inserted s3 uc dir nm first (of_nat (length data)) 0x20 cs dd news sh off s4"
              have inv4: "fat_inv s4" and g34: "same_geo s3 s4" using ins by (simp_all add: inserted_def frame_def)
              have "created uc s dir nm data s4" if nm: "name_ok nm" and tidy: "\<forall>cs dd. dir_at s dir cs dd \<longrightarrow> tidy_dir dd"
              proof -
                obtain cs0 dd0 where at0: "dir_at s dir cs0 dd0" using Ok(2) by blast
                then have at2: "dir_at s2 dir cs0 dd0" using only_read_tab(8) [OF ro2 ok] by simp
                have at3: "dir_at s3 dir cs0 dd0" by (rule dir_survives [OF inv2 st at2])
                have "dir_at s3 dir cs dd" using ins by (simp add: inserted_def)
                then have e: "cs = cs0" "dd = dd0"
                  using dir_at_unique [OF _ at3] inv3 by (auto simp: fat_inv_def fat_ok_def)
                have "created uc s2 dir nm data s4"
                  by (rule stored_created [OF inv2 nf2 st ins len nm]) (use at2 tidy at0 e in auto)
                then show ?thesis by (rule created_only_read [OF ro2 ok])
              qed
              then show ?thesis using run2 r3 r4 nf r1 vn inv4 same_geo_trans [OF g3 g34] by (auto simp: cont_def)
            next
              fix e s4 assume r4: "fat_insert uc dir nm first (of_nat (length data)) 0x20 s3 = Some (Err e, s4)"
                "fat_inv s4" "same_geo s3 s4"
              obtain s5 where "fat_undo first e s4 = Some (Err e, s5)" "fat_inv s5" "same_geo s4 s5"
                using undo_cases [OF r4(2)] by blast
              then show ?thesis
                using run2 r3 r4 err [of e s5] same_geo_trans [OF same_geo_trans [OF g3 r4(3)]] by (simp add: cont_def)
            qed
          next
            case (fault e s3)
            then show ?thesis using run2 err [of e s3] same_geo_trans [OF g2] by simp
          qed
        qed
      qed
    qed
  qed
qed

text \<open>On a reliable device an insertion succeeds when the name is new and the directory has room for it.\<close>

lemma insert_succeeds:
  assumes inv: "fat_inv s" and nf: "\<not> failed s" and rel: "reliable (blk s)" and at: "dir_at s dir cs dd"
    and vn: "valid_name nm" and new: "\<forall>r\<in>set (records uc dd (kind s)). \<not> matches uc nm r"
    and sh: "short_name nm (records uc dd (kind s)) = Ok sh"
    and room: "free_slots dd (lfn_count uc nm sh + 1) = Some off"
  shows "\<exists>s'. fat_insert uc dir nm first sz att s = Some (Ok (), s')"
proof -
  have ok: "disk_ok (blk s)" "fat_shape s" using inv by (simp_all add: fat_inv_def fat_ok_def)
  obtain s1 where r1: "fat_load_dir dir s = Some (Ok (cs, dd), s1)" and ro: "only_read s s1"
    using readsE [OF load_dir_reads [OF inv nf at] only_read_refl] rel by metis
  have f1: "frame s {} {} s1" by (rule frame_only_read [OF ro inv nf])
  have inv1: "fat_inv s1" "\<not> failed s1" and rel1: "reliable (blk s1)" using f1 rel by (simp_all add: frame_def)
  have at1: "dir_at s1 dir cs dd" using at only_read_tab(8) [OF ro ok(1)] by simp
  have k1: "kind s1 = kind s" by (rule only_read_data(3) [OF ro])
  have len: "length sh = 11" using short_name_correct [OF sh] by (simp add: short_wf_def)
  define entries where "entries = entry_set uc nm sh first sz att (kind s)"
  have n: "length entries = 32 * Suc (lfn_count uc nm sh)" using length_entry_set [OF vn len] by (simp add: entries_def)
  obtain i where i: "off = 32 * i" "off + 32 * (lfn_count uc nm sh + 1) \<le> length dd"
    by (rule free_slots_fit [OF room]) auto
  then have fit: "off + length entries \<le> length dd" using n by simp
  obtain s2 where r2: "place_writes dir cs dd off entries s1 = Some (Ok (), s2)"
    using place_writes_cases [OF inv1 at1 n i(1) fit] rel1 by blast
  have "0 < fat_bytes s1" using fat_bytes_pos [of s1] inv1(1) by (simp add: fat_inv_def fat_ok_def)
  then show ?thesis
    unfolding fat_insert_unfold using vn r1 new sh r2 n room
    by (cases "fixed_root s1 dir") (simp_all add: validate_name_def k1 entries_def [symmetric])
qed

lemma create_succeeds:
  assumes inv: "fat_inv s" and nf: "\<not> failed s" and rel: "reliable (blk s)"
    and par: "fat_parent uc path s = Some (Ok (dir, nm), s0)" and at: "dir_at s dir cs dd"
    and vn: "valid_name nm" and new: "\<forall>r\<in>set (records uc dd (kind s)). \<not> matches uc nm r"
    and sh: "short_name nm (records uc dd (kind s)) = Ok sh"
    and room: "free_slots dd (lfn_count uc nm sh + 1) = Some off"
    and size: "length data \<le> MAX_FILE" "(length data + fat_bytes s - 1) div fat_bytes s \<le> card (fat_free_set s)"
  shows "\<exists>s'. fat_create uc path data s = Some (Ok (), s')"
proof -
  have ok: "disk_ok (blk s)" using inv by (simp add: fat_inv_def fat_ok_def)
  from parent_triple [OF inv] only_read_refl have ro0: "only_read s s0"
    by (cases rule: tripleE [where m = "fat_parent uc path"]) (use par in auto)
  have "find (matches uc nm) (records uc dd (kind s)) = None" using new by (simp add: find_None_iff)
  then obtain s2 where r2: "fat_find uc dir nm s0 = Some (Ok None, s2)" and ro2: "only_read s s2"
    using readsE [OF find_reads [OF inv nf at] ro0] rel by metis
  have f2: "frame s {} {} s2" by (rule frame_only_read [OF ro2 inv nf])
  have inv2: "fat_inv s2" "\<not> failed s2" and rel2: "reliable (blk s2)" and g2: "same_geo s s2" using f2 rel by (simp_all add: frame_def)
  have at2: "dir_at s2 dir cs dd" using at only_read_tab(8) [OF ro2 ok] by simp
  have free2: "fat_free_set s2 = fat_free_set s" using wrote_fields(11) [OF only_read_wrote [OF ro2 ok]] .
  obtain first cls s3 where r3: "fat_write_data data s2 = Some (Ok first, s3)" and st: "data_stored s2 data first cls s3"
    using fat_write_data_cases [OF inv2, of data] rel2 size same_geo_defs(4) [OF g2] free2 by fastforce
  have inv3: "fat_inv s3" "\<not> failed s3" and rel3: "reliable (blk s3)" and k3: "kind s3 = kind s"
    using st rel2 same_geo_fields(1) [OF g2] by (auto simp: data_stored_def frame_def dest: same_geo_fields(1))
  have at3: "dir_at s3 dir cs dd" by (rule dir_survives [OF inv2(1) st at2])
  obtain s4 where "fat_insert uc dir nm first (of_nat (length data)) 0x20 s3 = Some (Ok (), s4)"
    using insert_succeeds [OF inv3 rel3 at3 vn _ _ room] new sh k3 by metis
  then show ?thesis using nf par r2 r3 vn by (auto simp: fat_create_def fat_check_def validate_name_def)
qed

end
