(* ===== verification/Fat_Safety.thy ===== *)
theory Fat_Safety
  imports Fat_Create
begin

text \<open>
  Whatever the device does, no operation of a mounted FAT volume panics, every operation keeps the
  invariant of the volume, and a volume that stopped after a failed write is not changed any more.
\<close>

section \<open>Records and their slots\<close>

text \<open>While long-name entries are collected, they start at or before the current slot.\<close>

definition lfn_pos_ok :: "nat \<Rightarrow> lfn \<Rightarrow> bool" where
  "lfn_pos_ok index st \<longleftrightarrow> 32 dvd lfn_start st \<and> lfn_start st \<le> index * 32"

lemma lfn_pos_clear [simp]: "lfn_pos_ok index (lfn_clear st) = lfn_pos_ok index st"
  by (simp add: lfn_pos_ok_def lfn_clear_def)

lemma lfn_pos_Suc: "lfn_pos_ok index st \<Longrightarrow> lfn_pos_ok (Suc index) st"
  by (simp add: lfn_pos_ok_def)

lemma lfn_pos_step: "lfn_pos_ok index st \<Longrightarrow> lfn_pos_ok index (lfn_step index e st)"
  by (auto simp: lfn_pos_ok_def lfn_step_def lfn_first_def lfn_clear_def Let_def)

definition slot_ok :: "nat \<Rightarrow> Record \<Rightarrow> bool" where
  "slot_ok n r \<longleftrightarrow> offset r < n * 32 \<and> 32 dvd offset r \<and> 32 dvd start r \<and> start r \<le> offset r \<and> length (short r) = 11"

lemma records_loop_slots:
  assumes "r \<in> set (records_loop uc k index es st)" and "lfn_pos_ok index st" and "\<forall>e\<in>set es. length e = 32"
  shows "slot_ok (index + length es) r"
  using assms
proof (induction es arbitrary: index st)
  case (Cons e es)
  have tail: "slot_ok (index + length (e # es)) r"
    if "r \<in> set (records_loop uc k (Suc index) es st')" "lfn_pos_ok index st'" for st'
    using Cons(1) [OF that(1) lfn_pos_Suc [OF that(2)]] Cons(4) by simp
  show ?case
  proof (cases "e ! 0 = 0 \<or> e ! 0 = 0xe5 \<or> e ! 11 = 0x0f")
    case True
    then show ?thesis using Cons(2,3) tail lfn_pos_step by (auto split: if_splits)
  next
    case False
    then consider "short_record uc k index e st = Some r" | "r \<in> set (records_loop uc k (Suc index) es (lfn_clear st))"
      using Cons(2) by (auto split: option.splits)
    then show ?thesis
    proof cases
      case 1
      then show ?thesis
        using Cons(3,4) by (auto simp: short_record_def Let_def slot_ok_def lfn_pos_ok_def split: if_splits option.splits)
    next
      case 2
      then show ?thesis using tail Cons(3) by simp
    qed
  qed
qed simp

lemma records_slots:
  assumes "r \<in> set (records uc data k)"
  shows "slot_ok (length data div 32) r"
proof -
  have "\<forall>e\<in>set (chunks32 data). length e = 32" by (auto simp: chunks32_def)
  then show ?thesis
    using records_loop_slots [of r uc k 0 "chunks32 data" lfn_init] assms
    by (simp add: records_def lfn_pos_ok_def lfn_init_def)
qed

lemma slot_ok_bounds:
  assumes "slot_ok (length data div 32) r"
  shows "offset r + 32 \<le> length data" "start r \<le> offset r"
proof -
  obtain q where q: "offset r = 32 * q" using assms by (auto simp: slot_ok_def)
  have "q < length data div 32" using assms q by (simp add: slot_ok_def)
  then show "offset r + 32 \<le> length data" unfolding q by linarith
  show "start r \<le> offset r" using assms by (simp add: slot_ok_def)
qed

section \<open>Reading a file\<close>

lemma fat_data_triple:
  assumes inv: "fat_inv s"
  shows "triple (only_read s) (fat_data r) (\<lambda>d s'. only_read s s' \<and> file_at s r d) (\<lambda>_. only_read s)"
proof (rule tripleI)
  fix s1 assume s1: "only_read s s1"
  have sg: "fat_shape s" "disk_ok (blk s)" using inv by (simp_all add: fat_inv_def fat_ok_def)
  note pos = fat_bytes_pos [OF sg(1)] and t = only_read_tab [OF s1 sg(2)]
  show "(\<exists>a s'. fat_data r s1 = Some (Ok a, s') \<and> only_read s s' \<and> file_at s r a) \<or>
      (\<exists>e s'. fat_data r s1 = Some (Err e, s') \<and> only_read s s')"
  proof (cases "\<exists>d. file_at s r d")
    case True
    then obtain d where d: "file_at s r d" ..
    from fat_data_reads [OF inv d] s1 show ?thesis by (cases rule: readsE) (use d in auto)
  next
    case False
    obtain c where c: "fat_chain s (cluster r) (MAX_FILE div fat_bytes s + 1) = Some c"
      using fat_chain_total [OF sg(1), of "cluster r" "MAX_FILE div fat_bytes s + 1"] by blast
    have "length cs < (unat (size_of r) + fat_bytes s - 1) div fat_bytes s"
      if "\<not> is_dir r" "\<not> MAX_FILE < unat (size_of r)" "c = Ok cs" for cs
    proof (rule ccontr)
      assume n: "\<not> length cs < (unat (size_of r) + fat_bytes s - 1) div fat_bytes s"
      have "unat (size_of r) \<le> (unat (size_of r) + fat_bytes s - 1) div fat_bytes s * fat_bytes s"
        using dividend_less_div_times [OF pos, of "unat (size_of r) + fat_bytes s - 1"] pos by linarith
      also have "\<dots> \<le> length cs * fat_bytes s" using n by simp
      finally show False using False that c by (auto simp: file_at_def)
    qed
    then have "\<exists>e. fat_data r s1 = Some (Err e, s1)"
      using c pos by (cases c) (auto simp: fat_data_def Let_def t)
    then show ?thesis using s1 by blast
  qed
qed

section \<open>Every operation is safe\<close>

text \<open>
  An operation is safe in a state: it does not panic, the invariant holds afterwards, and a volume
  that has stopped is left as it is.
\<close>

definition safe_in :: "fat_state \<Rightarrow> 'a fat_op \<Rightarrow> bool" where
  "safe_in s m \<longleftrightarrow> (\<exists>r s'. m s = Some (r, s') \<and> fat_inv s' \<and> same_geo s s' \<and> (failed s \<longrightarrow> s' = s))"

lemma safe_inI: "m s = Some (r, s') \<Longrightarrow> fat_inv s' \<Longrightarrow> same_geo s s' \<Longrightarrow> \<not> failed s \<or> s' = s \<Longrightarrow> safe_in s m"
  by (auto simp: safe_in_def)

text \<open>After a step that did not fail and did not stop the volume the rest has to be safe.\<close>

lemma safe_andThen:
  assumes "m s = Some (Ok a, s')" and "same_geo s s'" and "\<not> failed s" and "safe_in s' (f a)"
  shows "safe_in s (andThen m f)"
proof -
  obtain r s'' where "f a s' = Some (r, s'')" "fat_inv s''" "same_geo s' s''" using assms(4) by (auto simp: safe_in_def)
  then show ?thesis using assms(1-3) same_geo_trans [OF assms(2)] by (intro safe_inI [where s' = s'']) simp_all
qed

lemma safe_andThen_Err:
  assumes "m s = Some (Err e, s')" and "fat_inv s'" and "same_geo s s'" and "\<not> failed s \<or> s' = s"
  shows "safe_in s (andThen m f)"
  by (rule safe_inI [where s' = s']) (use assms in simp_all)

lemma safe_ret: "fat_inv s \<Longrightarrow> safe_in s (ret a)"
  by (simp add: safe_in_def)

lemma safe_fail: "fat_inv s \<Longrightarrow> safe_in s (fail e)"
  by (simp add: safe_in_def)

text \<open>A read-only step: the rest runs in a state that differs only in what the device will do.\<close>

lemma safe_read:
  assumes "triple (only_read s) m (\<lambda>a s'. only_read s s' \<and> Q a) (\<lambda>_. only_read s)"
    and "fat_inv s" and "\<not> failed s" and "\<And>a s'. only_read s s' \<Longrightarrow> Q a \<Longrightarrow> safe_in s' (f a)"
  shows "safe_in s (andThen m f)"
  using assms(1) only_read_refl
proof (cases rule: tripleE [where m = m])
  case (Ok a s')
  then show ?thesis using safe_andThen [of m s a s' f] only_read_data(6) assms(3,4) by blast
next
  case (Err e s')
  then show ?thesis using safe_andThen_Err [of m s e s' f] only_read_data(6) only_read_inv [OF _ assms(2)] assms(3) by blast
qed

lemma safe_check:
  assumes "fat_inv s" and "\<not> failed s \<Longrightarrow> safe_in s m"
  shows "safe_in s (andThen (gets_res fat_check) (\<lambda>_. m))"
proof (cases "failed s")
  case True
  then show ?thesis using assms(1) by (simp add: safe_in_def fat_check_def)
next
  case False
  then show ?thesis using assms(2) by (simp add: safe_in_def fat_check_def)
qed

lemma safe_gets_res:
  assumes "fat_inv s" and "f s = Some r" and "\<And>a. r = Ok a \<Longrightarrow> safe_in s (g a)"
  shows "safe_in s (andThen (gets_res f) g)"
  using assms by (cases r) (simp_all add: safe_in_def)

lemma safe_gets:
  assumes "safe_in s (g (f s))"
  shows "safe_in s (andThen (gets f) g)"
  using assms by (simp add: safe_in_def)

lemma safe_gets_opt:
  assumes "f s = Some a" and "safe_in s (g a)"
  shows "safe_in s (andThen (gets_opt f) g)"
  using assms by (simp add: safe_in_def)

lemma only_read_state:
  assumes "only_read s s'" and "fat_inv s" and "\<not> failed s"
  shows "fat_inv s'" "\<not> failed s'" "kind s' = kind s" "dir_at s' = dir_at s"
proof -
  have "disk_ok (blk s)" using assms(2) by (simp add: fat_inv_def fat_ok_def)
  then show "dir_at s' = dir_at s" by (intro ext) (rule only_read_tab(8) [OF assms(1)])
qed (use only_read_inv [OF assms(1,2)] only_read_data(3,4) [OF assms(1)] assms(3) in simp_all)

lemma create_safe: "fat_inv s \<Longrightarrow> safe_in s (fat_create uc path data)"
  using create_cases [of s uc path data] by (auto simp: safe_in_def)

lemma free_safe: "fat_inv s \<Longrightarrow> safe_in s (fat_free first)"
  using free_cases by (auto simp: safe_in_def)

text \<open>\<open>if let Err(error) = op { undo; return Err(error) } rest\<close>\<close>

lemma safe_or_undo:
  assumes "m s = Some (r, s')" and "fat_inv s'" and "same_geo s s'" and "\<not> failed s"
    and "\<And>a. r = Ok a \<Longrightarrow> safe_in s' (f a)"
  shows "safe_in s (andThen (attempt m) (\<lambda>res. case res of Inl e \<Rightarrow> fat_undo first e | Inr a \<Rightarrow> f a))"
proof (rule safe_andThen [where a = r and s' = s'])
  show "safe_in s' (case r of Inl e \<Rightarrow> fat_undo first e | Inr a \<Rightarrow> f a)"
  proof (cases r)
    case (Inl e)
    obtain s'' where "fat_undo first e s' = Some (Err e, s'')" "fat_inv s''" "same_geo s' s''" "failed s' \<longrightarrow> s'' = s'"
    proof (cases "failed s'")
      case True
      then show ?thesis using assms(2) by (intro that [of s']) (simp_all add: fat_undo_def)
    next
      case False
      then show ?thesis using undo_cases [OF assms(2)] that by blast
    qed
    then show ?thesis unfolding Inl by (auto simp: safe_in_def)
  qed (use assms(5) in simp)
qed (use assms in simp_all)

lemma update_cases:
  assumes inv: "fat_inv s" and nf: "\<not> failed s" and at: "dir_at s dir cs dd" and r: "offset r + 32 \<le> length dd"
  shows "(\<exists>s'. fat_update_entry dir r first sz s = Some (Ok (), s') \<and> subrange (offset r) 11 dd = short r
        \<and> frame s {} (dir_sectors s dir cs (length dd)) s'
        \<and> dir_at s' dir cs (put_at (offset r + 28) (to_le 4 sz)
             (put_at (offset r) (put_cluster (subrange (offset r) 32 dd) first (kind s)) dd))) \<or>
    (\<exists>e s'. fat_update_entry dir r first sz s = Some (Err e, s') \<and> fat_inv s' \<and> same_geo s s')"
proof -
  define rest where "rest = (\<lambda>(chain :: u32 list, data).
     andThen (gets_opt (\<lambda>v. if offset r + 32 \<le> length data then Some (kind v) else None)) (\<lambda>k.
     if subrange (offset r) 11 data \<noteq> short r then fail ''stale directory entry''
     else let data = put_at (offset r) (put_cluster (subrange (offset r) 32 data) first k) data in
          fat_store_dir dir chain (put_at (offset r + 28) (to_le 4 sz) data) (offset r) 32))"
  have run: "fat_update_entry dir r first sz s = andThen (fat_load_dir dir) rest s"
    by (simp add: fat_update_entry_def rest_def)
  from load_dir_reads [OF inv nf at] only_read_refl show ?thesis
  proof (cases rule: readsE)
    case (Ok s1)
    note st = only_read_state [OF Ok(2) inv nf]
    define data1 where "data1 = put_at (offset r) (put_cluster (subrange (offset r) 32 dd) first (kind s)) dd"
    define data2 where "data2 = put_at (offset r + 28) (to_le 4 sz) data1"
    have l32: "length (put_cluster (subrange (offset r) 32 dd) first (kind s)) = 32" using r by (simp add: put_cluster_def)
    have len: "length data1 = length dd" "length data2 = length dd" using r l32 by (simp_all add: data1_def data2_def)
    show ?thesis
    proof (cases "subrange (offset r) 11 dd = short r")
      case False
      then have "fat_update_entry dir r first sz s = Some (Err ''stale directory entry'', s1)"
        using run Ok(1) r by (simp add: rest_def)
      then show ?thesis using st(1) only_read_data(6) [OF Ok(2)] by blast
    next
      case True
      then have run2: "fat_update_entry dir r first sz s = (if True then fat_store_dir dir cs data2 (offset r) 32 else ret ()) s1"
        using run Ok(1) r st(3) by (simp add: rest_def data2_def data1_def Let_def)
      have at1: "dir_at s1 dir cs dd" using at st(4) by simp
      have "(\<exists>s'. (if True then fat_store_dir dir cs data2 (offset r) 32 else ret ()) s1 = Some (Ok (), s') \<and>
            frame s1 {} (dir_sectors s1 dir cs (length data2)) s' \<and> dir_at s' dir cs data2) \<or>
          (\<exists>e s'. (if True then fat_store_dir dir cs data2 (offset r) 32 else ret ()) s1 = Some (Err e, s') \<and> fat_inv s' \<and> same_geo s1 s'
            \<and> \<not> reliable (blk s1))"
        by (rule maybe_store_cases [OF st(1,2) at1 len(2)])
          (use r len l32 in \<open>auto simp: data2_def nth_put_at data1_def\<close>)
      then show ?thesis
      proof (elim disjE exE conjE)
        fix s2 assume a: "(if True then fat_store_dir dir cs data2 (offset r) 32 else ret ()) s1 = Some (Ok (), s2)"
          and f: "frame s1 {} (dir_sectors s1 dir cs (length data2)) s2" and d: "dir_at s2 dir cs data2"
        have "frame s {} (dir_sectors s dir cs (length dd)) s2"
          by (rule frame_trans [OF frame_only_read [OF Ok(2) inv nf, of "{}" "{}"] f])
            (simp_all add: len dir_sectors_geo [OF only_read_data(6) [OF Ok(2)]])
        then show ?thesis using run2 a d True by (simp add: data2_def data1_def)
      next
        fix e s2 assume "(if True then fat_store_dir dir cs data2 (offset r) 32 else ret ()) s1 = Some (Err e, s2)" "fat_inv s2" "same_geo s1 s2"
        then show ?thesis using run2 same_geo_trans [OF only_read_data(6) [OF Ok(2)]] by auto
      qed
    qed
  next
    case (Err e s1)
    then show ?thesis using run only_read_inv [OF _ inv] only_read_data(6) by auto
  qed
qed

lemma parent_read:
  assumes "fat_inv s"
  shows "triple (only_read s) (fat_parent uc path) (\<lambda>a s'. only_read s s' \<and> True) (\<lambda>_. only_read s)"
  by (rule triple_weaken [OF parent_triple [OF assms]]) auto

lemma find_read:
  assumes "fat_inv s" and "\<not> failed s"
  shows "triple (only_read s) (fat_find uc dir nm)
    (\<lambda>f s'. only_read s s' \<and> (\<forall>r. f = Some r \<longrightarrow> found_in uc s dir r)) (\<lambda>_. only_read s)"
proof (rule triple_weaken [OF find_triple [OF assms(1)]])
  fix f s' assume "only_read s s' \<and> \<not> failed s \<and> (\<exists>cs data. dir_at s dir cs data \<and> f = find (matches uc nm) (records uc data (kind s)))"
  then show "only_read s s' \<and> (\<forall>r. f = Some r \<longrightarrow> found_in uc s dir r)"
    using find_SomeD unfolding found_in_def by metis
qed auto

lemma found_in_read: "only_read s s' \<Longrightarrow> fat_inv s \<Longrightarrow> found_in uc s dir r \<Longrightarrow> found_in uc s' dir r"
  using only_read_state [of s s'] by (simp add: found_in_def)

lemma overwrite_found_safe:
  assumes inv: "fat_inv s" and nf: "\<not> failed s" and r: "found_in uc s dir r"
  shows "safe_in s (andThen (fat_write_data data) (\<lambda>first.
      andThen (attempt (fat_update_entry dir r first (of_nat (length data)))) (\<lambda>res.
      case res of Inl e \<Rightarrow> fat_undo first e | Inr _ \<Rightarrow> fat_free (cluster r))))"
proof -
  obtain cs dd where at: "dir_at s dir cs dd" and mem: "r \<in> set (records uc dd (kind s))" using r by (auto simp: found_in_def)
  from fat_write_data_cases [OF inv nf, of data]
  consider (stored) first cls s1 where "fat_write_data data s = Some (Ok first, s1)" "data_stored s data first cls s1"
    | (fault) e s1 where "fat_write_data data s = Some (Err e, s1)" "fat_inv s1" "same_geo s s1"
    by blast
  then show ?thesis
  proof cases
    case (stored first cls s1)
    have s1: "fat_inv s1" "\<not> failed s1" "same_geo s s1" using stored(2) by (simp_all add: data_stored_def frame_def)
    have at1: "dir_at s1 dir cs dd" by (rule dir_survives [OF inv stored(2) at])
    note off = slot_ok_bounds(1) [OF records_slots [OF mem]]
    obtain res s2 where u: "fat_update_entry dir r first (of_nat (length data)) s1 = Some (res, s2)" "fat_inv s2" "same_geo s1 s2"
      using update_cases [OF s1(1,2) at1 off, of first "of_nat (length data)"] by (auto simp: frame_def)
    show ?thesis
    proof (rule safe_andThen [where m = "fat_write_data data" and a = first and s' = s1])
      show "safe_in s1 (andThen (attempt (fat_update_entry dir r first (of_nat (length data)))) (\<lambda>res.
          case res of Inl e \<Rightarrow> fat_undo first e | Inr _ \<Rightarrow> fat_free (cluster r)))"
        by (rule safe_or_undo [where r = res and s' = s2]) (use u s1 free_safe [OF u(2)] in simp_all)
    qed (use stored(1) s1 nf in simp_all)
  next
    case (fault e s1)
    then show ?thesis using safe_andThen_Err nf by blast
  qed
qed

lemma overwrite_safe:
  assumes inv: "fat_inv s"
  shows "safe_in s (fat_overwrite uc path data)"
  unfolding fat_overwrite_def
proof (rule safe_check [OF inv])
  assume nf: "\<not> failed s"
  show "safe_in s (andThen (fat_parent uc path) (\<lambda>(parent, nm).
     andThen (gets_res (\<lambda>v. Some (validate_name nm))) (\<lambda>_.
     andThen (fat_find uc parent nm) (\<lambda>found. case found of
       None \<Rightarrow> fat_create uc path data
     | Some r \<Rightarrow>
         if is_dir r then fail ''is a directory''
         else if attr r AND 1 \<noteq> 0 then fail ''file is read-only''
         else andThen (fat_write_data data) (\<lambda>first.
              andThen (attempt (fat_update_entry parent r first (of_nat (length data)))) (\<lambda>res.
              case res of Inl e \<Rightarrow> fat_undo first e | Inr _ \<Rightarrow> fat_free (cluster r)))))))"
  proof (rule safe_read [OF parent_read [OF inv] inv nf])
    fix a :: "Dir \<times> rstr" and s1 assume ro: "only_read s s1"
    obtain dir nm where a: "a = (dir, nm)" by force
    note st = only_read_state [OF ro inv nf]
    show "safe_in s1 (case a of (parent, nm) \<Rightarrow>
     andThen (gets_res (\<lambda>v. Some (validate_name nm))) (\<lambda>_.
     andThen (fat_find uc parent nm) (\<lambda>found. case found of
       None \<Rightarrow> fat_create uc path data
     | Some r \<Rightarrow>
         if is_dir r then fail ''is a directory''
         else if attr r AND 1 \<noteq> 0 then fail ''file is read-only''
         else andThen (fat_write_data data) (\<lambda>first.
              andThen (attempt (fat_update_entry parent r first (of_nat (length data)))) (\<lambda>res.
              case res of Inl e \<Rightarrow> fat_undo first e | Inr _ \<Rightarrow> fat_free (cluster r))))))"
      unfolding a prod.case
    proof (rule safe_gets_res [OF st(1) refl], rule safe_read [OF find_read [OF st(1,2)] st(1,2)])
      fix f s2 assume ro2: "only_read s1 s2" and f: "\<forall>r. f = Some r \<longrightarrow> found_in uc s1 dir r"
      note st2 = only_read_state [OF ro2 st(1,2)]
      show "safe_in s2 (case f of None \<Rightarrow> fat_create uc path data
     | Some r \<Rightarrow>
         if is_dir r then fail ''is a directory''
         else if attr r AND 1 \<noteq> 0 then fail ''file is read-only''
         else andThen (fat_write_data data) (\<lambda>first.
              andThen (attempt (fat_update_entry dir r first (of_nat (length data)))) (\<lambda>res.
              case res of Inl e \<Rightarrow> fat_undo first e | Inr _ \<Rightarrow> fat_free (cluster r))))"
      proof (cases f)
        case None
        then show ?thesis using create_safe [OF st2(1)] by simp
      next
        case (Some r)
        then have "found_in uc s2 dir r" using found_in_read [OF ro2 st(1)] f by simp
        then show ?thesis using overwrite_found_safe [OF st2(1,2)] Some by (simp add: safe_fail [OF st2(1)])
      qed
    qed
  qed
qed

lemma append_safe:
  assumes inv: "fat_inv s"
  shows "safe_in s (fat_append uc path data)"
proof (cases "failed s")
  case True
  have p: "triple ((=) s) (fat_parent uc path) (\<lambda>_. (=) s) (\<lambda>_. (=) s)"
  proof -
    have "fat_load_dir dir s = Some (Err ''filesystem stopped after a disk write failure; remount required'', s)" for dir
      using True by (simp add: fat_load_dir_def fat_check_def)
    then have "fat_find uc dir nm s = Some (Err ''filesystem stopped after a disk write failure; remount required'', s)" for dir nm
      by (simp add: fat_find_def)
    then have d: "\<exists>r. fat_descend uc dir parts s = Some (r, s)" for dir parts
      by (cases parts) simp_all
    have "\<exists>r. fat_parent uc path s = Some (r, s)"
    proof (cases "components path = []")
      case False
      obtain r where "fat_descend uc (fat_root s) (butlast (components path)) s = Some (r, s)" using d by blast
      then show ?thesis using False by (cases r) (simp_all add: fat_parent_def Let_def)
    qed (simp add: fat_parent_def)
    then show ?thesis by (auto simp: triple_def split: sum.split)
  qed
  have f: "fat_find uc dir nm s = Some (Err ''filesystem stopped after a disk write failure; remount required'', s)" for dir nm
    using True by (simp add: fat_find_def fat_load_dir_def fat_check_def)
  from p refl have "\<exists>e. fat_append uc path data s = Some (Err e, s)"
  proof (cases rule: tripleE [where s = s])
    case (Ok a s')
    then show ?thesis using f by (cases a) (simp add: fat_append_def)
  qed (simp_all add: fat_append_def)
  then show ?thesis using inv by (auto simp: safe_in_def)
next
  case nf: False
  show ?thesis unfolding fat_append_def
  proof (rule safe_read [OF parent_read [OF inv] inv nf])
    fix a :: "Dir \<times> rstr" and s1 assume ro: "only_read s s1"
    obtain dir nm where a: "a = (dir, nm)" by force
    note st = only_read_state [OF ro inv nf]
    show "safe_in s1 (case a of (parent, nm) \<Rightarrow>
     andThen (fat_find uc parent nm) (\<lambda>found. case found of
       None \<Rightarrow> fat_create uc path data
     | Some r \<Rightarrow>
         andThen (fat_data r) (\<lambda>old.
           if MAX_FILE < length old + length data then fail ''file exceeds 16 MiB driver limit''
           else fat_overwrite uc path (old @ data))))"
      unfolding a prod.case
    proof (rule safe_read [OF find_read [OF st(1,2)] st(1,2)])
      fix f s2 assume ro2: "only_read s1 s2"
      note st2 = only_read_state [OF ro2 st(1,2)]
      show "safe_in s2 (case f of None \<Rightarrow> fat_create uc path data
     | Some r \<Rightarrow>
         andThen (fat_data r) (\<lambda>old.
           if MAX_FILE < length old + length data then fail ''file exceeds 16 MiB driver limit''
           else fat_overwrite uc path (old @ data)))"
      proof (cases f)
        case None
        then show ?thesis using create_safe [OF st2(1)] by simp
      next
        case (Some r)
        show ?thesis unfolding Some option.case
        proof (rule safe_read [OF fat_data_triple [OF st2(1)] st2(1,2)])
          fix old s3 assume "only_read s2 s3"
          note st3 = only_read_state [OF this st2(1,2)]
          show "safe_in s3 (if MAX_FILE < length old + length data then fail ''file exceeds 16 MiB driver limit''
             else fat_overwrite uc path (old @ data))"
            using overwrite_safe [OF st3(1)] by (simp add: safe_fail [OF st3(1)])
        qed
      qed
    qed
  qed
qed

lemma mkdir_new_safe:
  assumes inv: "fat_inv s" and nf: "\<not> failed s"
  shows "safe_in s (andThen (fat_allocate 1) (\<lambda>sel.
          andThen (gets_opt (\<lambda>v. idx sel 0)) (\<lambda>c.
          andThen (gets (\<lambda>v. (fat_bytes v, kind v))) (\<lambda>(bytes, k).
          let dot = entry_set uc [0x2e] dot_short c 0 0x10 k;
              dotdot = entry_set uc [0x2e, 0x2e] dotdot_short (if dir_root parent then 0 else dir_cluster parent) 0 0x10 k
          in andThen (gets_opt (\<lambda>v. if 64 \<le> bytes
                then Some (put_at 32 (last32 dotdot) (put_at 0 (last32 dot) (replicate bytes 0))) else None)) (\<lambda>data.
             andThen (fat_write_cluster c data) (\<lambda>_.
             andThen (attempt (fat_insert uc parent nm c 0 0x10)) (\<lambda>res.
             case res of Inl e \<Rightarrow> fat_undo c e | Inr _ \<Rightarrow> ret ())))))))"
    (is "safe_in s (andThen _ ?rest)")
proof -
  from fat_allocate_triple [OF inv nf zero_less_one]
  consider (new) sel s1 where "fat_allocate 1 s = Some (Ok sel, s1)" "allocated s 1 sel s1"
    | (fault) e s1 where "fat_allocate 1 s = Some (Err e, s1)" "fat_inv s1" "same_geo s s1"
    using inv by (auto simp: keeps_data_def)
  then show ?thesis
  proof cases
    case (new sel s1)
    obtain c where sel: "sel = [c]" using new(2) by (auto simp: allocated_def length_Suc_conv)
    have s1: "fat_inv s1" "\<not> failed s1" "same_geo s s1" and c: "c \<in> fat_free_set s"
      using new(2) sel by (auto simp: allocated_def keeps_data_def)
    have v: "fat_valid s1 c" using c same_geo_defs(3) [OF s1(3)] by (simp add: fat_free_set_def)
    define dot where "dot = entry_set uc [0x2e] dot_short c 0 0x10 (kind s1)"
    define dotdot where "dotdot = entry_set uc [0x2e, 0x2e] dotdot_short (if dir_root parent then 0 else dir_cluster parent) 0 0x10 (kind s1)"
    define data where "data = put_at 32 (last32 dotdot) (put_at 0 (last32 dot) (replicate (fat_bytes s1) 0))"
    have b: "512 \<le> fat_bytes s1" using s1(1) by (simp add: fat_inv_def fat_ok_def fat_shape_def fat_bytes_def)
    have e32: "length (short_entry sh first sz at k) = 32" if "length sh = 11" for sh first sz at k
      using short_entry_facts(1) [OF that refl] .
    have "length (last32 dot) = 32" "length (last32 dotdot) = 32"
      by (simp_all add: last32_def dot_def dotdot_def entry_set_def Let_def e32 dot_short_def dotdot_short_def)
    then have len: "length data = fat_bytes s1" using b by (simp add: data_def)
    have rest: "?rest sel s1 = andThen (fat_write_cluster c data) (\<lambda>_.
             andThen (attempt (fat_insert uc parent nm c 0 0x10)) (case_sum (fat_undo c) ret)) s1"
      using sel b by (simp add: Let_def data_def dot_def dotdot_def)
    have "safe_in s1 (andThen (fat_write_cluster c data) (\<lambda>_.
             andThen (attempt (fat_insert uc parent nm c 0 0x10)) (case_sum (fat_undo c) ret)))"
    proof -
      from fat_write_cluster_triple [OF s1(1,2) v len]
      consider (written) s2 where "fat_write_cluster c data s1 = Some (Ok (), s2)" "wrote s1 (cl_sectors s1 c) s2"
        | (fault) e s2 where "fat_write_cluster c data s1 = Some (Err e, s2)" "spoiled s1 (cl_sectors s1 c) s2"
        by blast
      then show ?thesis
      proof cases
        case (written s2)
        have "frame s1 {} (cl_sectors s1 c) s2"
          by (rule frame_wrote [OF written(2) cl_sectors_area s1(1,2)]) (use s1(1) v in \<open>simp_all add: fat_inv_def fat_ok_def\<close>)
        then have s2: "fat_inv s2" "\<not> failed s2" "same_geo s1 s2" by (simp_all add: frame_def)
        obtain res s3 where i: "fat_insert uc parent nm c 0 0x10 s2 = Some (res, s3)" "fat_inv s3" "same_geo s2 s3"
          using insert_cases [OF s2(1,2), of uc parent nm c 0 "0x10"] by (auto simp: inserted_def frame_def)
        show ?thesis
        proof (rule safe_andThen [where m = "fat_write_cluster c data" and a = "()" and s' = s2])
          show "safe_in s2 (andThen (attempt (fat_insert uc parent nm c 0 0x10)) (case_sum (fat_undo c) ret))"
            by (rule safe_or_undo [where r = res and s' = s3]) (use i s2 safe_ret in simp_all)
        qed (use written s1 s2 in simp_all)
      next
        case (fault e s2)
        then show ?thesis using safe_andThen_Err spoiled_inv(1,2) [OF _ s1(1)] s1(2) by blast
      qed
    qed
    then have "safe_in s1 (?rest sel)" unfolding safe_in_def rest .
    then show ?thesis using safe_andThen [of "fat_allocate 1" s sel s1 ?rest] new(1) s1(3) nf by blast
  next
    case (fault e s1)
    then show ?thesis using safe_andThen_Err nf by blast
  qed
qed

lemma mkdir_safe:
  assumes inv: "fat_inv s"
  shows "safe_in s (fat_mkdir uc path)"
  unfolding fat_mkdir_def
proof (rule safe_check [OF inv], rule safe_read [OF parent_read [OF inv] inv])
  fix a :: "Dir \<times> rstr" and s1 assume nf: "\<not> failed s" and ro: "only_read s s1"
  obtain dir nm where a: "a = (dir, nm)" by force
  note st = only_read_state [OF ro inv nf]
  show "safe_in s1 (case a of (parent, nm) \<Rightarrow>
     andThen (gets_res (\<lambda>v. Some (validate_name nm))) (\<lambda>_.
     andThen (fat_find uc parent nm) (\<lambda>found.
     if found \<noteq> None then fail ''already exists''
     else andThen (fat_allocate 1) (\<lambda>sel.
          andThen (gets_opt (\<lambda>v. idx sel 0)) (\<lambda>c.
          andThen (gets (\<lambda>v. (fat_bytes v, kind v))) (\<lambda>(bytes, k).
          let dot = entry_set uc [0x2e] dot_short c 0 0x10 k;
              dotdot = entry_set uc [0x2e, 0x2e] dotdot_short (if dir_root parent then 0 else dir_cluster parent) 0 0x10 k
          in andThen (gets_opt (\<lambda>v. if 64 \<le> bytes
                then Some (put_at 32 (last32 dotdot) (put_at 0 (last32 dot) (replicate bytes 0))) else None)) (\<lambda>data.
             andThen (fat_write_cluster c data) (\<lambda>_.
             andThen (attempt (fat_insert uc parent nm c 0 0x10)) (\<lambda>res.
             case res of Inl e \<Rightarrow> fat_undo c e | Inr _ \<Rightarrow> ret ())))))))))"
    unfolding a prod.case
  proof (rule safe_gets_res [OF st(1) refl], rule safe_read [OF find_read [OF st(1,2)] st(1,2)], goal_cases)
    case (1 _ f s2)
    note st2 = only_read_state [OF 1(2) st(1,2)]
    show ?case using mkdir_new_safe [OF st2(1,2), of uc dir nm] by (simp add: safe_fail [OF st2(1)])
  qed
qed

text \<open>The bytes that \<open>delete\<close> marks are the first bytes of slots of the record.\<close>

lemma marks_in:
  assumes "slot_ok (length data div 32) r" and "off \<in> set (fat_marks r)"
  shows "start r \<le> off" "off \<le> offset r" "off < length data"
proof -
  obtain i where i: "i \<le> (offset r - start r) div 32" "off = start r + 32 * i" and le: "start r \<le> offset r"
    using assms(2) by (auto simp: fat_marks_def less_Suc_eq_le split: if_splits)
  show "start r \<le> off" using i by simp
  show o: "off \<le> offset r" using i le by linarith
  show "off < length data" using o slot_ok_bounds(1) [OF assms(1)] by simp
qed

lemma length_marked: "length (foldl (\<lambda>d off. d[off := x]) data offs) = length data"
  by (induction offs arbitrary: data) simp_all

lemma nth_marked: "j \<notin> set offs \<Longrightarrow> foldl (\<lambda>d off. d[off := x]) data offs ! j = data ! j"
  by (induction offs arbitrary: data) simp_all

lemma unlink_safe:
  assumes inv: "fat_inv s" and nf: "\<not> failed s" and at: "dir_at s dir cs dd" and r: "slot_ok (length dd div 32) r"
  shows "safe_in s (andThen (fat_load_dir dir) (\<lambda>(chain, data).
          andThen (gets_opt (\<lambda>v. if \<forall>off\<in>set (fat_marks r). off < length data
                                  then Some (foldl (\<lambda>d off. d[off := 0xe5]) data (fat_marks r)) else None)) (\<lambda>data.
          andThen (fat_store_dir dir chain data (start r) (offset r + 32 - start r)) (\<lambda>_.
          fat_free (cluster r)))))"
    (is "safe_in s (andThen _ ?rest)")
proof -
  define dd' where "dd' = foldl (\<lambda>d off. d[off := 0xe5]) dd (fat_marks r)"
  have len: "length dd' = length dd" by (simp add: dd'_def length_marked)
  note b = slot_ok_bounds [OF r]
  from load_dir_reads [OF inv nf at] only_read_refl show ?thesis
  proof (cases rule: readsE)
    case (Ok s1)
    note st = only_read_state [OF Ok(2) inv nf]
    have at1: "dir_at s1 dir cs dd" using at st(4) by simp
    have run: "?rest (cs, dd) s1 = andThen (if True then fat_store_dir dir cs dd' (start r) (offset r + 32 - start r) else ret ())
        (\<lambda>_. fat_free (cluster r)) s1"
      using marks_in(3) [OF r] by (simp add: dd'_def)
    have "(\<exists>s'. (if True then fat_store_dir dir cs dd' (start r) (offset r + 32 - start r) else ret ()) s1 = Some (Ok (), s') \<and>
          frame s1 {} (dir_sectors s1 dir cs (length dd')) s' \<and> dir_at s' dir cs dd') \<or>
        (\<exists>e s'. (if True then fat_store_dir dir cs dd' (start r) (offset r + 32 - start r) else ret ()) s1 = Some (Err e, s') \<and>
          fat_inv s' \<and> same_geo s1 s' \<and> \<not> reliable (blk s1))"
    proof (rule maybe_store_cases [OF st(1,2) at1 len])
      show "start r + (offset r + 32 - start r) \<le> length dd'" using b len by simp
      fix j assume "j < length dd'" "\<not> True \<or> j < start r \<or> start r + (offset r + 32 - start r) \<le> j"
      then have "j \<notin> set (fat_marks r)" using marks_in [OF r, of j] b by auto
      then show "dd' ! j = dd ! j" unfolding dd'_def by (rule nth_marked)
    qed
    then have "safe_in s1 (andThen (if True then fat_store_dir dir cs dd' (start r) (offset r + 32 - start r) else ret ())
        (\<lambda>_. fat_free (cluster r)))"
    proof (elim disjE exE conjE)
      fix s2 assume a: "(if True then fat_store_dir dir cs dd' (start r) (offset r + 32 - start r) else ret ()) s1 = Some (Ok (), s2)"
        and f: "frame s1 {} (dir_sectors s1 dir cs (length dd')) s2"
      have s2: "fat_inv s2" "same_geo s1 s2" using f by (simp_all add: frame_def)
      show ?thesis
        by (rule safe_andThen [where a = "()" and s' = s2]) (use a s2(2) st(2) free_safe [OF s2(1)] in simp_all)
    next
      fix e s2 assume "(if True then fat_store_dir dir cs dd' (start r) (offset r + 32 - start r) else ret ()) s1 = Some (Err e, s2)"
        "fat_inv s2" "same_geo s1 s2"
      then show ?thesis by (intro safe_andThen_Err [where e = e and s' = s2]) (use st(2) in simp_all)
    qed
    then have "safe_in s1 (?rest (cs, dd))" unfolding safe_in_def run .
    with Ok(1) only_read_data(6) [OF Ok(2)] nf show ?thesis by (rule safe_andThen)
  next
    case (Err e s1)
    show ?thesis
      by (rule safe_andThen_Err [where e = e and s' = s1])
        (use Err only_read_inv [OF _ inv] only_read_data(6) nf in auto)
  qed
qed

lemma delete_safe:
  assumes inv: "fat_inv s"
  shows "safe_in s (fat_delete uc path)"
proof (cases "failed s")
  case True
  then show ?thesis using inv by (simp add: fat_delete_def fat_check_def safe_in_def)
next
  case nf: False
  define unlink where "unlink = (\<lambda>parent r. andThen (fat_load_dir parent) (\<lambda>(chain, data).
          andThen (gets_opt (\<lambda>v. if \<forall>off\<in>set (fat_marks r). off < length data
                                  then Some (foldl (\<lambda>d off. d[off := 0xe5]) data (fat_marks r)) else None)) (\<lambda>data.
          andThen (fat_store_dir parent chain data (start r) (offset r + 32 - start r)) (\<lambda>_.
          fat_free (cluster r)))))"
  define vacant where "vacant = (\<lambda>r. if is_dir r
                   then andThen (fat_load_dir (sub_dir r)) (\<lambda>(_, data).
                        andThen (gets kind) (\<lambda>k. ret (records uc data k = [])))
                   else ret True)"
  have run: "fat_delete uc path = andThen (gets_res fat_check) (\<lambda>_.
     andThen (fat_lookup uc path) (\<lambda>(parent, r).
     if attr r AND 1 \<noteq> 0 then fail ''file is read-only''
     else andThen (vacant r) (\<lambda>empty.
     if \<not> empty then fail ''directory not empty''
     else andThen (gets_res (\<lambda>v. if fat_bytes v = 0 then None
                                 else fat_chain v (cluster r) (MAX_FILE div fat_bytes v + 1))) (\<lambda>_. unlink parent r))))"
    unfolding fat_delete_def unlink_def vacant_def ..
  have v: "triple (only_read s1) (vacant r) (\<lambda>b s'. only_read s1 s' \<and> True) (\<lambda>_. only_read s1)" if "fat_inv s1" for s1 r
  proof (cases "is_dir r")
    case True
    have "triple (only_read s1) (andThen (fat_load_dir (sub_dir r)) (\<lambda>(_, data).
        andThen (gets kind) (\<lambda>k. ret (records uc data k = [])))) (\<lambda>b s'. only_read s1 s' \<and> True) (\<lambda>_. only_read s1)"
      by (rule triple_andThen [OF load_dir_Ok [OF that]]) (rule tripleI, auto)
    then show ?thesis using True by (simp add: vacant_def)
  qed (auto simp: vacant_def intro: triple_ret)
  have l: "triple (only_read s) (fat_lookup uc path) (\<lambda>a s'. only_read s s' \<and> found_in uc s (fst a) (snd a)) (\<lambda>_. only_read s)"
    by (rule triple_weaken [OF lookup_triple [OF inv]]) (auto split: prod.splits)
  show ?thesis unfolding run
  proof (rule safe_check [OF inv], rule safe_read [OF l inv nf])
    fix a :: "Dir \<times> Record" and s1 assume ro: "only_read s s1" and f: "found_in uc s (fst a) (snd a)"
    obtain dir r where a: "a = (dir, r)" by force
    note st = only_read_state [OF ro inv nf]
    have f1: "found_in uc s1 dir r" using found_in_read [OF ro inv] f a by simp
    show "safe_in s1 (case a of (parent, r) \<Rightarrow> if attr r AND 1 \<noteq> 0 then fail ''file is read-only''
     else andThen (vacant r) (\<lambda>empty.
     if \<not> empty then fail ''directory not empty''
     else andThen (gets_res (\<lambda>v. if fat_bytes v = 0 then None
                                 else fat_chain v (cluster r) (MAX_FILE div fat_bytes v + 1))) (\<lambda>_. unlink parent r)))"
    proof (cases "attr r AND 1 = 0")
      case True
      have "safe_in s1 (andThen (vacant r) (\<lambda>empty.
         if \<not> empty then fail ''directory not empty''
         else andThen (gets_res (\<lambda>v. if fat_bytes v = 0 then None
                                 else fat_chain v (cluster r) (MAX_FILE div fat_bytes v + 1))) (\<lambda>_. unlink dir r)))"
      proof (rule safe_read [OF v [OF st(1)] st(1,2)])
        fix b s2 assume ro2: "only_read s1 s2"
        note st2 = only_read_state [OF ro2 st(1,2)]
        obtain cs dd where at: "dir_at s2 dir cs dd" and mem: "r \<in> set (records uc dd (kind s2))"
          using found_in_read [OF ro2 st(1) f1] by (auto simp: found_in_def)
        have u: "safe_in s2 (unlink dir r)"
          unfolding unlink_def by (rule unlink_safe [OF st2(1,2) at records_slots [OF mem]])
        have shape: "fat_shape s2" using st2(1) by (simp add: fat_inv_def fat_ok_def)
        obtain c where "fat_chain s2 (cluster r) (MAX_FILE div fat_bytes s2 + 1) = Some c"
          using fat_chain_total [OF shape, of "cluster r" "MAX_FILE div fat_bytes s2 + 1"] by blast
        then have "safe_in s2 (andThen (gets_res (\<lambda>v. if fat_bytes v = 0 then None
            else fat_chain v (cluster r) (MAX_FILE div fat_bytes v + 1))) (\<lambda>_. unlink dir r))"
          using fat_bytes_pos [OF shape] by (intro safe_gets_res [OF st2(1)]) (simp_all add: u)
        then show "safe_in s2 (if \<not> b then fail ''directory not empty''
            else andThen (gets_res (\<lambda>v. if fat_bytes v = 0 then None
              else fat_chain v (cluster r) (MAX_FILE div fat_bytes v + 1))) (\<lambda>_. unlink dir r))"
          by (simp add: safe_fail [OF st2(1)])
      qed
      then show ?thesis using True a by simp
    qed (simp add: a safe_fail [OF st(1)])
  qed
qed

end
