(* ===== verification/Fat_Mount.thy ===== *)
theory Fat_Mount
  imports Fat_Volume
begin

text \<open>
  Finding and mounting a FAT volume (\<open>src/fs/fat.rs\<close>: \<open>probe\<close>, \<open>discover\<close>, \<open>mount\<close>) and the public
  interface of the mounted volume. A sector is 512 bytes, so the fields of a boot sector are inside of
  it. Sizes that are computed in \<open>u64\<close> from 8-, 16- and 32-bit fields stay below \<open>2 ^ 36\<close> and are
  natural numbers here; block addresses are \<open>u64\<close> words.

  A volume that \<open>probe\<close> accepts satisfies the invariant of the table: the table has an entry for every
  cluster, its copies on disk are the cached table, all regions lie inside the partition.
\<close>

section \<open>Boot sector\<close>

definition crc32_bit :: "u32 \<Rightarrow> u32" where
  "crc32_bit crc = drop_bit 1 crc XOR (0xedb88320 AND (0 - (crc AND 1)))"

definition crc32 :: "bytes \<Rightarrow> u32" where
  "crc32 bs = NOT (foldl (\<lambda>crc b. (crc32_bit ^^ 8) (crc XOR ucast b)) (NOT 0) bs)"

definition is_power_of_two :: "u8 \<Rightarrow> bool" where
  "is_power_of_two w \<longleftrightarrow> w \<noteq> 0 \<and> w AND (w - 1) = 0"

text \<open>\<open>''EXFAT   ''\<close>, \<open>''EFI PART''\<close>\<close>

definition EXFAT_NAME :: bytes where "EXFAT_NAME = [0x45, 0x58, 0x46, 0x41, 0x54, 0x20, 0x20, 0x20]"

definition EFI_PART :: bytes where "EFI_PART = [0x45, 0x46, 0x49, 0x20, 0x50, 0x41, 0x52, 0x54]"

text \<open>The fields of the BIOS parameter block that \<open>probe\<close> reads.\<close>

record bpb =
  b_spc :: u8
  b_reserved :: u16
  b_fats :: u8
  b_roots :: u16
  b_total :: u32
  b_fat_sectors :: u32

definition probe_bpb :: "bytes \<Rightarrow> bpb" where
  "probe_bpb b = \<lparr>b_spc = b ! 13, b_reserved = rd16 b 14, b_fats = b ! 16, b_roots = rd16 b 17,
     b_total = (if rd16 b 19 \<noteq> 0 then ucast (rd16 b 19) else rd32 b 32),
     b_fat_sectors = (if rd16 b 22 \<noteq> 0 then ucast (rd16 b 22) else rd32 b 36)\<rparr>"

definition bpb_root_sectors :: "bpb \<Rightarrow> nat" where
  "bpb_root_sectors p = (unat (b_roots p) * 32 + 511) div 512"

definition bpb_overhead :: "bpb \<Rightarrow> nat" where
  "bpb_overhead p = unat (b_reserved p) + unat (b_fats p) * unat (b_fat_sectors p) + bpb_root_sectors p"

definition bpb_clusters :: "bpb \<Rightarrow> nat" where
  "bpb_clusters p = (unat (b_total p) - bpb_overhead p) div unat (b_spc p)"

definition kind_of :: "nat \<Rightarrow> Kind" where
  "kind_of n = (if n < 4085 then Fat12 else if n < 65525 then Fat16 else Fat32)"

text \<open>What depends on FAT32: root cluster, active copy, mirroring and the two FSInfo sectors.\<close>

definition probe_ext :: "u64 \<Rightarrow> bytes \<Rightarrow> bpb \<Rightarrow> Kind \<Rightarrow> string + (u32 \<times> u8 \<times> bool \<times> u64 option \<times> u64 option)" where
  "probe_ext from b p k =
     (if k = Fat32
      then if b_roots p \<noteq> 0 \<or> rd16 b 22 \<noteq> 0 \<or> rd16 b 42 \<noteq> 0 then Err ''invalid FAT32 BPB''
           else let rt = rd32 b 44 AND 0x0fffffff;
                    flags = rd16 b 40;
                    mirrored = (flags AND 0x80 = 0);
                    active = (if mirrored then 0 else ucast (flags AND 0xf));
                    info = unat (rd16 b 48);
                    backup = unat (rd16 b 50);
                    reserved = unat (b_reserved p);
                    fsi = (if info \<noteq> 0 \<and> info < reserved then Some (from + of_nat info) else None);
                    bsi = (if fsi \<noteq> None \<and> 0 < backup \<and> backup + info < reserved
                           then Some (from + of_nat (backup + info)) else None)
                in if rt < 2 \<or> of_nat (bpb_clusters p) + 2 \<le> rt \<or> b_fats p \<le> active
                   then Err ''invalid FAT32 root or active FAT''
                   else Ok (rt, active, mirrored, fsi, bsi)
      else if b_roots p = 0 \<or> rd16 b 22 = 0 then Err ''invalid FAT12/16 BPB''
           else Ok (0, 0, True, None, None))"

text \<open>The checks before the table is read.\<close>

definition probe_check :: "u64 \<Rightarrow> u64 \<Rightarrow> bytes \<Rightarrow> string + (u32 \<times> u8 \<times> bool \<times> u64 option \<times> u64 option)" where
  "probe_check from len b =
     (let p = probe_bpb b; clusters = bpb_clusters p; k = kind_of clusters;
          fat_len = unat (b_fat_sectors p) * 512 in
      if subrange 510 2 b \<noteq> [0x55, 0xaa] \<or> b ! 0 \<notin> {0xeb, 0xe9} \<or> rd16 b 11 \<noteq> 512 \<or> subrange 3 8 b = EXFAT_NAME
      then Err ''not a supported FAT boot sector''
      else if b_spc p = 0 \<or> \<not> is_power_of_two (b_spc p) \<or> 128 < b_spc p \<or> b_reserved p = 0
              \<or> \<not> (1 \<le> b_fats p \<and> b_fats p \<le> 2) \<or> b_fat_sectors p = 0 \<or> unat len < unat (b_total p)
      then Err ''invalid FAT geometry''
      else if unat (b_total p) \<le> bpb_overhead p then Err ''invalid FAT data region''
      else if clusters = 0 \<or> 0x0fffffee < clusters then Err ''invalid FAT cluster count''
      else if fat_len < fat_need k (clusters + 2) \<or> MAX_METADATA < fat_len then Err ''unsupported FAT table size''
      else probe_ext from b p k)"

definition probe_volume :: "u64 \<Rightarrow> bpb \<Rightarrow> (u32 \<times> u8 \<times> bool \<times> u64 option \<times> u64 option) \<Rightarrow> bytes \<Rightarrow> Volume" where
  "probe_volume from p ext table =
     (let (rt, act, mir, fsi, bsi) = ext;
          fl = from + ucast (b_reserved p);
          rl = fl + ucast (b_fats p) * ucast (b_fat_sectors p)
      in \<lparr>kind = kind_of (bpb_clusters p), fat_lba = fl, fat_sectors = b_fat_sectors p, fats = b_fats p,
          active = act, mirrored = mir, data_lba = rl + of_nat (bpb_root_sectors p), spc = ucast (b_spc p),
          clusters = of_nat (bpb_clusters p), root_lba = rl, root_entries = unat (b_roots p), root_cluster = rt,
          fat = table, hint = 2, fsinfo = fsi, backup_fsinfo = bsi, hints_invalid = False, free_count = 0,
          failed = False\<rparr>)"

text \<open>The final loop counts the free clusters.\<close>

fun count_free :: "'z Volume_scheme \<Rightarrow> nat list \<Rightarrow> u32 \<Rightarrow> (string + u32) option" where
  "count_free v [] n = Some (Ok n)"
| "count_free v (c # cs) n =
     (case fat_get v (of_nat c) of
        None \<Rightarrow> None
      | Some (Inl e) \<Rightarrow> Some (Err e)
      | Some (Inr x) \<Rightarrow> count_free v cs (if x = 0 then n + 1 else n))"

definition probe :: "u64 \<Rightarrow> u64 \<Rightarrow> (disk, string, Volume) op" where
  "probe from len =
     andThen (fat_sector from) (\<lambda>b.
     andThen (gets_res (\<lambda>d. Some (probe_check from len b))) (\<lambda>ext.
     let p = probe_bpb b; act = fst (snd ext) in
     andThen (read_run ''FAT read failed''
                (from + ucast (b_reserved p) + ucast act * ucast (b_fat_sectors p)) (unat (b_fat_sectors p))) (\<lambda>table.
     let v = probe_volume from p ext table in
     andThen (gets_res (\<lambda>d. count_free v [2..<bpb_clusters p + 2] 0)) (\<lambda>n. ret (v\<lparr>free_count := n\<rparr>)))))"

section \<open>Partitions\<close>

definition mbr_parts :: "bytes \<Rightarrow> bytes list" where
  "mbr_parts mbr = map (\<lambda>i. subrange (446 + 16 * i) 16 mbr) [0..<4]"

text \<open>The first partition of a list that holds a FAT volume, or the given error.\<close>

fun try_mbr :: "u64 \<Rightarrow> bytes list \<Rightarrow> (disk, string, Volume) op" where
  "try_mbr cap [] = fail ''no supported FAT volume found''"
| "try_mbr cap (part # parts) =
     (let first = ucast (rd32 part 8); len = ucast (rd32 part 12) in
      if part ! 4 = 0 \<or> first = 0 \<or> cap \<le> first \<or> cap - first < len then try_mbr cap parts
      else andThen (attempt (probe first len)) (\<lambda>r. case r of
             Inr v \<Rightarrow> ret v | Inl _ \<Rightarrow> try_mbr cap parts))"

fun try_gpt :: "u64 \<Rightarrow> u64 \<Rightarrow> bytes list \<Rightarrow> (disk, string, Volume) op" where
  "try_gpt lo hi [] = fail ''no supported FAT volume found''"
| "try_gpt lo hi (part # parts) =
     (let first = rd64 part 32; lst = rd64 part 40 in
      if \<forall>b\<in>set (take 16 part). b = 0 then try_gpt lo hi parts
      else if first < lo \<or> hi < lst \<or> lst < first then fail ''invalid GPT partition bounds''
      else andThen (attempt (probe first (lst - first + 1))) (\<lambda>r. case r of
             Inr v \<Rightarrow> ret v | Inl _ \<Rightarrow> try_gpt lo hi parts))"

definition gpt_header_ok :: "bytes \<Rightarrow> string + unit" where
  "gpt_header_ok h =
     (let hlen = unat (rd32 h 12) in
      if take 8 h \<noteq> EFI_PART \<or> \<not> (92 \<le> hlen \<and> hlen \<le> 512) \<or> rd64 h 24 \<noteq> 1 then Err ''invalid GPT header''
      else if crc32 (take hlen (put_at 16 (replicate 4 0) h)) \<noteq> rd32 h 16 then Err ''GPT header checksum mismatch''
      else Ok ())"

definition gpt_layout_ok :: "u64 \<Rightarrow> bytes \<Rightarrow> string + unit" where
  "gpt_layout_ok cap h =
     (let lo = rd64 h 40; hi = rd64 h 48; table = rd64 h 72; count = unat (rd32 h 80); sz = unat (rd32 h 84);
          sectors = (count * sz + 511) div 512 in
      if count = 0 \<or> 256 < count \<or> \<not> (128 \<le> sz \<and> sz \<le> 4096) \<or> sz mod 8 \<noteq> 0 \<or> table < 2 \<or> cap \<le> table
         \<or> hi < lo \<or> cap \<le> hi
      then Err ''unsupported GPT layout''
      else if cap - table < of_nat sectors \<or> lo < table + of_nat sectors then Err ''invalid GPT table bounds''
      else Ok ())"

definition gpt_parts :: "nat \<Rightarrow> nat \<Rightarrow> bytes \<Rightarrow> bytes list" where
  "gpt_parts count sz table = map (\<lambda>i. subrange (sz * i) sz table) [0..<count]"

definition discover_gpt :: "u64 \<Rightarrow> (disk, string, Volume) op" where
  "discover_gpt cap =
     andThen (fat_sector 1) (\<lambda>h.
     andThen (gets_res (\<lambda>d. Some (gpt_header_ok h))) (\<lambda>_.
     andThen (gets_res (\<lambda>d. Some (gpt_layout_ok cap h))) (\<lambda>_.
     let count = unat (rd32 h 80); sz = unat (rd32 h 84) in
     andThen (read_run ''GPT read failed'' (rd64 h 72) ((count * sz + 511) div 512)) (\<lambda>table.
     if crc32 (take (count * sz) table) \<noteq> rd32 h 88 then fail ''GPT partition checksum mismatch''
     else try_gpt (rd64 h 40) (rd64 h 48) (gpt_parts count sz table)))))"

definition discover :: "(disk, string, Volume) op" where
  "discover =
     andThen (gets dk_capacity) (\<lambda>cap.
     if cap = 0 then fail ''no block device''
     else andThen (attempt (probe 0 cap)) (\<lambda>r. case r of
       Inr v \<Rightarrow> ret v
     | Inl _ \<Rightarrow>
         andThen (fat_sector 0) (\<lambda>mbr.
           if subrange 510 2 mbr \<noteq> [0x55, 0xaa] then fail ''no FAT filesystem''
           else if \<exists>p\<in>set (mbr_parts mbr). p ! 4 = 0xee then discover_gpt cap
           else try_mbr cap (mbr_parts mbr))))"

section \<open>The mounted volume\<close>

text \<open>The static \<open>VOLUME\<close> and the device.\<close>

record fat_fs =
  volume :: "Volume option"
  device :: disk

definition fat_mount :: "(fat_fs, string, bool) op" where
  "fat_mount = (\<lambda>f. case discover (device f) of
     None \<Rightarrow> None
   | Some (Inl e, d) \<Rightarrow> Some (Ok False, \<lparr>volume = None, device = d\<rparr>)
   | Some (Inr v, d) \<Rightarrow> Some (Ok True, \<lparr>volume = Some v, device = d\<rparr>))"

definition fat_mounted :: "fat_fs \<Rightarrow> bool" where
  "fat_mounted f \<longleftrightarrow> volume f \<noteq> None"

definition state_of :: "Volume \<Rightarrow> disk \<Rightarrow> fat_state" where
  "state_of v d = Volume.extend v (fat_state.fields d)"

text \<open>\<open>let vol = VOLUME.lock().as_mut().ok_or("not mounted")?\<close>, and the form that returns an \<open>Option\<close>.\<close>

definition with_volume :: "'a fat_op \<Rightarrow> (fat_fs, string, 'a) op" where
  "with_volume m = (\<lambda>f. case volume f of
     None \<Rightarrow> Some (Err ''not mounted'', f)
   | Some v \<Rightarrow> map_option (\<lambda>(r, s). (r, \<lparr>volume = Some (Volume.truncate s), device = blk s\<rparr>)) (m (state_of v (device f))))"

definition ok_opt :: "'a fat_op \<Rightarrow> (fat_fs, string, 'a option) op" where
  "ok_opt m = andThen (attempt (with_volume m)) (\<lambda>r. ret (case r of Inl _ \<Rightarrow> None | Inr a \<Rightarrow> Some a))"

definition fat_read_dir :: "unicode \<Rightarrow> rstr \<Rightarrow> (fat_fs, string, (rstr \<times> bool \<times> u64) list option) op" where
  "fat_read_dir uc path = ok_opt (
     andThen (fat_directory uc path) (\<lambda>dir.
     andThen (fat_load_dir dir) (\<lambda>(_, data).
     andThen (gets kind) (\<lambda>k. ret (map (\<lambda>r. (name r, is_dir r, ucast (size_of r))) (records uc data k))))))"

definition fat_read_file :: "unicode \<Rightarrow> rstr \<Rightarrow> (fat_fs, string, bytes option) op" where
  "fat_read_file uc path = ok_opt (andThen (fat_lookup uc path) (\<lambda>(_, r). fat_data r))"

definition fat_metadata :: "unicode \<Rightarrow> rstr \<Rightarrow> (fat_fs, string, (bool \<times> u64) option) op" where
  "fat_metadata uc path = ok_opt (
     andThen (gets_res fat_check) (\<lambda>_.
     andThen (fat_lookup uc path) (\<lambda>(_, r). ret (is_dir r, ucast (size_of r)))))"

definition fat_directory_id :: "unicode \<Rightarrow> rstr \<Rightarrow> (fat_fs, string, u64 option) op" where
  "fat_directory_id uc path = ok_opt (
     andThen (gets_res fat_check) (\<lambda>_.
     andThen (fat_directory uc path) (\<lambda>dir. ret (ucast (dir_cluster dir)))))"

definition fat_create_file :: "unicode \<Rightarrow> rstr \<Rightarrow> bytes \<Rightarrow> (fat_fs, string, unit) op" where
  "fat_create_file uc path data = with_volume (fat_create uc path data)"

definition fat_write_file :: "unicode \<Rightarrow> rstr \<Rightarrow> bytes \<Rightarrow> (fat_fs, string, unit) op" where
  "fat_write_file uc path data = with_volume (fat_overwrite uc path data)"

definition fat_append_file :: "unicode \<Rightarrow> rstr \<Rightarrow> bytes \<Rightarrow> (fat_fs, string, unit) op" where
  "fat_append_file uc path data = with_volume (fat_append uc path data)"

definition fat_make_dir :: "unicode \<Rightarrow> rstr \<Rightarrow> (fat_fs, string, unit) op" where
  "fat_make_dir uc path = with_volume (fat_mkdir uc path)"

definition fat_remove :: "unicode \<Rightarrow> rstr \<Rightarrow> (fat_fs, string, unit) op" where
  "fat_remove uc path = with_volume (fat_delete uc path)"

end
