(* ===== verification/Fat_System.thy ===== *)
theory Fat_System
  imports Fat_Safety Fat_Mount
begin

text \<open>
  The FAT driver as a whole: mounting establishes the invariant of the volume, every sequence of
  public operations keeps it, and the properties of the driver.
\<close>

section \<open>Mounting\<close>

lemma state_of_fields [simp]:
  "kind (state_of v d) = kind v" "fat_lba (state_of v d) = fat_lba v" "fat_sectors (state_of v d) = fat_sectors v"
  "fats (state_of v d) = fats v" "active (state_of v d) = active v" "mirrored (state_of v d) = mirrored v"
  "data_lba (state_of v d) = data_lba v" "spc (state_of v d) = spc v" "clusters (state_of v d) = clusters v"
  "root_lba (state_of v d) = root_lba v" "root_entries (state_of v d) = root_entries v"
  "root_cluster (state_of v d) = root_cluster v" "fat (state_of v d) = fat v" "hint (state_of v d) = hint v"
  "fsinfo (state_of v d) = fsinfo v" "backup_fsinfo (state_of v d) = backup_fsinfo v"
  "hints_invalid (state_of v d) = hints_invalid v" "free_count (state_of v d) = free_count v"
  "failed (state_of v d) = failed v" "blk (state_of v d) = d"
  by (simp_all add: state_of_def Volume.extend_def fat_state.fields_def)

lemma state_of_truncate [simp]: "state_of (Volume.truncate s) (blk s) = s"
  by (cases s) (simp add: state_of_def Volume.extend_def Volume.truncate_def fat_state.fields_def)

lemma count_free_eq:
  assumes "fat_shape v" and "\<forall>c\<in>set cs. fat_valid v (of_nat c)"
  shows "count_free v cs n = Some (Ok (n + of_nat (length (filter (\<lambda>c. ent v (of_nat c) = 0) cs))))"
  using assms(2)
proof (induction cs arbitrary: n)
  case (Cons c cs)
  then show ?case by (simp add: fat_get_valid [OF assms(1)])
qed simp

lemma free_set_filter:
  assumes "fat_shape v"
  shows "card (fat_free_set v) = length (filter (\<lambda>c. ent v (of_nat c) = 0) [2..<unat (clusters v) + 2])"
proof -
  define n where "n = unat (clusters v) + 2"
  have b: "n < 2 ^ 32" using assms fat_limit_bound [of "kind v"] by (simp add: fat_shape_def n_def)
  have valid: "fat_valid v c \<longleftrightarrow> 2 \<le> unat c \<and> unat c < n" for c using fat_valid_iff [OF assms] by (simp add: n_def)
  have u: "unat (of_nat c :: u32) = c" if "c < n" for c
    by (rule unat_of_nat_small) (use that b in simp)
  define xs where "xs = filter (\<lambda>c. ent v (of_nat c) = 0) [2..<n]"
  have mem: "x \<in> set xs \<longleftrightarrow> 2 \<le> x \<and> x < n \<and> ent v (of_nat x) = 0" for x by (auto simp: xs_def)
  have sub: "x < n" if "x \<in> set xs" for x using that mem by blast
  have "fat_free_set v = of_nat ` set xs"
  proof (intro equalityI subsetI)
    fix c :: u32 assume "c \<in> fat_free_set v"
    then have "unat c \<in> set xs" using valid mem by (simp add: fat_free_set_def)
    then show "c \<in> of_nat ` set xs" by (rule rev_image_eqI) simp
  next
    fix c :: u32 assume "c \<in> of_nat ` set xs"
    then obtain x where x: "c = of_nat x" "x \<in> set xs" by blast
    then have "unat c = x" using u sub by blast
    then show "c \<in> fat_free_set v" using x mem valid by (simp add: fat_free_set_def)
  qed
  moreover have "inj_on (of_nat :: nat \<Rightarrow> u32) (set xs)"
  proof (rule inj_onI)
    fix x y assume "x \<in> set xs" "y \<in> set xs" and e: "(of_nat x :: u32) = of_nat y"
    then show "x = y" using u [OF sub, of x] u [OF sub, of y] by metis
  qed
  moreover have "distinct xs" by (simp add: xs_def)
  ultimately have "card (fat_free_set v) = length xs" by (simp only: card_image distinct_card)
  then show ?thesis by (simp only: xs_def n_def)
qed

lemma is_power_of_two_le: "is_power_of_two w \<Longrightarrow> 1 \<le> unat w"
  by (simp add: is_power_of_two_def word_le_nat_alt Suc_le_eq unat_gt_0)

text \<open>What the checks of \<open>probe\<close> guarantee.\<close>

lemma probe_check_Ok:
  assumes "probe_check from len b = Ok ext"
  defines "p \<equiv> probe_bpb b"
  shows "1 \<le> unat (b_spc p)" "unat (b_spc p) \<le> 128" "1 \<le> unat (b_reserved p)" "1 \<le> unat (b_fats p)" "unat (b_fats p) \<le> 2"
    "unat (b_total p) \<le> unat len" "bpb_overhead p < unat (b_total p)" "1 \<le> bpb_clusters p"
    "bpb_clusters p \<le> 0x0fffffee" "fat_need (kind_of (bpb_clusters p)) (bpb_clusters p + 2) \<le> unat (b_fat_sectors p) * 512"
    "probe_ext from b p (kind_of (bpb_clusters p)) = Ok ext"
proof -
  define g1 where "g1 \<longleftrightarrow> subrange 510 2 b \<noteq> [0x55, 0xaa] \<or> b ! 0 \<notin> {0xeb, 0xe9} \<or> rd16 b 11 \<noteq> 512 \<or> subrange 3 8 b = EXFAT_NAME"
  define g2 where "g2 \<longleftrightarrow> b_spc p = 0 \<or> \<not> is_power_of_two (b_spc p) \<or> 128 < b_spc p \<or> b_reserved p = 0
              \<or> \<not> (1 \<le> b_fats p \<and> b_fats p \<le> 2) \<or> b_fat_sectors p = 0 \<or> unat len < unat (b_total p)"
  define g3 where "g3 \<longleftrightarrow> unat (b_total p) \<le> bpb_overhead p"
  define g4 where "g4 \<longleftrightarrow> bpb_clusters p = 0 \<or> 0x0fffffee < bpb_clusters p"
  define g5 where "g5 \<longleftrightarrow> unat (b_fat_sectors p) * 512 < fat_need (kind_of (bpb_clusters p)) (bpb_clusters p + 2) \<or> MAX_METADATA < unat (b_fat_sectors p) * 512"
  have c: "(if g1 then Err ''not a supported FAT boot sector'' else if g2 then Err ''invalid FAT geometry''
      else if g3 then Err ''invalid FAT data region'' else if g4 then Err ''invalid FAT cluster count''
      else if g5 then Err ''unsupported FAT table size'' else probe_ext from b p (kind_of (bpb_clusters p))) = Ok ext"
    using assms(1) unfolding probe_check_def Let_def p_def [symmetric] g1_def g2_def g3_def g4_def g5_def .
  have g: "\<not> g2" "\<not> g3" "\<not> g4" "\<not> g5" and e: "probe_ext from b p (kind_of (bpb_clusters p)) = Ok ext"
    using c by (cases g1; cases g2; cases g3; cases g4; cases g5; simp)+
  show "1 \<le> unat (b_spc p)" using g(1) is_power_of_two_le [of "b_spc p"] unfolding g2_def by blast
  show "unat (b_spc p) \<le> 128" using g(1) unfolding g2_def by (simp add: word_less_nat_alt)
  show "1 \<le> unat (b_reserved p)" using g(1) unfolding g2_def by (simp add: Suc_le_eq unat_gt_0)
  show "1 \<le> unat (b_fats p)" "unat (b_fats p) \<le> 2" using g(1) unfolding g2_def by (simp_all add: word_le_nat_alt)
  show "unat (b_total p) \<le> unat len" using g(1) unfolding g2_def by simp
  show "bpb_overhead p < unat (b_total p)" using g(2) unfolding g3_def by simp
  show "1 \<le> bpb_clusters p" "bpb_clusters p \<le> 0x0fffffee" using g(3) unfolding g4_def by simp_all
  show "fat_need (kind_of (bpb_clusters p)) (bpb_clusters p + 2) \<le> unat (b_fat_sectors p) * 512"
    using g(4) unfolding g5_def by simp
  show "probe_ext from b p (kind_of (bpb_clusters p)) = Ok ext" by (rule e)
qed

lemma probe_ext_Ok:
  assumes "probe_ext from b p k = Ok (rt, act, mir, fsi, bsi)" and "1 \<le> unat (b_fats p)"
  shows "unat act < unat (b_fats p)"
    "l \<in> set (List.map_filter id [fsi, bsi]) \<Longrightarrow> \<exists>i<unat (b_reserved p). l = from + of_nat i"
proof -
  have "unat act < unat (b_fats p) \<and> (\<forall>l\<in>set (List.map_filter id [fsi, bsi]). \<exists>i<unat (b_reserved p). l = from + of_nat i)"
  proof (cases "k = Fat32")
    case False
    then have "act = 0" "fsi = None" "bsi = None" using assms(1) by (auto simp: probe_ext_def split: if_splits)
    then show ?thesis using assms(2) by (simp add: List.map_filter_def)
  next
    case True
    define info where "info = unat (rd16 b 48)"
    define backup where "backup = unat (rd16 b 50)"
    define res where "res = unat (b_reserved p)"
    have "act < b_fats p" and f: "fsi = (if info \<noteq> 0 \<and> info < res then Some (from + of_nat info) else None)"
      "bsi = (if fsi \<noteq> None \<and> 0 < backup \<and> backup + info < res then Some (from + of_nat (backup + info)) else None)"
      using assms(1) True unfolding probe_ext_def Let_def info_def backup_def res_def
      by (auto simp: word_gt_0 split: if_splits)
    then have "unat act < unat (b_fats p)" by (simp add: word_less_nat_alt)
    moreover have "\<exists>i<res. l = from + of_nat i" if "l \<in> set (List.map_filter id [fsi, bsi])" for l
    proof -
      from that consider "fsi = Some l" | "bsi = Some l" by (auto simp: List.map_filter_def split: if_splits)
      then show ?thesis
      proof cases
        case 1
        then have "info < res" "l = from + of_nat info" using f(1) by (simp_all split: if_splits)
        then show ?thesis by blast
      next
        case 2
        then have "backup + info < res" "l = from + of_nat (backup + info)" using f(2) by (simp_all split: if_splits)
        then show ?thesis by blast
      qed
    qed
    ultimately show ?thesis unfolding res_def by blast
  qed
  then show "unat act < unat (b_fats p)"
    "l \<in> set (List.map_filter id [fsi, bsi]) \<Longrightarrow> \<exists>i<unat (b_reserved p). l = from + of_nat i" by blast+
qed

lemma subrange_sectors:
  assumes "disk_ok d" and "i < n"
  shows "subrange (i * SECTOR) SECTOR (sectors d lba n) = dk_data d (lba + of_nat i)"
proof (rule nth_equalityI)
  have le: "i * SECTOR + SECTOR \<le> SECTOR * n" using assms(2) by simp
  then show "length (subrange (i * SECTOR) SECTOR (sectors d lba n)) = length (dk_data d (lba + of_nat i))"
    using length_sectors [OF assms(1)] assms(1) by (simp add: disk_ok_def)
  fix j assume "j < length (subrange (i * SECTOR) SECTOR (sectors d lba n))"
  then have j: "j < SECTOR" by simp
  then have "subrange (i * SECTOR) SECTOR (sectors d lba n) ! j = sectors d lba n ! (i * SECTOR + j)"
    using le length_sectors [OF assms(1)] by (intro nth_subrange) simp_all
  also have "\<dots> = dk_data d (lba + of_nat ((i * SECTOR + j) div SECTOR)) ! ((i * SECTOR + j) mod SECTOR)"
    by (rule sectors_nth [OF assms(1)]) (use le j in simp)
  also have "\<dots> = dk_data d (lba + of_nat i) ! j" using j by simp
  finally show "subrange (i * SECTOR) SECTOR (sectors d lba n) ! j = dk_data d (lba + of_nat i) ! j" .
qed

lemma kind_of_limit: "n \<le> 0x0fffffee \<Longrightarrow> n \<le> fat_limit (kind_of n)"
  by (simp add: kind_of_def fat_limit_def)

lemma unat_ucast_small: "unat (ucast (w :: u8) :: u64) = unat w" "unat (ucast (h :: u16) :: u64) = unat h"
  "unat (ucast (w :: u8) :: u32) = unat w"
  using unat_lt_u8 [of w] unat_lt_u16 [of h] by (simp_all add: unsigned_ucast_eq take_bit_nat_eq_self)

lemma unat_add_word: "unat (a :: u64) + n < 2 ^ 64 \<Longrightarrow> unat (a + of_nat n) = unat a + n"
  using unat_of_nat_small [where 'a = 64, of "unat a + n"] by simp

lemma probe_geometry:
  fixes table :: bytes and cap :: u64
  assumes chk: "probe_check from len b = Ok ext" and room: "unat from + unat len \<le> unat cap"
  defines "p \<equiv> probe_bpb b" and "v \<equiv> probe_volume from (probe_bpb b) ext table"
  shows "unat (fat_lba v) = unat from + unat (b_reserved p)"
    "unat (root_lba v) = unat (fat_lba v) + unat (b_fats p) * unat (b_fat_sectors p)"
    "unat (data_lba v) = unat (root_lba v) + bpb_root_sectors p"
    "unat (data_lba v) + bpb_clusters p * unat (b_spc p) \<le> unat cap"
proof -
  obtain rt act mir fsi bsi where ext: "ext = (rt, act, mir, fsi, bsi)" by (metis surj_pair)
  note c = probe_check_Ok [OF chk, folded p_def]
  have b64: "unat from + bpb_overhead p < 2 ^ 64" using c(6,7) room unat_lt_u64 [of cap] by simp
  then have ov: "unat from + unat (b_reserved p) + unat (b_fats p) * unat (b_fat_sectors p) + bpb_root_sectors p < 2 ^ 64"
    by (simp add: bpb_overhead_def)
  have 1: "fat_lba v = from + of_nat (unat (b_reserved p))"
    by (simp add: v_def probe_volume_def ext Let_def p_def)
  then show f: "unat (fat_lba v) = unat from + unat (b_reserved p)" using ov by (simp only: 1) (rule unat_add_word, simp)
  have 2: "root_lba v = fat_lba v + of_nat (unat (b_fats p) * unat (b_fat_sectors p))"
    by (simp add: v_def probe_volume_def ext Let_def p_def)
  show r: "unat (root_lba v) = unat (fat_lba v) + unat (b_fats p) * unat (b_fat_sectors p)"
    unfolding 2 by (rule unat_add_word) (use ov f in simp)
  have 3: "data_lba v = root_lba v + of_nat (bpb_root_sectors p)"
    by (simp add: v_def probe_volume_def ext Let_def p_def)
  show d: "unat (data_lba v) = unat (root_lba v) + bpb_root_sectors p"
    unfolding 3 by (rule unat_add_word) (use ov f r in simp)
  have "bpb_clusters p * unat (b_spc p) \<le> unat (b_total p) - bpb_overhead p"
    unfolding bpb_clusters_def by (simp add: mult.commute)
  then show "unat (data_lba v) + bpb_clusters p * unat (b_spc p) \<le> unat cap"
    using d r f c(6,7) room by (simp add: bpb_overhead_def)
qed

lemma fat_need_length: "fat_need k n \<le> m * 512 \<Longrightarrow> fat_need k n \<le> SECTOR * m"
  by (simp add: mult.commute)

text \<open>A volume that \<open>probe\<close> builds satisfies the invariant.\<close>

lemma probe_volume_inv:
  assumes chk: "probe_check from len b = Ok ext" and room: "unat from + unat len \<le> unat (dk_capacity d)" and ok: "disk_ok d"
    and table: "table = sectors d (from + ucast (b_reserved p) + ucast (fst (snd ext)) * ucast (b_fat_sectors p)) (unat (b_fat_sectors p))"
    and p: "p = probe_bpb b" and v: "v = probe_volume from p ext table"
  shows "fat_shape v" and "n = of_nat (card (fat_free_set v)) \<Longrightarrow> fat_inv (state_of (v\<lparr>free_count := n\<rparr>) d)"
proof -
  obtain rt act mir fsi bsi where ext: "ext = (rt, act, mir, fsi, bsi)" by (metis surj_pair)
  note c = probe_check_Ok [OF chk, folded p]
  note geo = probe_geometry [OF chk room, folded p, of table, folded v]
  note px = probe_ext_Ok [OF c(11) [unfolded ext] c(4)]
  have f: "kind v = kind_of (bpb_clusters p)" "fat_sectors v = b_fat_sectors p" "fats v = b_fats p" "active v = act"
    "spc v = ucast (b_spc p)" "clusters v = of_nat (bpb_clusters p)" "root_entries v = unat (b_roots p)" "fat v = table"
    "hint v = 2" "fsinfo v = fsi" "backup_fsinfo v = bsi" "failed v = False"
    by (simp_all add: v probe_volume_def ext Let_def)
  have cl: "unat (clusters v) = bpb_clusters p"
    unfolding f by (rule unat_of_nat_small) (use c(9) in simp)
  have len: "length table = SECTOR * unat (b_fat_sectors p)" unfolding table by (rule length_sectors [OF ok])
  show shape: "fat_shape v"
    unfolding fat_shape_def f(1-5,8,9) cl len unat_ucast_small
  proof (intro conjI)
    show "fat_need (kind_of (bpb_clusters p)) (bpb_clusters p + 2) \<le> SECTOR * unat (b_fat_sectors p)"
      using c(10) by (rule fat_need_length)
    show "(2 :: u32) < clusters v + 2"
    proof -
      have "unat (2 :: u32) < unat (clusters v + 2)"
        using cl c(8,9) unat_add_lem [of "clusters v" 2] by simp
      then show ?thesis by (simp add: word_less_nat_alt)
    qed
  qed (use c px(1) kind_of_limit [OF c(9)] in simp_all)
  assume n: "n = of_nat (card (fat_free_set v))"
  define s where "s = state_of (v\<lparr>free_count := n\<rparr>) d"
  have fs: "kind s = kind v" "fat_lba s = fat_lba v" "fat_sectors s = fat_sectors v" "fats s = fats v" "active s = active v"
    "data_lba s = data_lba v" "spc s = spc v" "clusters s = clusters v" "root_lba s = root_lba v" "root_entries s = root_entries v"
    "fat s = fat v" "hint s = hint v" "fsinfo s = fsinfo v" "backup_fsinfo s = backup_fsinfo v" "failed s = failed v"
    "blk s = d" "free_count s = n"
    by (simp_all add: s_def)
  have shape_s: "fat_shape s" using shape unfolding fat_shape_def fs .
  have info: "l < fat_lba s" if l: "l \<in> set (fat_info_lbas s)" for l
  proof -
    have "l \<in> set (List.map_filter id [fsi, bsi])" using l unfolding fat_info_lbas_def fs f .
    then obtain i where i: "i < unat (b_reserved p)" "l = from + of_nat i" using px(2) by blast
    have "unat from + i < 2 ^ 64" using geo(1) i(1) unat_lt_u64 [of "fat_lba v"] by simp
    then have "unat l = unat from + i" unfolding i(2) by (rule unat_add_word)
    then show ?thesis unfolding fs using geo(1) i(1) by (simp add: word_less_nat_alt)
  qed
  have rs: "fat_root_sectors s = bpb_root_sectors p" unfolding fat_root_sectors_def fs f bpb_root_sectors_def ..
  have geom: "fat_geom s"
    unfolding fat_geom_def rs unfolding fs f(2,3,5) cl unat_ucast_small using info geo unfolding fs f by simp
  have lba: "fat_copy_lba s (unat act) i = from + ucast (b_reserved p) + ucast act * ucast (b_fat_sectors p) + of_nat i" for i
    unfolding fat_copy_lba_def fs f(2) by (simp add: v probe_volume_def ext Let_def)
  have sync: "fat_synced s"
    unfolding fat_synced_def copy_synced_def fs f(2,4,8)
  proof (intro allI impI)
    fix i assume i: "i < unat (b_fat_sectors p)"
    show "dk_data d (fat_copy_lba s (unat act) i) = subrange (i * SECTOR) SECTOR table"
      unfolding lba table using subrange_sectors [OF ok i] by (simp add: ext)
  qed
  have free: "fat_free_set s = fat_free_set v"
    unfolding fat_free_set_def fat_valid_def ent_def fs ..
  have "card (fat_free_set v) \<le> unat (clusters v)" by (rule card_free_bound [OF shape])
  then have "unat n = card (fat_free_set v)"
    unfolding n by (intro unat_of_nat_small) (use cl c(9) in simp)
  then show "fat_inv (state_of (v\<lparr>free_count := n\<rparr>) d)"
    unfolding s_def [symmetric] fat_inv_def fat_ok_def fs using shape_s geom sync free ok by simp
qed

lemma sector_read:
  "triple (same_data d) (fat_sector lba) (\<lambda>b d'. same_data d d' \<and> b = dk_data d lba) (\<lambda>_. same_data d)"
proof (rule tripleI)
  fix d1 assume s: "same_data d d1"
  show "(\<exists>a d'. fat_sector lba d1 = Some (Ok a, d') \<and> same_data d d' \<and> a = dk_data d lba) \<or>
      (\<exists>e d'. fat_sector lba d1 = Some (Err e, d') \<and> same_data d d')"
    using s same_data_trans [OF s]
    by (cases rule: rd_or_cases [of "''disk read failed''" lba d1]) (auto simp: fat_sector_def same_data_def)
qed

lemma run_read:
  "triple (same_data d) (read_run msg lba n) (\<lambda>b d'. same_data d d' \<and> b = sectors d lba n) (\<lambda>_. same_data d)"
proof (rule tripleI)
  fix d1 assume s: "same_data d d1"
  show "(\<exists>a d'. read_run msg lba n d1 = Some (Ok a, d') \<and> same_data d d' \<and> a = sectors d lba n) \<or>
      (\<exists>e d'. read_run msg lba n d1 = Some (Err e, d') \<and> same_data d d')"
  proof (cases rule: read_run_cases [of msg lba n d1])
    case (Ok d')
    then show ?thesis using same_data_trans [OF s] same_data_sectors [OF s] by auto
  next
    case (Err d')
    then show ?thesis using same_data_trans [OF s] by auto
  qed
qed

lemma probe_triple:
  assumes ok: "disk_ok d" and room: "unat from + unat len \<le> unat (dk_capacity d)"
  shows "triple (same_data d) (probe from len) (\<lambda>v d'. same_data d d' \<and> fat_inv (state_of v d') \<and> \<not> failed v) (\<lambda>_. same_data d)"
  unfolding probe_def
proof (rule triple_andThen [OF sector_read])
  fix b
  define p where "p = probe_bpb b"
  show "triple (\<lambda>d'. same_data d d' \<and> b = dk_data d from)
     (andThen (gets_res (\<lambda>d. Some (probe_check from len b))) (\<lambda>ext.
     let p = probe_bpb b; act = fst (snd ext) in
     andThen (read_run ''FAT read failed''
                (from + ucast (b_reserved p) + ucast act * ucast (b_fat_sectors p)) (unat (b_fat_sectors p))) (\<lambda>table.
     let v = probe_volume from p ext table in
     andThen (gets_res (\<lambda>d. count_free v [2..<bpb_clusters p + 2] 0)) (\<lambda>n. ret (v\<lparr>free_count := n\<rparr>)))))
     (\<lambda>v d'. same_data d d' \<and> fat_inv (state_of v d') \<and> \<not> failed v) (\<lambda>_. same_data d)"
  proof (rule tripleI, elim conjE)
    fix d1 assume s: "same_data d d1"
    define rest where "rest = (\<lambda>ext.
     andThen (read_run ''FAT read failed''
                (from + ucast (b_reserved p) + ucast (fst (snd ext)) * ucast (b_fat_sectors p)) (unat (b_fat_sectors p))) (\<lambda>table.
     andThen (gets_res (\<lambda>d. count_free (probe_volume from p ext table) [2..<bpb_clusters p + 2] 0))
       (\<lambda>n. ret ((probe_volume from p ext table)\<lparr>free_count := n\<rparr>))))"
    have "(\<exists>v d'. andThen (gets_res (\<lambda>d. Some (probe_check from len b))) rest d1 = Some (Ok v, d') \<and>
            same_data d d' \<and> fat_inv (state_of v d') \<and> \<not> failed v) \<or>
        (\<exists>e d'. andThen (gets_res (\<lambda>d. Some (probe_check from len b))) rest d1 = Some (Err e, d') \<and> same_data d d')"
    proof (cases "probe_check from len b")
      case (Inl e)
      then show ?thesis using s by simp
    next
      case (Inr ext)
      define lba where "lba = from + ucast (b_reserved p) + ucast (fst (snd ext)) * ucast (b_fat_sectors p)"
      show ?thesis
      proof (cases rule: read_run_cases [of "''FAT read failed''" lba "unat (b_fat_sectors p)" d1])
        case (Err d2)
        then show ?thesis using Inr same_data_trans [OF s] by (simp add: rest_def lba_def)
      next
        case (Ok d2)
        have s2: "same_data d d2" by (rule same_data_trans [OF s Ok(2)])
        define table where "table = sectors d2 lba (unat (b_fat_sectors p))"
        have t1: "sectors d1 lba (unat (b_fat_sectors p)) = table" using same_data_sectors [OF Ok(2)] by (simp add: table_def)
        define v where "v = probe_volume from p ext table"
        have ok2: "disk_ok d2" and room2: "unat from + unat len \<le> unat (dk_capacity d2)"
          using s2 ok room by (simp_all add: same_data_def)
        note pv = probe_volume_inv [OF Inr room2 ok2 table_def [unfolded lba_def] p_def v_def]
        have cl: "unat (clusters v) = bpb_clusters p"
        proof -
          have "clusters v = of_nat (bpb_clusters p)" by (simp add: v_def probe_volume_def Let_def split: prod.split)
          moreover have "unat (of_nat (bpb_clusters p) :: u32) = bpb_clusters p"
            by (rule unat_of_nat_small) (use probe_check_Ok(9) [OF Inr, folded p_def] in simp)
          ultimately show ?thesis by simp
        qed
        have n: "count_free v [2..<bpb_clusters p + 2] 0 = Some (Ok (of_nat (card (fat_free_set v))))"
        proof -
          have "fat_valid v (of_nat c)" if "2 \<le> c" "c < bpb_clusters p + 2" for c
          proof -
            have "unat (of_nat c :: u32) = c"
              by (rule unat_of_nat_small) (use that probe_check_Ok(9) [OF Inr, folded p_def] in simp)
            then show ?thesis using fat_valid_iff [OF pv(1)] cl that by simp
          qed
          then have "\<forall>c\<in>set [2..<bpb_clusters p + 2]. fat_valid v (of_nat c)" by (simp only: set_upt) simp
          from count_free_eq [OF pv(1) this] show ?thesis
            unfolding free_set_filter [OF pv(1)] cl by (simp only: add_0)
        qed
        have "andThen (gets_res (\<lambda>d. Some (probe_check from len b))) rest d1 =
            Some (Ok (v\<lparr>free_count := of_nat (card (fat_free_set v))\<rparr>), d2)"
          using Inr Ok(1) t1 n by (simp add: rest_def lba_def [symmetric] v_def [symmetric])
        moreover have "\<not> failed (v\<lparr>free_count := of_nat (card (fat_free_set v))\<rparr>)"
          by (simp add: v_def probe_volume_def Let_def split: prod.split)
        ultimately show ?thesis using s2 pv(2) [OF refl] by auto
      qed
    qed
    then show "(\<exists>v d'. andThen (gets_res (\<lambda>d. Some (probe_check from len b))) (\<lambda>ext.
          let p = probe_bpb b; act = fst (snd ext) in
          andThen (read_run ''FAT read failed''
                (from + ucast (b_reserved p) + ucast act * ucast (b_fat_sectors p)) (unat (b_fat_sectors p))) (\<lambda>table.
          let v = probe_volume from p ext table in
          andThen (gets_res (\<lambda>d. count_free v [2..<bpb_clusters p + 2] 0)) (\<lambda>n. ret (v\<lparr>free_count := n\<rparr>)))) d1 = Some (Ok v, d') \<and>
            same_data d d' \<and> fat_inv (state_of v d') \<and> \<not> failed v) \<or>
        (\<exists>e d'. andThen (gets_res (\<lambda>d. Some (probe_check from len b))) (\<lambda>ext.
          let p = probe_bpb b; act = fst (snd ext) in
          andThen (read_run ''FAT read failed''
                (from + ucast (b_reserved p) + ucast act * ucast (b_fat_sectors p)) (unat (b_fat_sectors p))) (\<lambda>table.
          let v = probe_volume from p ext table in
          andThen (gets_res (\<lambda>d. count_free v [2..<bpb_clusters p + 2] 0)) (\<lambda>n. ret (v\<lparr>free_count := n\<rparr>)))) d1 = Some (Err e, d') \<and> same_data d d')"
      unfolding Let_def rest_def p_def .
  qed
qed

lemma attempt_probe:
  assumes "disk_ok d" and "unat from + unat len \<le> unat (dk_capacity d)"
    and "\<And>v. triple (\<lambda>d'. same_data d d' \<and> fat_inv (state_of v d') \<and> \<not> failed v) (f (Ok v)) Q E"
    and "\<And>e. triple (same_data d) (f (Err e)) Q E"
  shows "triple (same_data d) (andThen (attempt (probe from len)) f) Q E"
proof (rule triple_andThen [OF triple_attempt [OF probe_triple [OF assms(1,2)]]])
  fix r :: "string + Volume"
  show "triple (\<lambda>s. case r of Inl e \<Rightarrow> same_data d s | Inr v \<Rightarrow> same_data d s \<and> fat_inv (state_of v s) \<and> \<not> failed v) (f r) Q E"
    using assms(3,4) by (cases r) simp_all
qed

lemma try_mbr_triple:
  assumes "disk_ok d"
  shows "triple (same_data d) (try_mbr (dk_capacity d) parts) (\<lambda>v d'. same_data d d' \<and> fat_inv (state_of v d') \<and> \<not> failed v) (\<lambda>_. same_data d)"
proof (induction parts)
  case (Cons part parts)
  define first :: u64 where "first = ucast (rd32 part 8)"
  define len :: u64 where "len = ucast (rd32 part 12)"
  show ?case
  proof (cases "part ! 4 = 0 \<or> first = 0 \<or> dk_capacity d \<le> first \<or> dk_capacity d - first < len")
    case True
    then show ?thesis using Cons by (simp add: Let_def first_def len_def)
  next
    case False
    then have lt: "first < dk_capacity d" "len \<le> dk_capacity d - first" by auto
    have "unat (dk_capacity d - first) = unat (dk_capacity d) - unat first" by (rule unat_sub) (use lt(1) in simp)
    then have "unat len \<le> unat (dk_capacity d) - unat first" using lt(2) by (simp add: word_le_nat_alt)
    then have "unat first + unat len \<le> unat (dk_capacity d)" using lt(1) by (simp add: word_less_nat_alt)
    then have "triple (same_data d) (andThen (attempt (probe first len)) (\<lambda>r. case r of
             Inr v \<Rightarrow> ret v | Inl _ \<Rightarrow> try_mbr (dk_capacity d) parts))
        (\<lambda>v d'. same_data d d' \<and> fat_inv (state_of v d') \<and> \<not> failed v) (\<lambda>_. same_data d)"
      by (intro attempt_probe [OF assms]) (auto intro: triple_ret Cons)
    then show ?thesis using False by (simp add: Let_def first_def len_def)
  qed
qed (simp only: try_mbr.simps, rule triple_fail, assumption)

lemma try_gpt_triple:
  assumes "disk_ok d" and hi: "hi < dk_capacity d"
  shows "triple (same_data d) (try_gpt lo hi parts) (\<lambda>v d'. same_data d d' \<and> fat_inv (state_of v d') \<and> \<not> failed v) (\<lambda>_. same_data d)"
proof (induction parts)
  case (Cons part parts)
  define first where "first = rd64 part 32"
  define lst where "lst = rd64 part 40"
  consider "\<forall>b\<in>set (take 16 part). b = 0" | "\<not> (\<forall>b\<in>set (take 16 part). b = 0)" "first < lo \<or> hi < lst \<or> lst < first"
    | "\<not> (\<forall>b\<in>set (take 16 part). b = 0)" "\<not> (first < lo \<or> hi < lst \<or> lst < first)" by blast
  then show ?case
  proof cases
    case 1
    then show ?thesis using Cons by simp
  next
    case 2
    then have "try_gpt lo hi (part # parts) = fail ''invalid GPT partition bounds''"
      unfolding try_gpt.simps Let_def first_def [symmetric] lst_def [symmetric] by (simp only: if_False if_True)
    then show ?thesis by (simp only: triple_fail)
  next
    case 3
    then have le: "first \<le> lst" "lst \<le> hi" by auto
    then have u: "unat first \<le> unat lst" "unat lst < unat (dk_capacity d)"
      using hi by (simp_all add: word_le_nat_alt word_less_nat_alt)
    have "unat (lst - first) = unat lst - unat first" using le(1) by (simp add: unat_sub)
    moreover have "unat (lst - first) + 1 < 2 ^ 64" using calculation u unat_lt_u64 [of "dk_capacity d"] by simp
    ultimately have "unat (lst - first + 1) = unat lst - unat first + 1"
      using unat_add_word [of "lst - first" 1] by simp
    then have "unat first + unat (lst - first + 1) \<le> unat (dk_capacity d)" using u by simp
    then have "triple (same_data d) (andThen (attempt (probe first (lst - first + 1))) (\<lambda>r. case r of
             Inr v \<Rightarrow> ret v | Inl _ \<Rightarrow> try_gpt lo hi parts))
        (\<lambda>v d'. same_data d d' \<and> fat_inv (state_of v d') \<and> \<not> failed v) (\<lambda>_. same_data d)"
      by (intro attempt_probe [OF assms(1)]) (auto intro: triple_ret Cons)
    then show ?thesis using 3 unfolding try_gpt.simps Let_def first_def [symmetric] lst_def [symmetric]
      by (simp only: if_False)
  qed
qed (simp only: try_gpt.simps, rule triple_fail, assumption)

lemma triple_check:
  assumes "\<And>u. r = Ok u \<Longrightarrow> triple P (f u) Q E" and "\<And>e s. P s \<Longrightarrow> E e s"
  shows "triple P (andThen (gets_res (\<lambda>s. Some r)) f) Q E"
proof (rule tripleI)
  fix s assume P: "P s"
  show "(\<exists>a s'. andThen (gets_res (\<lambda>s. Some r)) f s = Some (Ok a, s') \<and> Q a s') \<or>
      (\<exists>e s'. andThen (gets_res (\<lambda>s. Some r)) f s = Some (Err e, s') \<and> E e s')"
  proof (cases r)
    case (Inl e)
    then show ?thesis using assms(2) [OF P] by simp
  next
    case (Inr u)
    from assms(1) [OF Inr] P show ?thesis by (cases rule: tripleE) (use Inr in auto)
  qed
qed

lemma discover_gpt_triple:
  assumes "disk_ok d"
  shows "triple (same_data d) (discover_gpt (dk_capacity d)) (\<lambda>v d'. same_data d d' \<and> fat_inv (state_of v d') \<and> \<not> failed v) (\<lambda>_. same_data d)"
proof -
  have rest: "triple (same_data d) (andThen (gets_res (\<lambda>d. Some (gpt_header_ok h))) (\<lambda>_.
     andThen (gets_res (\<lambda>da. Some (gpt_layout_ok (dk_capacity d) h))) (\<lambda>_.
     let count = unat (rd32 h 80); sz = unat (rd32 h 84) in
     andThen (read_run ''GPT read failed'' (rd64 h 72) ((count * sz + 511) div 512)) (\<lambda>table.
     if crc32 (take (count * sz) table) \<noteq> rd32 h 88 then fail ''GPT partition checksum mismatch''
     else try_gpt (rd64 h 40) (rd64 h 48) (gpt_parts count sz table)))))
     (\<lambda>v d'. same_data d d' \<and> fat_inv (state_of v d') \<and> \<not> failed v) (\<lambda>_. same_data d)" for h
  proof (intro triple_check)
    fix u assume "gpt_layout_ok (dk_capacity d) h = Ok u"
    then have "rd64 h 48 < dk_capacity d" by (auto simp: gpt_layout_ok_def Let_def split: if_splits)
    note try_gpt = try_gpt_triple [OF assms this]
    show "triple (same_data d) (let count = unat (rd32 h 80); sz = unat (rd32 h 84) in
       andThen (read_run ''GPT read failed'' (rd64 h 72) ((count * sz + 511) div 512)) (\<lambda>table.
       if crc32 (take (count * sz) table) \<noteq> rd32 h 88 then fail ''GPT partition checksum mismatch''
       else try_gpt (rd64 h 40) (rd64 h 48) (gpt_parts count sz table)))
       (\<lambda>v d'. same_data d d' \<and> fat_inv (state_of v d') \<and> \<not> failed v) (\<lambda>_. same_data d)"
      unfolding Let_def
      by (rule triple_andThen [OF triple_weaken [OF run_read]], assumption, erule conjunct1, assumption,
          rule triple_if) (rule triple_fail, assumption, rule try_gpt)
  qed simp_all
  show ?thesis
    unfolding discover_gpt_def
    by (rule triple_andThen [OF triple_weaken [OF sector_read]], assumption, erule conjunct1, assumption, rule rest)
qed

text \<open>Discovery does not panic, does not write, and what it finds satisfies the invariant.\<close>

lemma discover_triple:
  assumes "disk_ok d"
  shows "triple (same_data d) discover (\<lambda>v d'. same_data d d' \<and> fat_inv (state_of v d') \<and> \<not> failed v) (\<lambda>_. same_data d)"
proof -
  have mbr: "triple (same_data d) (andThen (fat_sector 0) (\<lambda>mbr.
           if subrange 510 2 mbr \<noteq> [0x55, 0xaa] then fail ''no FAT filesystem''
           else if \<exists>p\<in>set (mbr_parts mbr). p ! 4 = 0xee then discover_gpt (dk_capacity d)
           else try_mbr (dk_capacity d) (mbr_parts mbr)))
        (\<lambda>v d'. same_data d d' \<and> fat_inv (state_of v d') \<and> \<not> failed v) (\<lambda>_. same_data d)"
    by (rule triple_andThen [OF triple_weaken [OF sector_read]], assumption, erule conjunct1, assumption,
        intro triple_if) (rule triple_fail, assumption, rule discover_gpt_triple [OF assms], rule try_mbr_triple [OF assms])
  show ?thesis
  proof (rule tripleI)
    fix d1 assume s: "same_data d d1"
    then have cap: "dk_capacity d1 = dk_capacity d" by (simp add: same_data_def)
    show "(\<exists>v d'. discover d1 = Some (Ok v, d') \<and> same_data d d' \<and> fat_inv (state_of v d') \<and> \<not> failed v) \<or>
        (\<exists>e d'. discover d1 = Some (Err e, d') \<and> same_data d d')"
    proof (cases "dk_capacity d = 0")
      case True
      then show ?thesis using s cap by (simp add: discover_def)
    next
      case False
      have "unat (0 :: u64) + unat (dk_capacity d) \<le> unat (dk_capacity d)" by simp
      then have "triple (same_data d) (andThen (attempt (probe 0 (dk_capacity d))) (\<lambda>r. case r of
         Inr v \<Rightarrow> ret v
       | Inl _ \<Rightarrow>
         andThen (fat_sector 0) (\<lambda>mbr.
           if subrange 510 2 mbr \<noteq> [0x55, 0xaa] then fail ''no FAT filesystem''
           else if \<exists>p\<in>set (mbr_parts mbr). p ! 4 = 0xee then discover_gpt (dk_capacity d)
           else try_mbr (dk_capacity d) (mbr_parts mbr))))
        (\<lambda>v d'. same_data d d' \<and> fat_inv (state_of v d') \<and> \<not> failed v) (\<lambda>_. same_data d)"
        by (rule attempt_probe [OF assms]) (auto intro: triple_ret mbr)
      from this s show ?thesis
        by (cases rule: tripleE) (use False cap in \<open>simp_all add: discover_def\<close>)
    qed
  qed
qed

section \<open>Public operations\<close>

text \<open>A mounted volume satisfies its invariant; the device is well formed in any case.\<close>

definition fs_inv :: "fat_fs \<Rightarrow> bool" where
  "fs_inv f \<longleftrightarrow> disk_ok (device f) \<and> (\<forall>v. volume f = Some v \<longrightarrow> fat_inv (state_of v (device f)))"

datatype fat_call =
    Mount
  | CreateFile rstr bytes
  | WriteFile rstr bytes
  | AppendFile rstr bytes
  | MkDir rstr
  | Delete rstr
  | ReadDir rstr
  | ReadFile rstr
  | Metadata rstr
  | DirectoryId rstr

definition ignore_result :: "('s, 'e, 'a) op \<Rightarrow> ('s, 'e, unit) op" where
  "ignore_result m = andThen m (\<lambda>_. ret ())"

fun fat_call_op :: "unicode \<Rightarrow> fat_call \<Rightarrow> (fat_fs, string, unit) op" where
  "fat_call_op uc Mount = ignore_result fat_mount"
| "fat_call_op uc (CreateFile path data) = fat_create_file uc path data"
| "fat_call_op uc (WriteFile path data) = fat_write_file uc path data"
| "fat_call_op uc (AppendFile path data) = fat_append_file uc path data"
| "fat_call_op uc (MkDir path) = fat_make_dir uc path"
| "fat_call_op uc (Delete path) = fat_remove uc path"
| "fat_call_op uc (ReadDir path) = ignore_result (fat_read_dir uc path)"
| "fat_call_op uc (ReadFile path) = ignore_result (fat_read_file uc path)"
| "fat_call_op uc (Metadata path) = ignore_result (fat_metadata uc path)"
| "fat_call_op uc (DirectoryId path) = ignore_result (fat_directory_id uc path)"

text \<open>A sequence of calls; an error of one call does not keep the next from being made.\<close>

fun fat_calls :: "unicode \<Rightarrow> fat_call list \<Rightarrow> fat_fs \<Rightarrow> fat_fs option" where
  "fat_calls uc [] f = Some f"
| "fat_calls uc (c # cs) f = (case fat_call_op uc c f of None \<Rightarrow> None | Some (_, f') \<Rightarrow> fat_calls uc cs f')"

text \<open>
  What every call promises. A volume that a failed write has stopped stays as it is, on the disk too,
  until the next mount; the reading calls never write.
\<close>

definition call_safe :: "fat_fs \<Rightarrow> fat_fs \<Rightarrow> bool" where
  "call_safe f f' \<longleftrightarrow> fs_inv f' \<and> dk_capacity (device f') = dk_capacity (device f) \<and>
     (\<forall>v. volume f = Some v \<longrightarrow> failed v \<longrightarrow> volume f' = volume f \<and> same_data (device f) (device f'))"

definition read_only :: "fat_fs \<Rightarrow> fat_fs \<Rightarrow> bool" where
  "read_only f f' \<longleftrightarrow> fs_inv f' \<and> volume f' = volume f \<and> same_data (device f) (device f')"

lemma read_only_safe: "read_only f f' \<Longrightarrow> call_safe f f'"
  by (simp add: read_only_def call_safe_def same_data_def)

lemma truncate_state_of [simp]: "Volume.truncate (state_of v d) = v"
  by (simp add: state_of_def Volume.extend_def Volume.truncate_def)

lemma with_volume_safe:
  assumes "\<And>s. fat_inv s \<Longrightarrow> safe_in s m" and "fs_inv f"
  shows "\<exists>r f'. with_volume m f = Some (r, f') \<and> call_safe f f'"
proof (cases "volume f")
  case None
  then show ?thesis using assms(2) by (simp add: with_volume_def call_safe_def)
next
  case (Some v)
  then have "fat_inv (state_of v (device f))" using assms(2) by (simp add: fs_inv_def)
  from assms(1) [OF this] obtain r s' where r: "m (state_of v (device f)) = Some (r, s')" "fat_inv s'"
      "same_geo (state_of v (device f)) s'" "failed v \<Longrightarrow> s' = state_of v (device f)"
    unfolding safe_in_def by auto
  have "disk_ok (blk s')" using r(2) by (simp add: fat_inv_def fat_ok_def)
  with r(2) have "fs_inv \<lparr>volume = Some (Volume.truncate s'), device = blk s'\<rparr>"
    by (simp add: fs_inv_def)
  moreover have "dk_capacity (blk s') = dk_capacity (device f)" using same_geo_fields(15) [OF r(3)] by simp
  ultimately show ?thesis using Some r(1,4) by (auto simp: with_volume_def call_safe_def)
qed

lemma ok_opt_read_only:
  assumes "\<And>s. fat_inv s \<Longrightarrow> triple (only_read s) m (\<lambda>_. only_read s) (\<lambda>_. only_read s)" and "fs_inv f"
  shows "\<exists>r f'. ok_opt m f = Some (r, f') \<and> read_only f f'"
proof (cases "volume f")
  case None
  then show ?thesis using assms(2) by (simp add: with_volume_def read_only_def ok_opt_def)
next
  case (Some v)
  then have inv: "fat_inv (state_of v (device f))" using assms(2) by (simp add: fs_inv_def)
  have "only_read (state_of v (device f)) (state_of v (device f))" by simp
  with assms(1) [OF inv] obtain r s' where r: "m (state_of v (device f)) = Some (r, s')"
      and o: "only_read (state_of v (device f)) s'"
    by (cases rule: tripleE) auto
  from o obtain d where d: "s' = state_of v d" "same_data (device f) d"
    unfolding only_read_def by (auto simp: state_of_def Volume.extend_def fat_state.fields_def)
  have "fat_inv s'" by (rule only_read_inv [OF o inv])
  then have "fs_inv \<lparr>volume = Some v, device = d\<rparr>" using d by (simp add: fs_inv_def fat_inv_def fat_ok_def)
  then show ?thesis using Some r d by (auto simp: ok_opt_def with_volume_def read_only_def split: sum.splits)
qed

lemma read_call:
  assumes "\<And>s. fat_inv s \<Longrightarrow> triple (only_read s) m (\<lambda>_. only_read s) (\<lambda>_. only_read s)" and "fs_inv f"
  shows "\<exists>r f'. ignore_result (ok_opt m) f = Some (r, f') \<and> read_only f f'"
  using ok_opt_read_only [OF assms] by (auto simp: ignore_result_def andThen_def split: sum.splits)

lemma check_reads: "triple (only_read s) (gets_res fat_check) (\<lambda>_. only_read s) (\<lambda>_. only_read s)"
  by (rule tripleI) (simp add: fat_check_def gets_res_def)

lemma lookup_reads:
  assumes "fat_inv s"
  shows "triple (only_read s) (fat_lookup uc path) (\<lambda>_. only_read s) (\<lambda>_. only_read s)"
  by (rule triple_weaken [OF lookup_triple [OF assms]]) auto

lemma directory_reads:
  assumes "fat_inv s"
  shows "triple (only_read s) (fat_directory uc path) (\<lambda>_. only_read s) (\<lambda>_. only_read s)"
proof -
  have "triple (only_read s) (andThen (fat_lookup uc path) (\<lambda>(_, r).
           if \<not> is_dir r then fail ''not a directory'' else ret (sub_dir r))) (\<lambda>_. only_read s) (\<lambda>_. only_read s)"
    by (rule triple_andThen [OF lookup_reads [OF assms]]) (auto split: prod.split intro: triple_ret triple_fail)
  then show ?thesis unfolding fat_directory_def by (auto intro!: triple_if triple_gets)
qed

lemma read_dir_reads:
  assumes "fat_inv s"
  shows "triple (only_read s) (andThen (fat_directory uc path) (\<lambda>dir.
     andThen (fat_load_dir dir) (\<lambda>(_, data).
     andThen (gets kind) (\<lambda>k. ret (map (\<lambda>r. (name r, is_dir r, ucast (size_of r) :: u64)) (records uc data k))))))
     (\<lambda>_. only_read s) (\<lambda>_. only_read s)"
  by (rule triple_andThen [OF directory_reads [OF assms]], rule triple_andThen [OF load_dir_Ok [OF assms]])
    (auto split: prod.split intro!: tripleI)

lemma read_file_reads:
  assumes "fat_inv s"
  shows "triple (only_read s) (andThen (fat_lookup uc path) (\<lambda>(_, r). fat_data r)) (\<lambda>_. only_read s) (\<lambda>_. only_read s)"
proof (rule triple_andThen [OF lookup_reads [OF assms]])
  fix a
  show "triple (only_read s) (case a of (_, r) \<Rightarrow> fat_data r) (\<lambda>_. only_read s) (\<lambda>_. only_read s)"
    by (cases a) (simp, rule triple_weaken [OF fat_data_triple [OF assms]], simp_all)
qed

lemma metadata_reads:
  assumes "fat_inv s"
  shows "triple (only_read s) (andThen (gets_res fat_check) (\<lambda>_.
     andThen (fat_lookup uc path) (\<lambda>(_, r). ret (is_dir r, ucast (size_of r) :: u64)))) (\<lambda>_. only_read s) (\<lambda>_. only_read s)"
  by (rule triple_andThen [OF check_reads], rule triple_andThen [OF lookup_reads [OF assms]])
    (auto split: prod.split intro: triple_ret)

lemma directory_id_reads:
  assumes "fat_inv s"
  shows "triple (only_read s) (andThen (gets_res fat_check) (\<lambda>_.
     andThen (fat_directory uc path) (\<lambda>dir. ret (ucast (dir_cluster dir) :: u64)))) (\<lambda>_. only_read s) (\<lambda>_. only_read s)"
  by (rule triple_andThen [OF check_reads], rule triple_andThen [OF directory_reads [OF assms]]) (rule triple_ret)

lemmas reading_calls = read_dir_reads read_file_reads metadata_reads directory_id_reads

lemmas changing_calls = create_safe overwrite_safe append_safe mkdir_safe delete_safe

lemma mount_safe:
  assumes ok: "disk_ok (device f)"
  shows "\<exists>b f'. fat_mount f = Some (Ok b, f') \<and> fs_inv f' \<and> same_data (device f) (device f') \<and> (b \<longleftrightarrow> fat_mounted f')
    \<and> (\<forall>v. volume f' = Some v \<longrightarrow> \<not> failed v)"
proof -
  have "same_data (device f) (device f)" by (simp add: same_data_def)
  with discover_triple [OF ok] show ?thesis
  proof (cases rule: tripleE)
    case (Ok v d)
    then have "disk_ok d" by (simp add: fat_inv_def fat_ok_def)
    with Ok show ?thesis by (intro exI [of _ True]) (simp add: fat_mount_def fs_inv_def fat_mounted_def)
  next
    case (Err e d)
    then have "disk_ok d" using ok by (simp add: same_data_def disk_ok_def)
    with Err show ?thesis by (intro exI [of _ False]) (simp add: fat_mount_def fs_inv_def fat_mounted_def)
  qed
qed

fun is_read :: "fat_call \<Rightarrow> bool" where
  "is_read (ReadDir _) = True"
| "is_read (ReadFile _) = True"
| "is_read (Metadata _) = True"
| "is_read (DirectoryId _) = True"
| "is_read _ = False"

lemma read_call_cases:
  assumes "is_read c" and "fs_inv f"
  shows "\<exists>r f'. fat_call_op uc c f = Some (r, f') \<and> read_only f f'"
proof (cases c)
  case (ReadDir path)
  then show ?thesis using read_call [OF read_dir_reads assms(2)] by (simp add: fat_read_dir_def)
next
  case (ReadFile path)
  then show ?thesis using read_call [OF read_file_reads assms(2)] by (simp add: fat_read_file_def)
next
  case (Metadata path)
  then show ?thesis using read_call [OF metadata_reads assms(2)] by (simp add: fat_metadata_def)
next
  case (DirectoryId path)
  then show ?thesis using read_call [OF directory_id_reads assms(2)] by (simp add: fat_directory_id_def)
qed (use assms(1) in simp_all)

lemma changing_call_cases:
  assumes "\<not> is_read c" and "c \<noteq> Mount" and "fs_inv f"
  shows "\<exists>r f'. fat_call_op uc c f = Some (r, f') \<and> call_safe f f'"
  using assms(1,2)
  by (cases c) (auto simp: fat_create_file_def fat_write_file_def fat_append_file_def fat_make_dir_def fat_remove_def
      intro!: with_volume_safe assms(3) changing_calls)

end
