(* ===== verification/Fat_Theorems.thy ===== *)
theory Fat_Theorems
  imports Fat_System
begin

text \<open>
  The properties of the FAT driver, with a small FAT12 volume as the concrete input of their
  witnesses: eight sectors, one table sector, sixteen root entries in one sector and five clusters
  of one sector each.
\<close>

section \<open>A small volume\<close>

definition demo_table :: bytes where
  "demo_table = [0xf8, 0xff, 0xff] @ replicate 509 0"

definition demo_disk :: disk where
  "demo_disk = \<lparr>dk_capacity = 8, dk_data = (\<lambda>l. if l = 1 then demo_table else replicate 512 0),
     dk_outcomes = [], dk_failed = False\<rparr>"

definition demo_fat :: fat_state where
  "demo_fat = \<lparr>kind = Fat12, fat_lba = 1, fat_sectors = 1, fats = 1, active = 0, mirrored = True, data_lba = 3,
     spc = 1, clusters = 5, root_lba = 2, root_entries = 16, root_cluster = 0, fat = demo_table, hint = 2,
     fsinfo = None, backup_fsinfo = None, hints_invalid = False, free_count = 5, failed = False, blk = demo_disk\<rparr>"

definition ascii_case :: unicode where
  "ascii_case = \<lparr>to_upper = (\<lambda>c. [ascii_upper c]), to_lower = (\<lambda>c. [c])\<rparr>"

lemma demo_fields [simp]:
  "kind demo_fat = Fat12" "fat_sectors demo_fat = 1" "fats demo_fat = 1" "active demo_fat = 0" "clusters demo_fat = 5"
  "root_entries demo_fat = 16" "root_lba demo_fat = 2" "fat_lba demo_fat = 1" "data_lba demo_fat = 3" "spc demo_fat = 1"
  "fat demo_fat = demo_table" "hint demo_fat = 2" "failed demo_fat = False" "blk demo_fat = demo_disk"
  "free_count demo_fat = 5" "fsinfo demo_fat = None" "backup_fsinfo demo_fat = None" "root_cluster demo_fat = 0"
  "reliable demo_disk" "dk_capacity demo_disk = 8"
  by (simp_all add: demo_fat_def demo_disk_def reliable_def)

lemma demo_table_length [simp]: "length demo_table = 512"
  by (simp add: demo_table_def)

lemma demo_shape: "fat_shape demo_fat"
  by (simp add: fat_shape_def fat_need_def fat_limit_def)

lemma demo_drop: "drop (3 + m) demo_table = replicate (509 - m) 0"
proof -
  have "drop (3 + m) demo_table = drop m (drop 3 demo_table)" by (simp add: drop_drop add.commute)
  also have "drop 3 demo_table = replicate 509 0" by (simp add: demo_table_def)
  finally show ?thesis by simp
qed

lemma demo_ent: "fat_valid demo_fat c \<Longrightarrow> ent demo_fat c = 0"
proof -
  assume "fat_valid demo_fat c"
  then have c: "2 \<le> unat c" "unat c < 7" using fat_valid_iff [OF demo_shape] by auto
  define n where "n = unat c"
  have "rd16 demo_table m = 0" if "3 \<le> m" "m \<le> 510" for m
  proof -
    have "drop m demo_table = replicate (512 - m) 0" using demo_drop [of "m - 3"] that by simp
    then have "subrange m 2 demo_table = [0, 0]" using that by (simp add: subrange_def numeral_2_eq_2)
    then show ?thesis by (simp add: rd16_def)
  qed
  then have "entry Fat12 demo_table n = 0" using c by (simp add: entry_def n_def)
  then show ?thesis by (simp add: ent_def n_def)
qed

lemma demo_free: "card (fat_free_set demo_fat) = 5"
proof -
  have "fat_free_set demo_fat = {c. fat_valid demo_fat c}" using demo_ent by (auto simp: fat_free_set_def)
  then show ?thesis using valid_card [OF demo_shape] by simp
qed

lemma demo_inv: "fat_inv demo_fat"
proof -
  have "fat_geom demo_fat"
    by (simp add: fat_geom_def fat_root_sectors_def fat_info_lbas_def List.map_filter_simps)
  moreover have "disk_ok demo_disk" by (simp add: disk_ok_def demo_disk_def)
  moreover have "subrange 0 512 demo_table = demo_table" by (simp add: subrange_def)
  then have "fat_synced demo_fat" by (simp add: fat_synced_def copy_synced_def fat_copy_lba_def) (simp add: demo_disk_def)
  ultimately show ?thesis using demo_shape demo_free by (simp add: fat_inv_def fat_ok_def)
qed

lemma demo_root: "dir_at demo_fat (fat_root demo_fat) [] (replicate 512 0)"
proof -
  have "dk_data demo_disk (dir_lba demo_fat (fat_root demo_fat) [] (j div 512)) ! (j mod 512) = 0" if "j < 512" for j
    using that by (simp add: dir_lba_def fixed_root_def fat_root_def) (simp add: demo_disk_def)
  then show ?thesis by (simp add: dir_at_def dir_shape_def fixed_root_def fat_root_def)
qed

lemma demo_records [simp]: "records uc (replicate 512 0) k = []"
  using records_zeros [of "[]" uc 16 k] by (simp add: records_def)

lemma demo_chunks: "chunks32 (replicate 512 0) = replicate 16 (replicate 32 0)"
  using chunks32_zeros [of "[]" 16] by simp

lemma demo_tidy: "tidy_dir (replicate 512 0)"
proof -
  have run: "ltotal (lfn_run i (replicate n (replicate 32 0)) st) = 0" if "ltotal st = 0" for i n st
    using that by (induction n arbitrary: i st) (simp_all add: lfn_clear_def)
  then show ?thesis
    unfolding tidy_dir_def parser_at_def demo_chunks take_replicate by (simp add: lfn_init_def)
qed

section \<open>Creating and reading back\<close>

lemma created_reads:
  assumes inv: "fat_inv s'" and geo: "same_geo s s'" and cr: "created uc s dir nm data s'"
  shows "reads s' (andThen (fat_walk uc dir [nm]) (\<lambda>(_, r). fat_data r)) data"
proof -
  obtain cs' dd' R1 R2 r where at: "dir_at s' dir cs' dd'" and rs: "records uc dd' (kind s) = R1 @ r # R2"
      and new: "\<forall>r0\<in>set (R1 @ R2). \<not> matches uc nm r0" and r: "name r = nm" "file_at s' r data"
    using cr unfolding created_def by metis
  have nf: "\<not> failed s'" using r(2) by (auto simp: file_at_def fat_chain_def)
  have "matches uc nm r" using r(1) by (simp add: matches_def same_def)
  moreover have "find (matches uc nm) (R1 @ r # R2) = find (matches uc nm) (r # R2)" using new by (induction R1) simp_all
  ultimately have "find (matches uc nm) (records uc dd' (kind s')) = Some r"
    using rs same_geo_fields(1) [OF geo] by simp
  then have "reads s' (fat_find uc dir nm) (Some r)" using find_reads [OF inv nf at, of uc nm] by simp
  then have "reads s' (fat_walk uc dir [nm]) (dir, r)"
    unfolding fat_walk.simps by (rule reads_andThen) (simp add: reads_def)
  then show ?thesis by (rule reads_andThen) (simp add: fat_data_reads [OF inv r(2)])
qed

text \<open>
  C16. Creating a file on a reliable device succeeds whenever the parent directory is there, the name
  is valid and new, an alias and enough directory slots are free, and the contents fit the file limit
  and the free clusters. The directory then has exactly one more record, of that name and size; every
  chain that is not part of the directory keeps its clusters and its bytes; and looking the name up and
  reading the file returns the bytes that were given.
\<close>

theorem create_then_read:
  assumes "fat_inv s" and "\<not> failed s" and "reliable (blk s)"
    and "fat_parent uc path s = Some (Ok (dir, nm), s0)" and "dir_at s dir cs dd"
    and "name_ok nm" and "tidy_dir dd" and "\<forall>r\<in>set (records uc dd (kind s)). \<not> matches uc nm r"
    and "short_name nm (records uc dd (kind s)) = Ok sh"
    and "free_slots dd (lfn_count uc nm sh + 1) = Some off"
    and "length data \<le> MAX_FILE" and "(length data + fat_bytes s - 1) div fat_bytes s \<le> card (fat_free_set s)"
  shows "\<exists>s'. fat_create uc path data s = Some (Ok (), s') \<and> fat_inv s' \<and> created uc s dir nm data s'
    \<and> reads s' (andThen (fat_walk uc dir [nm]) (\<lambda>(_, r). fat_data r)) data"
proof -
  have vn: "valid_name nm" using assms(6) by (simp add: name_ok_def)
  obtain s' where r: "fat_create uc path data s = Some (Ok (), s')"
    using create_succeeds [OF assms(1-5) vn assms(8-12)] by blast
  have "\<forall>cs' dd'. dir_at s dir cs' dd' \<longrightarrow> tidy_dir dd'"
    using dir_at_unique [OF _ assms(5)] assms(1,7) by (metis fat_inv_def fat_ok_def)
  then have "fat_inv s' \<and> same_geo s s' \<and> created uc s dir nm data s'"
    using create_cases [OF assms(1), of uc path data] r assms(4,6) by auto
  then show ?thesis using r created_reads by blast
qed

theorem create_then_read_witness:
  "\<exists>s'. fat_create ascii_case [0x41] [1, 2, 3] demo_fat = Some (Ok (), s') \<and> fat_inv s'
    \<and> reads s' (andThen (fat_walk ascii_case (fat_root demo_fat) [[0x41]]) (\<lambda>(_, r). fat_data r)) [1, 2, 3]"
proof -
  have parent: "fat_parent ascii_case [0x41] demo_fat = Some (Ok (fat_root demo_fat, [0x41]), demo_fat)"
    by (simp add: fat_parent_def components_def components_step_def)
  have nm: "name_ok [0x41]" by code_simp
  have sh: "short_name [0x41] [] = Ok (0x41 # replicate 10 0x20)" by code_simp
  have count: "lfn_count ascii_case [0x41] (0x41 # replicate 10 0x20) = 0" by code_simp
  have slots: "free_slots (replicate 512 0) 1 = Some 0"
    unfolding free_slots_def demo_chunks by (simp add: numeral_eq_Suc)
  have "\<exists>s'. fat_create ascii_case [0x41] [1, 2, 3] demo_fat = Some (Ok (), s') \<and> fat_inv s'
    \<and> created ascii_case demo_fat (fat_root demo_fat) [0x41] [1, 2, 3] s'
    \<and> reads s' (andThen (fat_walk ascii_case (fat_root demo_fat) [[0x41]]) (\<lambda>(_, r). fat_data r)) [1, 2, 3]"
    by (rule create_then_read [where off = 0 and sh = "0x41 # replicate 10 0x20", OF demo_inv _ _ parent demo_root nm demo_tidy])
      (use sh count slots demo_free in \<open>simp_all add: MAX_FILE_def fat_bytes_def\<close>)
  then show ?thesis by blast
qed

section \<open>Every sequence of calls\<close>

lemma call_cases:
  assumes "fs_inv f"
  obtains r f' where "fat_call_op uc c f = Some (r, f')" "fs_inv f'" "dk_capacity (device f') = dk_capacity (device f)"
    "c = Mount \<or> call_safe f f'" "is_read c \<longrightarrow> read_only f f'"
proof (cases "c = Mount")
  case True
  have "disk_ok (device f)" using assms by (simp add: fs_inv_def)
  from mount_safe [OF this] obtain b f' where "fat_mount f = Some (Ok b, f')" "fs_inv f'" "same_data (device f) (device f')" by blast
  then show ?thesis using True by (intro that [of "Ok ()" f']) (simp_all add: ignore_result_def same_data_def)
next
  case False
  show ?thesis
  proof (cases "is_read c")
    case True
    from read_call_cases [OF True assms] obtain r f' where "fat_call_op uc c f = Some (r, f')" "read_only f f'" by blast
    then show ?thesis using read_only_safe [of f f'] by (intro that [of r f']) (auto simp: call_safe_def)
  next
    case r: False
    from changing_call_cases [OF r False assms] obtain r f' where "fat_call_op uc c f = Some (r, f')" "call_safe f f'" by blast
    then show ?thesis using r by (intro that [of r f']) (auto simp: call_safe_def)
  qed
qed

lemma call_safe_trans:
  assumes "call_safe f f'" and "call_safe f' f''"
  shows "call_safe f f''"
  using assms by (auto simp: call_safe_def intro: same_data_trans)

lemma read_only_trans: "read_only f f' \<Longrightarrow> read_only f' f'' \<Longrightarrow> read_only f f''"
  by (auto simp: read_only_def intro: same_data_trans)

lemma call_safe_refl: "fs_inv f \<Longrightarrow> call_safe f f"
  by (simp add: call_safe_def)

lemma read_only_refl: "fs_inv f \<Longrightarrow> read_only f f"
  by (simp add: read_only_def)

text \<open>
  C17. Whatever the device does, any sequence of driver calls returns: no index is out of range, no
  division is by zero, every loop ends. The in-memory table stays the contents of the active table on
  the disk and the free count stays the number of free clusters. Once a write has failed the volume
  and the disk stay as they are until the next mount, and calls that only read change nothing.
\<close>

theorem fat_calls_keep_volume:
  assumes "fs_inv f"
  shows "\<exists>f'. fat_calls uc calls f = Some f' \<and> fs_inv f' \<and> dk_capacity (device f') = dk_capacity (device f)
    \<and> (Mount \<in> set calls \<or> call_safe f f') \<and> (list_all is_read calls \<longrightarrow> read_only f f')"
  using assms
proof (induction calls arbitrary: f)
  case Nil
  then show ?case by (simp add: call_safe_refl read_only_refl)
next
  case (Cons c cs)
  from Cons.prems obtain r f1 where c: "fat_call_op uc c f = Some (r, f1)" "fs_inv f1"
      "dk_capacity (device f1) = dk_capacity (device f)" "c = Mount \<or> call_safe f f1" "is_read c \<longrightarrow> read_only f f1"
    by (rule call_cases [where uc = uc and c = c])
  from Cons.IH [OF c(2)] obtain f' where f': "fat_calls uc cs f1 = Some f'" "fs_inv f'"
      "dk_capacity (device f') = dk_capacity (device f1)" "Mount \<in> set cs \<or> call_safe f1 f'"
      "list_all is_read cs \<longrightarrow> read_only f1 f'" by blast
  have "Mount \<in> set (c # cs) \<or> call_safe f f'" using c(4) f'(4) call_safe_trans by auto
  moreover have "list_all is_read (c # cs) \<longrightarrow> read_only f f'" using c(5) f'(5) read_only_trans by auto
  ultimately show ?case using c f' by simp
qed

definition demo_fs :: fat_fs where
  "demo_fs = \<lparr>volume = Some (Volume.truncate demo_fat), device = demo_disk\<lparr>dk_outcomes := [Done, Fault True None]\<rparr>\<rparr>"

lemma demo_fs_inv: "fs_inv demo_fs"
proof -
  have "state_of (Volume.truncate demo_fat) (demo_disk\<lparr>dk_outcomes := [Done, Fault True None]\<rparr>)
      = demo_fat\<lparr>blk := demo_disk\<lparr>dk_outcomes := [Done, Fault True None]\<rparr>\<rparr>" (is "?l = ?r")
    by (simp add: state_of_def Volume.extend_def Volume.truncate_def fat_state.fields_def demo_fat_def)
  moreover have "fat_inv ?r"
    using demo_inv
    by (simp add: fat_inv_def fat_ok_def fat_shape_def fat_geom_def fat_info_lbas_def fat_root_sectors_def fat_synced_def
        copy_synced_def fat_copy_lba_def fat_free_set_def fat_valid_def ent_def disk_ok_def outcome_ok_def)
  moreover have "disk_ok (demo_disk\<lparr>dk_outcomes := [Done, Fault True None]\<rparr>)"
    by (simp add: disk_ok_def outcome_ok_def demo_disk_def)
  ultimately show ?thesis by (simp add: fs_inv_def demo_fs_def)
qed

theorem fat_calls_keep_volume_witness:
  "\<exists>f'. fat_calls ascii_case [ReadDir [], CreateFile [0x41] [1], Mount, ReadFile [0x41]] demo_fs = Some f' \<and> fs_inv f'"
  using fat_calls_keep_volume [OF demo_fs_inv] by blast

text \<open>
  C18. Mounting never panics and never writes. It reports success exactly when a volume is mounted, and
  the volume it finds, on the whole device or in an MBR or GPT partition, has all its regions inside
  the device, a table with an entry for every cluster, and the right free count.
\<close>

theorem mount_establishes_invariant:
  assumes "disk_ok (device f)"
  shows "\<exists>b f'. fat_mount f = Some (Ok b, f') \<and> fs_inv f' \<and> same_data (device f) (device f') \<and> (b = fat_mounted f')
    \<and> (case volume f' of None \<Rightarrow> True | Some v \<Rightarrow> \<not> failed v \<and> fat_inv (state_of v (device f')))"
  using mount_safe [OF assms] by (fastforce simp: fs_inv_def split: option.split)

theorem mount_establishes_invariant_witness:
  "\<exists>b f'. fat_mount demo_fs = Some (Ok b, f') \<and> fs_inv f'"
  using mount_establishes_invariant [of demo_fs] demo_fs_inv by (auto simp: fs_inv_def)

section \<open>The table\<close>

text \<open>
  C22. The entry that \<open>get\<close> returns for a cluster is the bit field of the table at the cluster's
  position: 12, 16 or 28 bits, 12, 16 or 32 bits apart, the same definition for the three kinds.
\<close>

theorem fat_get_is_packed_field:
  assumes "fat_shape v" and "fat_valid v c"
  shows "\<exists>w. fat_get v c = Some (Ok w) \<and>
    (\<forall>i. bit w i = (i < fat_width (kind v) \<and> tbit (fat v) (fat_stride (kind v) * unat c + i)))"
  using fat_get_valid [OF assms] entry_bit [OF valid_entry_in [OF assms]] by (simp add: ent_def)

theorem fat_get_is_packed_field_witness:
  "\<exists>w. fat_get demo_fat 2 = Some (Ok w) \<and> (\<forall>i. bit w i = (i < 12 \<and> tbit demo_table (24 + i)))"
  using fat_get_is_packed_field [OF demo_shape, of 2] by (simp add: fat_valid_def fat_width_def fat_stride_def)

text \<open>
  C21. Setting an entry stores the value there, keeps every other entry and every sector outside the
  tables and the information sectors, and keeps in step with memory every table copy that was. It
  fails only when the device does, and then the volume stops.
\<close>

theorem fat_set_changes_one_entry:
  assumes "fat_ok s" and "\<not> failed s" and "fat_valid s c" and "take_bit (fat_width (kind s)) val = val"
  shows "(\<exists>s'. fat_set c val s = Some (Ok (), s') \<and> fat_get s' c = Some (Ok val)
      \<and> (\<forall>c'. c' \<noteq> c \<longrightarrow> fat_get s' c' = fat_get s c') \<and> keeps_data s s'
      \<and> (\<forall>copy\<in>set (fat_copies s). copy_synced s copy \<longrightarrow> copy_synced s' copy)) \<or>
    (\<exists>e s'. fat_set c val s = Some (Err e, s') \<and> failed s' \<and> \<not> reliable (blk s) \<and> keeps_data s s')"
proof -
  have sh: "fat_shape s" using assms(1) by (simp add: fat_ok_def)
  from fat_set_triple [OF assms(1-3)] refl show ?thesis
  proof (cases rule: tripleE [where m = "fat_set c val"])
    case (Ok u s')
    note e = entry_updated_ents [OF Ok(2) sh assms(3)]
    have k: "keeps_data s s'" and t: "puts (kind s) (fat s) (unat c) val (fat s')"
      and cp: "\<forall>copy\<in>set (fat_copies s). copy_synced s copy \<longrightarrow> copy_synced s' copy"
      using Ok(2) by (auto simp: entry_updated_def)
    have g: "same_geo s s'" using k by (simp add: keeps_data_def)
    have v: "fat_valid s' = fat_valid s" and kd: "kind s' = kind s" using same_geo_defs(3) [OF g] same_geo_fields(1) [OF g] by simp_all
    have len: "length (fat s') = length (fat s)" using t by (simp add: puts_def)
    have get: "fat_get s' x = Some (Ok (ent s' x))" if "fat_valid s x" for x
      using fat_get_in [of s' x] valid_entry_in [OF sh that] that by (simp add: v kd len)
    have "fat_get s' c' = fat_get s c'" if "c' \<noteq> c" for c'
    proof (cases "fat_valid s c'")
      case True
      then show ?thesis using get e(2) that fat_get_valid [OF sh] by simp
    next
      case False
      then show ?thesis using fat_get_invalid [of s c'] fat_get_invalid [of s' c'] v by simp
    qed
    then show ?thesis using Ok(1) get [OF assms(3)] e(1) assms(4) k cp by simp
  next
    case (Err e s')
    then show ?thesis by (auto simp: broken_def)
  qed
qed

theorem fat_set_changes_one_entry_witness:
  "\<exists>s'. fat_set 2 0xfff demo_fat = Some (Ok (), s') \<and> fat_get s' 2 = Some (Ok 0xfff)"
proof -
  have "fat_ok demo_fat" using demo_inv by (simp add: fat_inv_def)
  moreover have "take_bit 12 (0xfff :: u32) = 0xfff" by code_simp
  ultimately show ?thesis using fat_set_changes_one_entry [of demo_fat 2 "0xfff"] by (auto simp: fat_valid_def fat_width_def)
qed

text \<open>
  C20. Following a chain always ends. It succeeds exactly on a list of distinct valid clusters of at most
  the given length that starts at the given cluster, each entry naming the next one and the last one an
  end mark; cycles, free clusters and clusters out of range are errors.
\<close>

theorem fat_chain_follows_links:
  assumes "fat_shape v"
  shows "fat_chain v first mx \<noteq> None \<and>
    (failed v \<or> first = 0 \<or> (\<forall>cs. (fat_chain v first mx = Some (Ok cs)) = (is_chain v cs \<and> hd cs = first \<and> length cs \<le> mx)))"
  using fat_chain_total [OF assms] fat_chain_Ok_iff [OF assms] by blast

definition demo_linked :: fat_state where
  "demo_linked = demo_fat\<lparr>fat := put_at 3 [0x03, 0xf0, 0xff] demo_table\<rparr>"

theorem fat_chain_follows_links_witness: "fat_chain demo_linked 2 10 = Some (Ok [2, 3])"
proof -
  have t: "put_at 3 [0x03, 0xf0, 0xff] demo_table = [0xf8, 0xff, 0xff, 0x03, 0xf0, 0xff] @ replicate 506 0"
    by (simp add: put_at_def demo_table_def)
  have sh: "fat_shape demo_linked" using demo_shape by (simp add: demo_linked_def fat_shape_def)
  have r: "rd16 (put_at 3 [0x03, 0xf0, 0xff] demo_table) 3 = from_le [0x03, 0xf0]"
      "rd16 (put_at 3 [0x03, 0xf0, 0xff] demo_table) 4 = from_le [0xf0, 0xff]"
    unfolding t by (simp_all add: rd16_def subrange_def)
  have w: "ucast (from_le [0x03, 0xf0] :: u16) AND (0xfff :: u32) = 3" "drop_bit 4 (ucast (from_le [0xf0, 0xff] :: u16)) = (0xfff :: u32)"
    by code_simp+
  have "ent demo_linked 2 = 3" "ent demo_linked 3 = 0xfff"
    unfolding ent_def demo_linked_def using w by (simp_all add: entry_def r)
  then have "is_chain demo_linked [2, 3]"
    by (simp add: is_chain_def fat_is_eof_def fat_eof_def demo_linked_def fat_valid_def)
  then show ?thesis using fat_chain_follows_links [OF sh, of 2 10] by (simp add: demo_linked_def)
qed

text \<open>
  C19. On a reliable device with enough free clusters, allocating a chain and then freeing it both
  succeed and leave every table entry, the free count and all data as they were; in between the chain
  consists of clusters that were free, linked in order.
\<close>

theorem allocate_free_roundtrip:
  assumes inv: "fat_inv s" and nf: "\<not> failed s" and rel: "reliable (blk s)"
    and count: "0 < count" "count \<le> card (fat_free_set s)" "count \<le> MAX_FILE div fat_bytes s + 1"
  shows "\<exists>sel s1 s2. fat_allocate count s = Some (Ok sel, s1) \<and> length sel = count \<and> set sel \<subseteq> fat_free_set s
    \<and> is_chain s1 sel \<and> fat_free (hd sel) s1 = Some (Ok (), s2) \<and> fat_inv s2
    \<and> (\<forall>c. fat_valid s c \<longrightarrow> ent s2 c = ent s c) \<and> free_count s2 = free_count s \<and> keeps_data s s2"
proof -
  obtain sel s1 where r1: "fat_allocate count s = Some (Ok sel, s1)" and al: "allocated s count sel s1"
    using fat_allocate_triple [OF inv nf count(1)] rel count(2) by auto
  have a: "length sel = count" "set sel \<subseteq> fat_free_set s" "fat_inv s1" "\<not> failed s1" "keeps_data s s1" "reliable (blk s1)"
    using al rel by (auto simp: allocated_def)
  have sh1: "fat_shape s1" using a(3) by (simp add: fat_inv_def fat_ok_def)
  have ch: "is_chain s1 sel" by (rule allocated_chain [OF inv al count(1)])
  have g: "same_geo s s1" using a(5) by (simp add: keeps_data_def)
  have v: "fat_valid s1 = fat_valid s" by (rule same_geo_defs(3) [OF g])
  have "sel \<noteq> []" using a(1) count(1) by auto
  then have "hd sel \<in> fat_free_set s" using a(2) hd_in_set by blast
  then have "fat_valid s (hd sel)" by (simp add: fat_free_set_def)
  then have "hd sel \<noteq> 0" by (auto simp: fat_valid_def)
  then have c: "fat_chain s1 (hd sel) (MAX_FILE div fat_bytes s1 + 1) = Some (Ok sel)"
    using fat_chain_Ok_iff [OF sh1 a(4)] ch a(1) count(3) same_geo_defs(4) [OF g] by simp
  obtain s2 where r2: "fat_free (hd sel) s1 = Some (Ok (), s2)" and rl: "released s1 sel s2"
    using fat_free_correct [OF a(3,4) c] a(6) by blast
  have k: "keeps_data s s2" using keeps_data_trans [OF a(5)] rl by (auto simp: released_def)
  have e: "ent s2 x = ent s x" if "fat_valid s x" for x
    using rl al that v a(2) by (auto simp: released_def allocated_def fat_free_set_def)
  have g2: "same_geo s s2" using k by (simp add: keeps_data_def)
  have "fat_free_set s2 = fat_free_set s" using e same_geo_defs(3) [OF g2] by (auto simp: fat_free_set_def)
  then have "free_count s2 = free_count s"
    using inv nf rl by (auto simp: fat_inv_def released_def word_unat_eq_iff)
  then show ?thesis using r1 r2 a(1,2) ch k e rl by (auto simp: released_def)
qed

theorem allocate_free_roundtrip_witness:
  "\<exists>sel s1 s2. fat_allocate 2 demo_fat = Some (Ok sel, s1) \<and> length sel = 2 \<and> fat_free (hd sel) s1 = Some (Ok (), s2)
    \<and> free_count s2 = 5"
  using allocate_free_roundtrip [OF demo_inv, of 2] demo_free by (fastforce simp: MAX_FILE_def fat_bytes_def)

section \<open>Directory entries\<close>

text \<open>
  C23. The entries written for a name, followed by unused slots, read back as one record with the
  name, alias, attributes, first cluster and size that were written, for every valid name of scalar
  values up to 255 UTF-16 units, whether it needs long-name entries or not.
\<close>

theorem entry_set_roundtrip:
  assumes nm: "name_ok nm" and sh: "short_wf sh" and fits: "first_fits k first" and at: "att \<noteq> 0x0f" "att AND 8 = 0"
  shows "records uc (entry_set uc nm sh first sz att k @ replicate (32 * m) 0) k =
    [\<lparr>name = nm, alias_of = short_alias uc sh 0, short = sh, attr = att, cluster = first, size_of = sz,
      offset = lfn_count uc nm sh * 32, start = 0\<rparr>]"
proof -
  have ok: "short_ok uc sh" by (rule short_wf_ok [OF sh])
  have len: "\<forall>e\<in>set (set_entries uc nm sh first sz att k). length e = 32"
    using set_entries_length [OF nm] sh by (auto simp: short_wf_def)
  have dvd: "32 dvd length (entry_set uc nm sh first sz att k)"
    using length_entry_set [of nm sh] nm sh by (simp add: name_ok_def short_wf_def)
  have "records uc (entry_set uc nm sh first sz att k) k = records_loop uc k 0 (set_entries uc nm sh first sz att k @ []) lfn_init"
    unfolding records_def entry_set_concat chunks32_concat [OF len] by simp
  also obtain st where "\<dots> = new_record uc nm sh first sz att 0 # records_loop uc k (Suc (0 + lfn_count uc nm sh)) [] (lfn_clear st)"
    using records_set [OF nm ok fits at, of lfn_init 0 sz "[]"] by (auto simp: long_name_def lfn_init_def)
  finally show ?thesis using records_zeros [OF dvd, of uc m k] by (simp add: new_record_def)
qed

theorem entry_set_roundtrip_witness:
  "records ascii_case (entry_set ascii_case [0x61, 0x2e, 0x20ac] (0x41 # replicate 10 0x20) 5 100 0x20 Fat16 @ replicate (32 * 2) 0) Fat16 =
    [\<lparr>name = [0x61, 0x2e, 0x20ac], alias_of = [0x41], short = 0x41 # replicate 10 0x20, attr = 0x20, cluster = 5, size_of = 100,
      offset = 32, start = 0\<rparr>]"
proof -
  have "name_ok [0x61, 0x2e, 0x20ac]" by code_simp
  moreover have "short_wf (0x41 # replicate 10 0x20)" by code_simp
  moreover have "first_fits Fat16 5" by (simp add: first_fits_def)
  moreover have "short_alias ascii_case (0x41 # replicate 10 0x20) 0 = [0x41]" by code_simp
  moreover have "lfn_count ascii_case [0x61, 0x2e, 0x20ac] (0x41 # replicate 10 0x20) = 1" by code_simp
  moreover have "(0x20 :: u8) AND 8 = 0" by code_simp
  ultimately show ?thesis
    using entry_set_roundtrip [of "[0x61, 0x2e, 0x20ac]" "0x41 # replicate 10 0x20" Fat16 5 "0x20" ascii_case 100 2] by simp
qed

lemma short_search_None:
  "short_search clean ext used n = None \<Longrightarrow> n \<le> i \<Longrightarrow> i < 1000000 \<Longrightarrow> short_numbered clean ext i \<in> set used"
proof (induction clean ext used n rule: short_search.induct)
  case (1 clean ext used number)
  show ?case
  proof (cases "i = number")
    case True
    then show ?thesis using "1.prems" by (subst (asm) short_search.simps) (auto split: if_splits)
  next
    case False
    then have "\<not> 1000000 \<le> number" "Suc number \<le> i" using "1.prems" by simp_all
    moreover have "short_numbered clean ext number \<in> set used" "short_search clean ext used (Suc number) = None"
      using "1.prems"(1) \<open>\<not> 1000000 \<le> number\<close> by (subst (asm) short_search.simps, simp split: if_splits)+
    ultimately show ?thesis using "1.IH" "1.prems"(3) by simp
  qed
qed

text \<open>
  C24. The 8.3 alias chosen for a name is eleven printable bytes without a dot, does not begin like a free
  slot, and differs from every alias in the directory. No alias is found only when all of the numbered
  aliases from 1 to 999999 are taken.
\<close>

theorem short_name_fresh:
  "case short_name nm existing of
     Inr sh \<Rightarrow> short_wf sh \<and> list_all (\<lambda>r. short r \<noteq> sh) existing
   | Inl e \<Rightarrow> short_numbered (map short_char (filter (\<lambda>c. c \<noteq> 0x20 \<and> c \<noteq> 0x2e) (fst (base_ext nm)))) (snd (base_ext nm))
        ` {1..999999} \<subseteq> short ` set existing"
proof (cases "short_name nm existing")
  case (Inl e)
  then have "short_search (map short_char (filter (\<lambda>c. c \<noteq> 0x20 \<and> c \<noteq> 0x2e) (fst (base_ext nm)))) (snd (base_ext nm))
      (map short existing) 1 = None"
    by (auto simp: short_name_def Let_def split: prod.splits if_splits option.splits)
  from short_search_None [OF this] show ?thesis using Inl by auto
next
  case (Inr sh)
  then show ?thesis using short_name_correct [OF Inr] by (simp add: list_all_iff)
qed

end
