(* ===== verification/Exfat.thy ===== *)
theory Exfat
  imports Block_Device Byte_Slots
begin

text \<open>
  The exFAT driver (\<open>src/fs/exfat.rs\<close>): the volume geometry, sector and cluster access, the FAT, the
  allocation bitmap, directories and their entry sets, path resolution, mounting and the public
  operations.

  The driver keeps nothing but the geometry in memory, so the state of an operation is the device.
  A function that returns \<open>bool\<close> or \<open>Option\<close> is an operation with error type \<open>unit\<close> (\<open>false\<close> and
  \<open>None\<close> are \<open>Err ()\<close>), one that returns \<open>Result<_, &str>\<close> has error type \<open>string\<close>. A \<open>&str\<close> is the
  list of its bytes. Integers keep their width where the code computes with what it read from the
  disk; \<open>usize\<close> values that count bytes in memory are natural numbers. Console output is left out.
\<close>

section \<open>Volume\<close>

record ExVolume =
  sectors_per_cluster :: u32
  ex_fat_lba :: u64
  heap_lba :: u64
  cluster_count :: u32
  ex_root_cluster :: u32
  bitmap_cluster :: u32
  bitmap_bytes :: u64

definition ET_FILE :: u8 where "ET_FILE = 0x85"
definition ET_BITMAP :: u8 where "ET_BITMAP = 0x81"
definition ET_STREAM :: u8 where "ET_STREAM = 0xc0"
definition ET_NAME :: u8 where "ET_NAME = 0xc1"
definition ET_IN_USE :: u8 where "ET_IN_USE = 0x80"
definition FLAG_ALLOC_POSSIBLE :: u8 where "FLAG_ALLOC_POSSIBLE = 1"
definition FLAG_NO_FAT_CHAIN :: u8 where "FLAG_NO_FAT_CHAIN = 2"
definition ATTR_DIRECTORY :: u16 where "ATTR_DIRECTORY = 0x10"
definition ATTR_ARCHIVE :: u16 where "ATTR_ARCHIVE = 0x20"
definition FAT_EOF :: u32 where "FAT_EOF = 0xffffffff"
definition TIMESTAMP :: u32 where
  "TIMESTAMP = push_bit 25 (2026 - 1980) OR push_bit 21 7 OR push_bit 16 17 OR push_bit 11 8"

definition ex_cluster_bytes :: "ExVolume \<Rightarrow> nat" where
  "ex_cluster_bytes v = unat (sectors_per_cluster v) * SECTOR"

definition ex_cluster_lba :: "ExVolume \<Rightarrow> u32 \<Rightarrow> u64" where
  "ex_cluster_lba v c = heap_lba v + (ucast c - 2) * ucast (sectors_per_cluster v)"

section \<open>Sectors, FAT entries and clusters\<close>

type_synonym 'a ex_try = "(disk, unit, 'a) op"

definition ex_read_sector :: "u64 \<Rightarrow> bytes ex_try" where
  "ex_read_sector lba = rd_or () lba"

definition ex_write_sector :: "u64 \<Rightarrow> bytes \<Rightarrow> unit ex_try" where
  "ex_write_sector lba data = (\<lambda>d. case dk_write lba data d of
     (True, d') \<Rightarrow> Some (Ok (), d')
   | (False, d') \<Rightarrow> Some (Err (), d'))"

definition le16 :: "bytes \<Rightarrow> nat \<Rightarrow> u16" where "le16 b n = from_le (subrange n 2 b)"
definition le32 :: "bytes \<Rightarrow> nat \<Rightarrow> u32" where "le32 b n = from_le (subrange n 4 b)"
definition le64 :: "bytes \<Rightarrow> nat \<Rightarrow> u64" where "le64 b n = from_le (subrange n 8 b)"

definition ex_fat_read :: "ExVolume \<Rightarrow> u32 \<Rightarrow> u32 ex_try" where
  "ex_fat_read v c =
     (let byte_off = ucast c * 4 in
      andThen (ex_read_sector (ex_fat_lba v + byte_off div 512)) (\<lambda>buf.
      ret (le32 buf (unat (byte_off mod 512)))))"

definition ex_fat_write :: "ExVolume \<Rightarrow> u32 \<Rightarrow> u32 \<Rightarrow> unit ex_try" where
  "ex_fat_write v c val =
     (let byte_off = ucast c * 4; lba = ex_fat_lba v + byte_off div 512; off = unat (byte_off mod 512) in
      andThen (ex_read_sector lba) (\<lambda>buf. ex_write_sector lba (put_at off (to_le 4 val) buf)))"

text \<open>Every caller passes a buffer of one cluster.\<close>

definition ex_read_cluster :: "ExVolume \<Rightarrow> u32 \<Rightarrow> bytes ex_try" where
  "ex_read_cluster v c = read_run () (ex_cluster_lba v c) (unat (sectors_per_cluster v))"

definition ex_sector_of :: "bytes \<Rightarrow> nat \<Rightarrow> bytes" where
  "ex_sector_of data s =
     (let from = s * SECTOR;
          part = (if from < length data then subrange from (min (length data - from) SECTOR) data else [])
      in part @ replicate (SECTOR - length part) 0)"

definition ex_write_cluster :: "ExVolume \<Rightarrow> u32 \<Rightarrow> bytes \<Rightarrow> unit ex_try" where
  "ex_write_cluster v c data =
     for_each (\<lambda>s. ex_write_sector (ex_cluster_lba v c + of_nat s) (ex_sector_of data s))
       [0..<unat (sectors_per_cluster v)]"

definition ex_zero_cluster :: "ExVolume \<Rightarrow> u32 \<Rightarrow> unit ex_try" where
  "ex_zero_cluster v c = ex_write_cluster v c []"

section \<open>Checksums and names\<close>

definition entry_set_checksum :: "bytes \<Rightarrow> u16" where
  "entry_set_checksum es =
     foldl (\<lambda>sum (i, b). if i = 2 \<or> i = 3 then sum else word_rotr 1 sum + ucast b) 0 (enumerate 0 es)"

definition name_hash :: "u16 list \<Rightarrow> u16" where
  "name_hash units = foldl (\<lambda>sum b. word_rotr 1 sum + ucast (b :: u8)) 0 (concat (map (to_le 2) units))"

definition to_ascii_uppercase :: "u8 \<Rightarrow> u8" where
  "to_ascii_uppercase b = (if 0x61 \<le> b \<and> b \<le> 0x7a then b - 0x20 else b)"

definition names_equal_ascii :: "bytes \<Rightarrow> bytes \<Rightarrow> bool" where
  "names_equal_ascii a b \<longleftrightarrow> length a = length b \<and>
     (\<forall>(x, y)\<in>set (zip a b). to_ascii_uppercase x = to_ascii_uppercase y)"

section \<open>Cluster chains\<close>

text \<open>The loop \<open>for _ in 0..=cluster_count\<close> that follows FAT entries.\<close>

fun ex_walk :: "ExVolume \<Rightarrow> nat \<Rightarrow> u32 \<Rightarrow> u32 list \<Rightarrow> u32 list ex_try" where
  "ex_walk v 0 c chain = ret chain"
| "ex_walk v (Suc n) c chain =
     andThen (ex_fat_read v c) (\<lambda>next.
     if next < 2 \<or> next = FAT_EOF \<or> cluster_count v + 1 < next then ret (chain @ [c])
     else ex_walk v n next (chain @ [c]))"

definition ex_contiguous :: "ExVolume \<Rightarrow> u32 \<Rightarrow> u64 \<Rightarrow> u32 list" where
  "ex_contiguous v first len =
     (let cbytes = of_nat (ex_cluster_bytes v); n = ucast ((len + cbytes - 1) div cbytes) :: u32
      in map of_nat [unat first..<unat (first + n)])"

definition collect_chain :: "ExVolume \<Rightarrow> u32 \<Rightarrow> bool \<Rightarrow> u64 \<Rightarrow> u32 list ex_try" where
  "collect_chain v first no_fat_chain len =
     (if first < 2 then ret []
      else if no_fat_chain then ret (ex_contiguous v first len)
      else ex_walk v (unat (cluster_count v) + 1) first [])"

section \<open>Allocation bitmap\<close>

datatype ex_scan = Scanning nat nat | Found nat | Ended

text \<open>One bit of the search: the run so far starts at \<open>rs\<close> and has \<open>rl\<close> free clusters.\<close>

fun ex_scan_bit :: "nat \<Rightarrow> nat \<Rightarrow> bytes \<Rightarrow> nat \<Rightarrow> ex_scan \<Rightarrow> nat \<Rightarrow> ex_scan" where
  "ex_scan_bit bits count buf s (Scanning rs rl) i =
     (let n = s * SECTOR * 8 + i in
      if bits \<le> n then Ended
      else if \<not> bit (buf ! (i div 8)) (i mod 8)
           then let rs' = (if rl = 0 then n else rs) in
                if rl + 1 = count then Found rs' else Scanning rs' (rl + 1)
           else Scanning rs 0)"
| "ex_scan_bit bits count buf s st i = st"

fun ex_search :: "ExVolume \<Rightarrow> nat \<Rightarrow> nat list \<Rightarrow> ex_scan \<Rightarrow> ex_scan ex_try" where
  "ex_search v count (s # ss) (Scanning rs rl) =
     andThen (ex_read_sector (ex_cluster_lba v (bitmap_cluster v) + of_nat s)) (\<lambda>buf.
     ex_search v count ss (foldl (ex_scan_bit (unat (cluster_count v)) count buf s) (Scanning rs rl) [0..<SECTOR * 8]))"
| "ex_search v count ss st = ret st"

definition ex_bitmap_sectors :: "ExVolume \<Rightarrow> nat" where
  "ex_bitmap_sectors v = unat ((bitmap_bytes v + 511) div 512)"

text \<open>The sector a cluster's bit is in, loaded after the previous one is written back.\<close>

definition ex_bitmap_load :: "ExVolume \<Rightarrow> (nat \<times> bytes) option \<Rightarrow> nat \<Rightarrow> bytes ex_try" where
  "ex_bitmap_load v loaded sector =
     (let lba = ex_cluster_lba v (bitmap_cluster v) in
      case loaded of
        None \<Rightarrow> ex_read_sector (lba + of_nat sector)
      | Some (prev, buf) \<Rightarrow>
          if prev = sector then ret buf
          else andThen (ex_write_sector (lba + of_nat prev) buf) (\<lambda>_. ex_read_sector (lba + of_nat sector)))"

definition ex_bitmap_put :: "bool \<Rightarrow> nat \<Rightarrow> bytes \<Rightarrow> bytes" where
  "ex_bitmap_put allocated n buf =
     (let i = (n mod (SECTOR * 8)) div 8; mask = push_bit (n mod 8) 1
      in buf[i := if allocated then buf ! i OR mask else buf ! i AND NOT mask])"

fun ex_bitmap_loop :: "ExVolume \<Rightarrow> bool \<Rightarrow> u32 list \<Rightarrow> (nat \<times> bytes) option \<Rightarrow> unit ex_try" where
  "ex_bitmap_loop v allocated [] loaded =
     (case loaded of
        None \<Rightarrow> ret ()
      | Some (prev, buf) \<Rightarrow> ex_write_sector (ex_cluster_lba v (bitmap_cluster v) + of_nat prev) buf)"
| "ex_bitmap_loop v allocated (c # cs) loaded =
     (if c < 2 then ex_bitmap_loop v allocated cs loaded
      else let n = unat (c - 2); sector = n div (SECTOR * 8) in
           andThen (ex_bitmap_load v loaded sector) (\<lambda>buf.
           ex_bitmap_loop v allocated cs (Some (sector, ex_bitmap_put allocated n buf))))"

definition bitmap_set :: "ExVolume \<Rightarrow> u32 list \<Rightarrow> bool \<Rightarrow> unit ex_try" where
  "bitmap_set v clusters allocated = ex_bitmap_loop v allocated (sort clusters) None"

definition bitmap_alloc :: "ExVolume \<Rightarrow> nat \<Rightarrow> u32 ex_try" where
  "bitmap_alloc v count =
     andThen (ex_search v count [0..<ex_bitmap_sectors v] (Scanning 0 0)) (\<lambda>st.
     case st of
       Found start_bit \<Rightarrow>
         andThen (bitmap_set v (map (\<lambda>i. of_nat (start_bit + i) + 2) [0..<count]) True) (\<lambda>_.
         ret (of_nat start_bit + 2))
     | _ \<Rightarrow> fail ())"

text \<open>Failures while freeing are ignored.\<close>

definition ex_ignore :: "unit ex_try \<Rightarrow> (disk, 'e, unit) op" where
  "ex_ignore m = andThen (attempt m) (\<lambda>_. ret ())"

definition free_clusters :: "ExVolume \<Rightarrow> u32 \<Rightarrow> bool \<Rightarrow> u64 \<Rightarrow> (disk, 'e, unit) op" where
  "free_clusters v first no_fat_chain len =
     andThen (attempt (collect_chain v first no_fat_chain len)) (\<lambda>r. case r of
       Inl _ \<Rightarrow> ret ()
     | Inr chain \<Rightarrow>
         if chain = [] then ret ()
         else andThen (ex_ignore (bitmap_set v chain False)) (\<lambda>_.
              if no_fat_chain then ret () else for_each (\<lambda>c. ex_ignore (ex_fat_write v c 0)) chain))"

section \<open>Directories\<close>

record DirRef =
  dr_first :: u32
  dr_no_fat_chain :: bool
  dr_length :: u64
  is_root :: bool

record DirFile =
  df_name :: bytes
  df_attributes :: u16
  df_first :: u32
  df_length :: u64
  df_no_fat_chain :: bool
  set_offset :: nat
  set_count :: nat

definition df_is_dir :: "DirFile \<Rightarrow> bool" where
  "df_is_dir f \<longleftrightarrow> df_attributes f AND ATTR_DIRECTORY \<noteq> 0"

definition ex_load_dir :: "ExVolume \<Rightarrow> DirRef \<Rightarrow> (u32 list \<times> bytes) ex_try" where
  "ex_load_dir v dir =
     andThen (collect_chain v (dr_first dir) (dr_no_fat_chain dir) (dr_length dir)) (\<lambda>chain.
     if chain = [] then fail ()
     else andThen (map_each (ex_read_cluster v) chain) (\<lambda>cs. ret (chain, concat cs)))"

text \<open>
  The touched sectors of one cluster of a loaded directory, and the clusters of a byte range. The
  range is not empty in any call; an index outside the chain or the data panics.
\<close>

definition store_cluster :: "ExVolume \<Rightarrow> u32 list \<Rightarrow> bytes \<Rightarrow> nat \<Rightarrow> nat \<Rightarrow> nat \<Rightarrow> unit ex_try" where
  "store_cluster v chain data first len ci =
     andThen (gets_opt (\<lambda>d. idx chain ci)) (\<lambda>cluster.
     let cbytes = ex_cluster_bytes v;
         cl_start = ci * cbytes;
         touch_start = max first cl_start;
         touch_end = min (first + len) (cl_start + cbytes);
         first_sec = (touch_start - cl_start) div SECTOR;
         last_sec = (touch_end - 1 - cl_start) div SECTOR
     in for_each (\<lambda>s.
          andThen (gets_opt (\<lambda>d. if cl_start + s * SECTOR + SECTOR \<le> length data
                                  then Some (subrange (cl_start + s * SECTOR) SECTOR data) else None)) (\<lambda>buf.
          ex_write_sector (ex_cluster_lba v cluster + of_nat s) buf)) [first_sec..<last_sec + 1])"

definition store_dir_range :: "ExVolume \<Rightarrow> u32 list \<Rightarrow> bytes \<Rightarrow> nat \<Rightarrow> nat \<Rightarrow> unit ex_try" where
  "store_dir_range v chain data first len =
     (let cbytes = ex_cluster_bytes v in
      for_each (store_cluster v chain data first len) [first div cbytes..<(first + len - 1) div cbytes + 1])"

definition ex_push_char :: "bytes \<Rightarrow> u16 \<Rightarrow> bytes" where
  "ex_push_char nm c = (if c \<noteq> 0 \<and> length nm < 255 then nm @ [if c < 0x80 then ucast c else 0x3f] else nm)"

definition ex_secondary :: "bytes \<Rightarrow> DirFile \<Rightarrow> DirFile" where
  "ex_secondary e df =
     (if e ! 0 = ET_STREAM
      then df\<lparr>df_no_fat_chain := (e ! 1 AND FLAG_NO_FAT_CHAIN \<noteq> 0), df_first := le32 e 20, df_length := le64 e 24\<rparr>
      else if e ! 0 = ET_NAME
      then df\<lparr>df_name := foldl ex_push_char (df_name df) (map (\<lambda>i. le16 e (2 + 2 * i)) [0..<15])\<rparr>
      else df)"

fun parse_loop :: "nat \<Rightarrow> bytes list \<Rightarrow> DirFile option \<Rightarrow> u8 \<Rightarrow> DirFile list" where
  "parse_loop i [] current left = []"
| "parse_loop i (e # es) current left =
     (if e ! 0 = 0 then []
      else if e ! 0 = ET_FILE
      then parse_loop (Suc i) es (Some \<lparr>df_name = [], df_attributes = le16 e 4, df_first = 0, df_length = 0,
             df_no_fat_chain = False, set_offset = i * 32, set_count = 1 + unat (e ! 1)\<rparr>) (e ! 1)
      else if e ! 0 AND ET_IN_USE \<noteq> 0 \<and> current \<noteq> None
      then let df = ex_secondary e (the current) in
           if left = 0 then parse_loop (Suc i) es (Some df) 0
           else if left = 1 then df # parse_loop (Suc i) es None 0
           else parse_loop (Suc i) es (Some df) (left - 1)
      else parse_loop (Suc i) es None 0)"

definition parse_entries :: "bytes \<Rightarrow> DirFile list" where
  "parse_entries data = parse_loop 0 (chunks32 data) None 0"

section \<open>Paths\<close>

definition root_ref :: "ExVolume \<Rightarrow> DirRef" where
  "root_ref v = \<lparr>dr_first = ex_root_cluster v, dr_no_fat_chain = False, dr_length = 0, is_root = True\<rparr>"

definition dir_ref_of :: "DirFile \<Rightarrow> DirRef" where
  "dir_ref_of f = \<lparr>dr_first = df_first f, dr_no_fat_chain = df_no_fat_chain f, dr_length = df_length f, is_root = False\<rparr>"

definition ex_components :: "bytes \<Rightarrow> bytes list" where
  "ex_components path = filter (\<lambda>c. c \<noteq> []) (split_on (\<lambda>c. c = 0x2f) path)"

fun ex_resolve :: "ExVolume \<Rightarrow> DirRef \<Rightarrow> bytes list \<Rightarrow> DirRef ex_try" where
  "ex_resolve v cur [] = ret cur"
| "ex_resolve v cur (part # parts) =
     andThen (ex_load_dir v cur) (\<lambda>(_, data).
     case find (\<lambda>f. df_is_dir f \<and> names_equal_ascii (df_name f) part) (parse_entries data) of
       None \<Rightarrow> fail ()
     | Some f \<Rightarrow> ex_resolve v (dir_ref_of f) parts)"

definition resolve_parent :: "ExVolume \<Rightarrow> bytes \<Rightarrow> (DirRef \<times> bytes) ex_try" where
  "resolve_parent v path =
     (let comps = ex_components path in
      if comps = [] then fail ()
      else andThen (ex_resolve v (root_ref v) (butlast comps)) (\<lambda>cur. ret (cur, last comps)))"

definition ex_lookup :: "ExVolume \<Rightarrow> bytes \<Rightarrow> (DirRef \<times> DirFile) ex_try" where
  "ex_lookup v path =
     andThen (resolve_parent v path) (\<lambda>(parent, nm).
     andThen (ex_load_dir v parent) (\<lambda>(_, data).
     case find (\<lambda>f. names_equal_ascii (df_name f) nm) (parse_entries data) of
       None \<Rightarrow> fail ()
     | Some f \<Rightarrow> ret (parent, f)))"

section \<open>Mounting\<close>

text \<open>
  The scan of the root directory for the allocation bitmap; the flag says that the end marker was
  reached. The volume label, which is only printed, is left out.
\<close>

fun root_entries_scan :: "ExVolume \<Rightarrow> bytes list \<Rightarrow> ExVolume \<times> bool" where
  "root_entries_scan v [] = (v, False)"
| "root_entries_scan v (e # es) =
     (if e ! 0 = 0 then (v, True)
      else if e ! 0 = ET_BITMAP then root_entries_scan (v\<lparr>bitmap_cluster := le32 e 20, bitmap_bytes := le64 e 24\<rparr>) es
      else root_entries_scan v es)"

fun root_scan :: "ExVolume \<Rightarrow> u32 list \<Rightarrow> ExVolume ex_try" where
  "root_scan v [] = ret v"
| "root_scan v (c # cs) =
     andThen (attempt (ex_read_cluster v c)) (\<lambda>r. case r of
       Inl _ \<Rightarrow> ret v
     | Inr buf \<Rightarrow> let (v', fin) = root_entries_scan v (chunks32 buf) in if fin then ret v' else root_scan v' cs)"

definition ex_geometry :: "bytes \<Rightarrow> ExVolume" where
  "ex_geometry bs = \<lparr>sectors_per_cluster = push_bit (unat (bs ! 109) mod 32) 1, ex_fat_lba = ucast (le32 bs 80),
     heap_lba = ucast (le32 bs 88), cluster_count = le32 bs 92, ex_root_cluster = le32 bs 96,
     bitmap_cluster = 0, bitmap_bytes = 0\<rparr>"

definition EXFAT_SIG :: bytes where
  "EXFAT_SIG = [0x45, 0x58, 0x46, 0x41, 0x54, 0x20, 0x20, 0x20]"

definition ex_find_volume :: "ExVolume ex_try" where
  "ex_find_volume =
     andThen (gets (\<lambda>d. \<not> dk_failed d \<and> dk_capacity d \<noteq> 0)) (\<lambda>available.
     if \<not> available then fail ()
     else andThen (ex_read_sector 0) (\<lambda>bs.
     if subrange 3 8 bs \<noteq> EXFAT_SIG \<or> bs ! 510 \<noteq> 0x55 \<or> bs ! 511 \<noteq> 0xaa then fail ()
     else if bs ! 108 \<noteq> 9 then fail ()
     else let v = ex_geometry bs in
          andThen (collect_chain v (ex_root_cluster v) False 0) (\<lambda>chain.
          andThen (root_scan v chain) (\<lambda>v.
          if bitmap_cluster v < 2 then fail () else ret v))))"

section \<open>Reading a file\<close>

fun ex_read_clusters :: "ExVolume \<Rightarrow> u32 list \<Rightarrow> nat \<Rightarrow> bytes \<Rightarrow> bytes ex_try" where
  "ex_read_clusters v [] remaining data = ret data"
| "ex_read_clusters v (c # cs) remaining data =
     (if remaining = 0 then ret data
      else andThen (ex_read_cluster v c) (\<lambda>buf.
           let n = min remaining (ex_cluster_bytes v)
           in ex_read_clusters v cs (remaining - n) (data @ take n buf)))"

definition read_file_inner :: "ExVolume \<Rightarrow> DirFile \<Rightarrow> bytes ex_try" where
  "read_file_inner v f =
     (if df_length f = 0 then ret []
      else andThen (collect_chain v (df_first f) (df_no_fat_chain f) (df_length f)) (\<lambda>chain.
           if length chain * ex_cluster_bytes v < unat (df_length f) then fail ()
           else ex_read_clusters v chain (unat (df_length f)) []))"

section \<open>Entry sets\<close>

definition file_entry :: "u16 \<Rightarrow> nat \<Rightarrow> bytes" where
  "file_entry attributes name_entries =
     put_at 22 [0x80, 0x80, 0x80]
       (foldl (\<lambda>e off. put_at off (to_le 4 TIMESTAMP) e)
         (put_at 4 (to_le 2 attributes) ((replicate 32 0)[0 := ET_FILE, 1 := of_nat (1 + name_entries)])) [8, 12, 16])"

definition stream_entry :: "bytes \<Rightarrow> u8 \<Rightarrow> u32 \<Rightarrow> u64 \<Rightarrow> bytes" where
  "stream_entry nm flags first len =
     put_at 24 (to_le 8 len) (put_at 20 (to_le 4 first) (put_at 8 (to_le 8 len)
       (put_at 4 (to_le 2 (name_hash (map (\<lambda>b. ucast (to_ascii_uppercase b)) nm)))
         ((replicate 32 0)[0 := ET_STREAM, 1 := flags, 3 := of_nat (length nm)]))))"

definition name_entry :: "bytes \<Rightarrow> nat \<Rightarrow> bytes" where
  "name_entry nm n =
     foldl (\<lambda>e i. if n * 15 + i < length nm then put_at (2 + i * 2) (to_le 2 (ucast (nm ! (n * 15 + i)) :: u16)) e else e)
       ((replicate 32 0)[0 := ET_NAME]) [0..<15]"

definition refresh_checksum :: "bytes \<Rightarrow> bytes" where
  "refresh_checksum es = put_at 2 (to_le 2 (entry_set_checksum es)) es"

definition build_entry_set :: "bytes \<Rightarrow> u16 \<Rightarrow> u8 \<Rightarrow> u32 \<Rightarrow> u64 \<Rightarrow> bytes" where
  "build_entry_set nm attributes flags first len =
     (let name_entries = (length nm + 14) div 15
      in refresh_checksum (file_entry attributes name_entries @ stream_entry nm flags first len
           @ concat (map (name_entry nm) [0..<name_entries])))"

text \<open>The scan for a home: a run of deleted entries (first component) or the end marker (second).\<close>

fun find_home :: "nat \<Rightarrow> nat \<Rightarrow> bytes list \<Rightarrow> nat \<Rightarrow> nat \<Rightarrow> nat option \<times> nat option" where
  "find_home needed i [] run_start run_len = (None, None)"
| "find_home needed i (e # es) run_start run_len =
     (if e ! 0 = 0 then (None, Some i)
      else if e ! 0 AND ET_IN_USE = 0
      then let rs = (if run_len = 0 then i else run_start) in
           if run_len + 1 = needed then (Some rs, None) else find_home needed (Suc i) es rs (run_len + 1)
      else find_home needed (Suc i) es run_start 0)"

definition or_err :: "'f \<Rightarrow> ('s, 'e, 'a) op \<Rightarrow> ('s, 'f, 'a) op" where
  "or_err e m = andThen (attempt m) (\<lambda>r. case r of Inl _ \<Rightarrow> fail e | Inr a \<Rightarrow> ret a)"

text \<open>Undo the allocation of one cluster, ignoring failures.\<close>

definition ex_undo_cluster :: "ExVolume \<Rightarrow> u32 \<Rightarrow> (disk, 'e, unit) op" where
  "ex_undo_cluster v c = andThen (ex_ignore (ex_fat_write v c 0)) (\<lambda>_. ex_ignore (bitmap_set v [c] False))"

definition ex_init_cluster :: "ExVolume \<Rightarrow> u32 \<Rightarrow> unit ex_try" where
  "ex_init_cluster v c = andThen (ex_zero_cluster v c) (\<lambda>_. ex_fat_write v c FAT_EOF)"

text \<open>
  The loop that grows the root directory until the set fits. Each round adds a cluster of at least
  512 bytes, so one more round than the set has bytes is more than it can take.
\<close>

fun ex_grow :: "ExVolume \<Rightarrow> bool \<Rightarrow> nat \<Rightarrow> nat \<Rightarrow> u32 list \<Rightarrow> bytes \<Rightarrow> (disk, string, u32 list \<times> bytes) op" where
  "ex_grow v root 0 fin chain data = (\<lambda>d. None)"
| "ex_grow v root (Suc fuel) fin chain data =
     (if fin \<le> length data then ret (chain, data)
      else if \<not> root then fail ''directory full''
      else andThen (or_err ''disk full'' (bitmap_alloc v 1)) (\<lambda>c.
           andThen (attempt (ex_init_cluster v c)) (\<lambda>r.
           if r \<noteq> Ok () then andThen (ex_undo_cluster v c) (\<lambda>_. fail ''cluster init failed'')
           else andThen (attempt (ex_fat_write v (last chain) c)) (\<lambda>r.
                if r \<noteq> Ok () then andThen (ex_undo_cluster v c) (\<lambda>_. fail ''FAT update failed'')
                else let n = length (chain @ [c]) * ex_cluster_bytes v in
                     ex_grow v root fuel fin (chain @ [c]) (take n data @ replicate (n - length data) 0)))))"

definition place_entry_set :: "ExVolume \<Rightarrow> DirRef \<Rightarrow> bytes \<Rightarrow> (disk, string, unit) op" where
  "place_entry_set v dir es =
     andThen (or_err ''directory read failed'' (ex_load_dir v dir)) (\<lambda>(chain, data).
     andThen (case find_home (length es div 32) 0 (chunks32 data) 0 0 of
                (Some i, _) \<Rightarrow> ret (i * 32, chain, data)
              | (None, e) \<Rightarrow>
                  let fin = (case e of Some i \<Rightarrow> i * 32 | None \<Rightarrow> length data) in
                  andThen (ex_grow v (is_root dir) (length es + 1) (fin + length es) chain data) (\<lambda>(chain, data).
                  ret (fin, chain, data))) (\<lambda>(off, chain, data).
     andThen (gets_opt (\<lambda>d. if off + length es \<le> length data then Some (put_at off es data) else None)) (\<lambda>data.
     or_err ''directory write failed'' (store_dir_range v chain data off (length es)))))"

definition update_stream_entry :: "ExVolume \<Rightarrow> DirRef \<Rightarrow> DirFile \<Rightarrow> u8 \<Rightarrow> u32 \<Rightarrow> u64 \<Rightarrow> (disk, string, unit) op" where
  "update_stream_entry v dir f flags first len =
     andThen (or_err ''directory read failed'' (ex_load_dir v dir)) (\<lambda>(chain, data).
     let off = set_offset f; set_len = set_count f * 32 in
     andThen (gets_opt (\<lambda>d. if length data < off + set_len then Some False else map_option (\<lambda>b. b = ET_FILE) (idx data off))) (\<lambda>ok.
     if \<not> ok then fail ''stale directory entry''
     else andThen (gets_opt (\<lambda>d. if off + 64 \<le> length data then Some (subrange (off + 32) 32 data) else None)) (\<lambda>s.
          if s ! 0 \<noteq> ET_STREAM then fail ''missing stream entry''
          else let s = put_at 24 (to_le 8 len) (put_at 20 (to_le 4 first) (put_at 8 (to_le 8 len) (s[1 := flags])));
                   data = put_at (off + 32) s data in
               andThen (gets_opt (\<lambda>d. if off + 4 \<le> length data
                          then Some (put_at (off + 2) (to_le 2 (entry_set_checksum (subrange off set_len data))) data) else None)) (\<lambda>data.
               or_err ''directory write failed'' (store_dir_range v chain data off set_len)))))"

section \<open>Writing a file\<close>

definition rollback_contiguous :: "ExVolume \<Rightarrow> u32 \<Rightarrow> nat \<Rightarrow> (disk, 'e, unit) op" where
  "rollback_contiguous v first len = (if 2 \<le> first \<and> 0 < len then free_clusters v first True (of_nat len) else ret ())"

definition ex_write_part :: "ExVolume \<Rightarrow> u32 \<Rightarrow> bytes \<Rightarrow> nat \<Rightarrow> unit ex_try" where
  "ex_write_part v first data i =
     (let cbytes = ex_cluster_bytes v; chunk_start = i * cbytes; chunk_end = min (chunk_start + cbytes) (length data)
      in ex_write_cluster v (first + of_nat i) (subrange chunk_start (chunk_end - chunk_start) data))"

definition write_data_contiguous :: "ExVolume \<Rightarrow> bytes \<Rightarrow> (disk, string, u32) op" where
  "write_data_contiguous v data =
     (if data = [] then ret 0
      else let cbytes = ex_cluster_bytes v; clusters = (length data + cbytes - 1) div cbytes in
           andThen (or_err ''no contiguous space'' (bitmap_alloc v clusters)) (\<lambda>first.
           andThen (attempt (for_each (ex_write_part v first data) [0..<clusters])) (\<lambda>r.
           if r \<noteq> Ok () then andThen (rollback_contiguous v first (length data)) (\<lambda>_. fail ''data write failed'')
           else ret first)))"

definition ex_validate_name :: "bytes \<Rightarrow> string + unit" where
  "ex_validate_name nm =
     (if nm = [] \<or> 255 < length nm \<or> (\<exists>b\<in>set nm. 0x80 \<le> b) then Err ''name must be ASCII, 1-255 chars''
      else if 0x2f \<in> set nm \<or> 0x5c \<in> set nm then Err ''name may not contain slashes''
      else Ok ())"

definition data_flags :: "bytes \<Rightarrow> u8" where
  "data_flags data = (if data = [] then FLAG_ALLOC_POSSIBLE else FLAG_ALLOC_POSSIBLE OR FLAG_NO_FAT_CHAIN)"

section \<open>The mounted volume and the public operations\<close>

record ex_fs =
  ex_volume :: "ExVolume option"
  ex_device :: disk

definition ex_mount :: "(ex_fs, 'e, bool) op" where
  "ex_mount = (\<lambda>f. case ex_find_volume (ex_device f) of
     None \<Rightarrow> None
   | Some (Inl _, d) \<Rightarrow> Some (Ok False, f\<lparr>ex_device := d\<rparr>)
   | Some (Inr v, d) \<Rightarrow> Some (Ok True, \<lparr>ex_volume = Some v, ex_device = d\<rparr>))"

definition ex_mounted :: "ex_fs \<Rightarrow> bool" where
  "ex_mounted f \<longleftrightarrow> ex_volume f \<noteq> None"

text \<open>An operation under the lock of the mounted volume; \<open>none\<close> is the error when there is none.\<close>

definition ex_with :: "'e \<Rightarrow> (ExVolume \<Rightarrow> (disk, 'e, 'a) op) \<Rightarrow> (ex_fs, 'e, 'a) op" where
  "ex_with none m = (\<lambda>f. case ex_volume f of
     None \<Rightarrow> Some (Err none, f)
   | Some v \<Rightarrow> map_option (\<lambda>(r, d). (r, f\<lparr>ex_device := d\<rparr>)) (m v (ex_device f)))"

definition ex_dir_of :: "ExVolume \<Rightarrow> bytes \<Rightarrow> DirRef ex_try" where
  "ex_dir_of v path =
     (if ex_components path = [] then ret (root_ref v)
      else andThen (ex_lookup v path) (\<lambda>(_, f). if df_is_dir f then ret (dir_ref_of f) else fail ()))"

definition ex_read_dir :: "bytes \<Rightarrow> (ex_fs, unit, (bytes \<times> bool \<times> u64) list) op" where
  "ex_read_dir path = ex_with () (\<lambda>v.
     andThen (ex_dir_of v path) (\<lambda>dir.
     andThen (ex_load_dir v dir) (\<lambda>(_, data).
     ret (map (\<lambda>f. (df_name f, df_is_dir f, df_length f)) (parse_entries data)))))"

definition ex_metadata :: "bytes \<Rightarrow> (ex_fs, unit, bool \<times> u64) op" where
  "ex_metadata path = ex_with () (\<lambda>v. andThen (ex_lookup v path) (\<lambda>(_, f). ret (df_is_dir f, df_length f)))"

definition ex_directory_id :: "bytes \<Rightarrow> (ex_fs, unit, u64) op" where
  "ex_directory_id path = ex_with () (\<lambda>v.
     if ex_components path = [] then ret (ucast (ex_root_cluster v))
     else andThen (ex_lookup v path) (\<lambda>(_, f). if df_is_dir f then ret (ucast (df_first f)) else fail ()))"

definition ex_read_file :: "bytes \<Rightarrow> (ex_fs, unit, bytes) op" where
  "ex_read_file path = ex_with () (\<lambda>v.
     andThen (ex_lookup v path) (\<lambda>(_, f). if df_is_dir f then fail () else read_file_inner v f))"

text \<open>The part \<open>create_file\<close> and \<open>mkdir\<close> share: the parent, the name, and that it is new.\<close>

definition ex_new_name :: "ExVolume \<Rightarrow> bytes \<Rightarrow> (disk, string, DirRef \<times> bytes) op" where
  "ex_new_name v path =
     andThen (or_err ''no such directory'' (resolve_parent v path)) (\<lambda>(parent, nm).
     andThen (gets_res (\<lambda>d. Some (ex_validate_name nm))) (\<lambda>_.
     andThen (or_err ''directory read failed'' (ex_load_dir v parent)) (\<lambda>(_, pdata).
     if \<exists>f\<in>set (parse_entries pdata). names_equal_ascii (df_name f) nm then fail ''already exists''
     else ret (parent, nm))))"

definition ex_create :: "ExVolume \<Rightarrow> bytes \<Rightarrow> bytes \<Rightarrow> (disk, string, unit) op" where
  "ex_create v path data =
     andThen (ex_new_name v path) (\<lambda>(parent, nm).
     andThen (write_data_contiguous v data) (\<lambda>first.
     andThen (attempt (place_entry_set v parent
                (build_entry_set nm ATTR_ARCHIVE (data_flags data) first (of_nat (length data))))) (\<lambda>r.
     case r of
       Inl e \<Rightarrow> andThen (rollback_contiguous v first (length data)) (\<lambda>_. fail e)
     | Inr _ \<Rightarrow> ret ())))"

definition ex_create_file :: "bytes \<Rightarrow> bytes \<Rightarrow> (ex_fs, string, unit) op" where
  "ex_create_file path data = ex_with ''not mounted'' (\<lambda>v. ex_create v path data)"

definition ex_overwrite :: "ExVolume \<Rightarrow> DirRef \<Rightarrow> DirFile \<Rightarrow> bytes \<Rightarrow> (disk, string, unit) op" where
  "ex_overwrite v parent f data =
     (if df_is_dir f then fail ''is a directory''
      else andThen (write_data_contiguous v data) (\<lambda>first.
           andThen (attempt (update_stream_entry v parent f (data_flags data) first (of_nat (length data)))) (\<lambda>r.
           case r of
             Inl e \<Rightarrow> andThen (rollback_contiguous v first (length data)) (\<lambda>_. fail e)
           | Inr _ \<Rightarrow> free_clusters v (df_first f) (df_no_fat_chain f) (df_length f))))"

definition ex_write :: "ExVolume \<Rightarrow> bytes \<Rightarrow> bytes \<Rightarrow> (disk, string, unit) op" where
  "ex_write v path data =
     andThen (attempt (ex_lookup v path)) (\<lambda>r. case r of
       Inr (parent, f) \<Rightarrow> ex_overwrite v parent f data
     | Inl _ \<Rightarrow> ex_create v path data)"

definition ex_write_file :: "bytes \<Rightarrow> bytes \<Rightarrow> (ex_fs, string, unit) op" where
  "ex_write_file path data = ex_with ''not mounted'' (\<lambda>v. ex_write v path data)"

definition ex_append_file :: "bytes \<Rightarrow> bytes \<Rightarrow> (ex_fs, string, unit) op" where
  "ex_append_file path data =
     andThen (ex_with ''not mounted'' (\<lambda>v.
       andThen (attempt (ex_lookup v path)) (\<lambda>r. case r of
         Inr (_, f) \<Rightarrow> if df_is_dir f then fail ''is a directory'' else or_err ''read failed'' (read_file_inner v f)
       | Inl _ \<Rightarrow> ret []))) (\<lambda>existing.
     ex_write_file path (existing @ data))"

definition ex_unlink :: "ExVolume \<Rightarrow> DirRef \<Rightarrow> DirFile \<Rightarrow> (disk, string, unit) op" where
  "ex_unlink v parent f =
     andThen (or_err ''directory read failed'' (ex_load_dir v parent)) (\<lambda>(chain, data).
     let off = set_offset f; set_len = set_count f * 32 in
     andThen (gets_opt (\<lambda>d. if length data < off + set_len then Some False else map_option (\<lambda>b. b = ET_FILE) (idx data off))) (\<lambda>ok.
     if \<not> ok then fail ''stale directory entry''
     else let data = foldl (\<lambda>data i. data[off + i * 32 := data ! (off + i * 32) AND NOT ET_IN_USE]) data [0..<set_count f] in
          or_err ''directory write failed'' (store_dir_range v chain data off set_len)))"

definition ex_delete_op :: "ExVolume \<Rightarrow> bytes \<Rightarrow> (disk, string, unit) op" where
  "ex_delete_op v path =
     andThen (or_err ''no such file'' (ex_lookup v path)) (\<lambda>(parent, f).
     andThen (if df_is_dir f
              then andThen (or_err ''directory read failed'' (ex_load_dir v (dir_ref_of f))) (\<lambda>(_, ddata).
                   if parse_entries ddata \<noteq> [] then fail ''directory not empty'' else ret ())
              else ret ()) (\<lambda>_.
     andThen (ex_unlink v parent f) (\<lambda>_.
     free_clusters v (df_first f) (df_no_fat_chain f) (df_length f))))"

definition ex_delete :: "bytes \<Rightarrow> (ex_fs, string, unit) op" where
  "ex_delete path = ex_with ''not mounted'' (\<lambda>v. ex_delete_op v path)"

definition ex_mkdir_op :: "ExVolume \<Rightarrow> bytes \<Rightarrow> (disk, string, unit) op" where
  "ex_mkdir_op v path =
     andThen (ex_new_name v path) (\<lambda>(parent, nm).
     andThen (or_err ''disk full'' (bitmap_alloc v 1)) (\<lambda>c.
     andThen (attempt (ex_init_cluster v c)) (\<lambda>r.
     if r \<noteq> Ok () then andThen (ex_undo_cluster v c) (\<lambda>_. fail ''cluster init failed'')
     else andThen (attempt (place_entry_set v parent
                (build_entry_set nm ATTR_DIRECTORY FLAG_ALLOC_POSSIBLE c (of_nat (ex_cluster_bytes v))))) (\<lambda>r.
          case r of
            Inl e \<Rightarrow> andThen (ex_undo_cluster v c) (\<lambda>_. fail e)
          | Inr _ \<Rightarrow> ret ()))))"

definition ex_mkdir :: "bytes \<Rightarrow> (ex_fs, string, unit) op" where
  "ex_mkdir path = ex_with ''not mounted'' (\<lambda>v. ex_mkdir_op v path)"

section \<open>Boot demo\<close>

text \<open>A literal path or line, and \<open>format!("STRESS{}.TXT", i)\<close> for a number below 100.\<close>

definition ascii :: "string \<Rightarrow> bytes" where
  "ascii s = map (\<lambda>c. of_nat (of_char c)) s"

definition stress_name :: "nat \<Rightarrow> bytes" where
  "stress_name i = ascii ''STRESS'' @ (if i < 10 then [] else [0x30 + of_nat (i div 10)]) @ [0x30 + of_nat (i mod 10)] @ ascii ''.TXT''"

text \<open>A call whose result is looked at and then dropped.\<close>

definition ex_try :: "(ex_fs, 'e, 'a) op \<Rightarrow> (ex_fs, unit, bool) op" where
  "ex_try m = andThen (attempt m) (\<lambda>r. ret (is_ok r))"

text \<open>The requests of a listing are those of \<open>read_dir\<close>.\<close>

definition ex_list_dir :: "bytes \<Rightarrow> (ex_fs, unit, unit) op" where
  "ex_list_dir path = andThen (ex_try (ex_read_dir path)) (\<lambda>_. ret ())"

text \<open>The two loops of the stress test, each left at the first error; the result says that there was none.\<close>

fun ex_until_error :: "('a \<Rightarrow> (ex_fs, string, unit) op) \<Rightarrow> 'a list \<Rightarrow> (ex_fs, unit, bool) op" where
  "ex_until_error f [] = ret True"
| "ex_until_error f (x # xs) = andThen (ex_try (f x)) (\<lambda>ok. if ok then ex_until_error f xs else ret False)"

definition ex_demo_files :: "(ex_fs, unit, unit) op" where
  "ex_demo_files =
     andThen (ex_try (ex_append_file (ascii ''DOCS/BOOTLOG.TXT'') (ascii ''MMURTL/RS booted again.'' @ [0x0a]))) (\<lambda>ok.
     andThen (if ok then ex_try (ex_read_file (ascii ''DOCS/BOOTLOG.TXT'')) else ret False) (\<lambda>_.
     andThen (ex_try (ex_delete (ascii ''TEMP.TXT''))) (\<lambda>_.
     andThen (ex_try (ex_create_file (ascii ''TEMP.TXT'') (ascii ''transient''))) (\<lambda>ok.
     andThen (if ok then ex_try (ex_delete (ascii ''TEMP.TXT'')) else ret False) (\<lambda>ok.
     andThen (if ok then ex_try (ex_read_file (ascii ''TEMP.TXT'')) else ret False) (\<lambda>_.
     andThen (ex_try (ex_write_file (ascii ''DOCS/OVERWRITE.TXT'') (ascii ''short''))) (\<lambda>ok.
     andThen (if ok then ex_try (ex_write_file (ascii ''DOCS/OVERWRITE.TXT'')
                (ascii ''This larger content replaces the short one and reallocates clusters.'')) else ret False) (\<lambda>ok.
     andThen (if ok then ex_try (ex_read_file (ascii ''DOCS/OVERWRITE.TXT'')) else ret False) (\<lambda>_. ret ())))))))))"

definition ex_demo_stress :: "(ex_fs, unit, unit) op" where
  "ex_demo_stress =
     andThen (ex_until_error (\<lambda>i. ex_create_file (stress_name i) (ascii ''stress test payload'')) [0..<50]) (\<lambda>ok.
     if ok then andThen (ex_until_error (\<lambda>i. ex_delete (stress_name i)) [0..<50]) (\<lambda>_. ret ()) else ret ())"

definition ex_demo :: "(ex_fs, unit, unit) op" where
  "ex_demo =
     andThen ex_mount (\<lambda>ok.
     if \<not> ok then ret ()
     else andThen (ex_list_dir (ascii ''/'')) (\<lambda>_.
          andThen (ex_try (ex_read_file (ascii ''README.TXT''))) (\<lambda>_.
          andThen (ex_try (ex_read_file (ascii ''HOST_DIR/HELLO.TXT''))) (\<lambda>_.
          andThen (ex_try (ex_mkdir (ascii ''DOCS''))) (\<lambda>_.
          andThen ex_demo_files (\<lambda>_.
          andThen ex_demo_stress (\<lambda>_.
          andThen (ex_list_dir (ascii ''/'')) (\<lambda>_.
          ex_list_dir (ascii ''/DOCS'')))))))))"

end
