(* ===== verification/Exfat_Entries.thy ===== *)
theory Exfat_Entries
  imports Exfat
begin

text \<open>
  Entry sets of exFAT directories: the checksum of a set does not depend on the field that stores it,
  and the set written for a name parses back to one entry with the attributes, allocation and length
  it was written with.
\<close>

section \<open>Fields of an entry\<close>

lemma le_put_same:
  "n + 2 \<le> length e \<Longrightarrow> le16 (put_at n (to_le 2 w16) e) n = w16"
  "n + 4 \<le> length e \<Longrightarrow> le32 (put_at n (to_le 4 w32) e) n = w32"
  "n + 8 \<le> length e \<Longrightarrow> le64 (put_at n (to_le 8 w64) e) n = w64"
  by (simp_all add: le16_def le32_def le64_def)

lemma le_put_other:
  "off + length ys \<le> length e \<Longrightarrow> n + 2 \<le> off \<or> off + length ys \<le> n \<Longrightarrow> n + 2 \<le> length e \<Longrightarrow>
     le16 (put_at off ys e) n = le16 e n"
  "off + length ys \<le> length e \<Longrightarrow> n + 4 \<le> off \<or> off + length ys \<le> n \<Longrightarrow> n + 4 \<le> length e \<Longrightarrow>
     le32 (put_at off ys e) n = le32 e n"
  "off + length ys \<le> length e \<Longrightarrow> n + 8 \<le> off \<or> off + length ys \<le> n \<Longrightarrow> n + 8 \<le> length e \<Longrightarrow>
     le64 (put_at off ys e) n = le64 e n"
  by (simp_all add: le16_def le32_def le64_def subrange_put_at_other)

lemmas entry_field = le_put_same le_put_other nth_put_at_outside

lemma file_entry_facts:
  "length (file_entry attributes n) = 32" "file_entry attributes n ! 0 = ET_FILE"
  "file_entry attributes n ! 1 = of_nat (1 + n)" "le16 (file_entry attributes n) 4 = attributes"
  by (simp_all add: file_entry_def entry_field)

lemma stream_entry_facts:
  "length (stream_entry nm flags first len) = 32" "stream_entry nm flags first len ! 0 = ET_STREAM"
  "stream_entry nm flags first len ! 1 = flags" "le32 (stream_entry nm flags first len) 20 = first"
  "le64 (stream_entry nm flags first len) 24 = len" "le64 (stream_entry nm flags first len) 8 = len"
  by (simp_all add: stream_entry_def entry_field)

definition name_fill :: "bytes \<Rightarrow> nat \<Rightarrow> nat \<Rightarrow> bytes" where
  "name_fill nm n m =
     foldl (\<lambda>e i. if n * 15 + i < length nm then put_at (2 + i * 2) (to_le 2 (ucast (nm ! (n * 15 + i)) :: u16)) e else e)
       ((replicate 32 0)[0 := ET_NAME]) [0..<m]"

lemma le16_zero: "n + 2 \<le> 32 \<Longrightarrow> 0 < n \<Longrightarrow> le16 ((replicate 32 0)[0 := x]) n = 0"
proof -
  assume n: "n + 2 \<le> 32" "0 < n"
  have "subrange n 2 ((replicate 32 0)[0 := x]) = [0, 0]"
    by (rule nth_equalityI) (use n in \<open>auto simp: less_Suc_eq numeral_2_eq_2 nth_list_update\<close>)
  then show ?thesis by (simp add: le16_def)
qed

lemma name_fill_facts:
  assumes "m \<le> 15"
  shows "length (name_fill nm n m) = 32 \<and> name_fill nm n m ! 0 = ET_NAME \<and>
    (\<forall>i<15. le16 (name_fill nm n m) (2 + 2 * i) = (if i < m \<and> n * 15 + i < length nm then ucast (nm ! (n * 15 + i)) else 0))"
  using assms
proof (induction m)
  case 0
  then show ?case by (simp add: name_fill_def le16_zero)
next
  case (Suc m)
  define e where "e = name_fill nm n m"
  have e: "length e = 32" "e ! 0 = ET_NAME"
    "\<And>i. i < 15 \<Longrightarrow> le16 e (2 + 2 * i) = (if i < m \<and> n * 15 + i < length nm then ucast (nm ! (n * 15 + i)) else 0)"
    using Suc by (simp_all add: e_def)
  have step: "name_fill nm n (Suc m) =
      (if n * 15 + m < length nm then put_at (2 + m * 2) (to_le 2 (ucast (nm ! (n * 15 + m)) :: u16)) e else e)"
    by (simp add: name_fill_def e_def)
  have "le16 (put_at (2 + m * 2) (to_le 2 w) e) (2 + 2 * i) = (if i = m then w else le16 e (2 + 2 * i))" if "i < 15" for i w
  proof (cases "i = m")
    case False
    then have "2 + 2 * i + 2 \<le> 2 + m * 2 \<or> 2 + m * 2 + 2 \<le> 2 + 2 * i" by linarith
    then show ?thesis using False that e(1) Suc.prems by (simp add: le_put_other)
  next
    case True
    then show ?thesis using that e(1) by (simp add: mult.commute [of 2] le_put_same)
  qed
  moreover have "put_at (2 + m * 2) (to_le 2 (w :: u16)) e ! 0 = e ! 0" for w
    by (rule nth_put_at_outside) (use e(1) Suc.prems in simp_all)
  ultimately show ?case
    using e Suc.prems unfolding step by (auto simp: less_Suc_eq)
qed

lemma name_entry_facts:
  "length (name_entry nm n) = 32" "name_entry nm n ! 0 = ET_NAME"
  "i < 15 \<Longrightarrow> le16 (name_entry nm n) (2 + 2 * i) = (if n * 15 + i < length nm then ucast (nm ! (n * 15 + i)) else 0)"
proof -
  have "name_entry nm n = name_fill nm n 15" by (simp add: name_entry_def name_fill_def)
  then show "length (name_entry nm n) = 32" "name_entry nm n ! 0 = ET_NAME"
    "i < 15 \<Longrightarrow> le16 (name_entry nm n) (2 + 2 * i) = (if n * 15 + i < length nm then ucast (nm ! (n * 15 + i)) else 0)"
    using name_fill_facts [of 15 nm n] by simp_all
qed

section \<open>Checksum\<close>

text \<open>Only the bytes outside the checksum field count.\<close>

lemma checksum_ignores_field:
  assumes "length es' = length es" and "\<And>i. i < length es \<Longrightarrow> i \<noteq> 2 \<Longrightarrow> i \<noteq> 3 \<Longrightarrow> es' ! i = es ! i"
  shows "entry_set_checksum es' = entry_set_checksum es"
proof -
  define step where "step = (\<lambda>(sum :: u16) (i :: nat, b :: u8). if i = 2 \<or> i = 3 then sum else word_rotr 1 sum + ucast b)"
  have "foldl step s (enumerate k xs) = foldl step s (enumerate k ys)"
    if "length xs = length ys" and "\<And>i. i < length xs \<Longrightarrow> k + i \<noteq> 2 \<Longrightarrow> k + i \<noteq> 3 \<Longrightarrow> xs ! i = ys ! i" for s k and xs ys :: bytes
    using that
  proof (induction xs ys arbitrary: s k rule: list_induct2)
    case (Cons x xs y ys)
    have "step s (k, x) = step s (k, y)" using Cons.prems [of 0] by (auto simp: step_def)
    moreover have "xs ! i = ys ! i" if "i < length xs" "Suc k + i \<noteq> 2" "Suc k + i \<noteq> 3" for i
      using Cons.prems [of "Suc i"] that by simp
    ultimately show ?case using Cons.IH [of "Suc k"] by (simp add: enumerate_simps)
  qed simp
  from this [of es' es 0 0] show ?thesis using assms by (simp add: entry_set_checksum_def step_def)
qed

lemma checksum_refresh:
  assumes "4 \<le> length es"
  shows "entry_set_checksum (refresh_checksum es) = entry_set_checksum es" "le16 (refresh_checksum es) 2 = entry_set_checksum es"
    "length (refresh_checksum es) = length es"
proof -
  show len: "length (refresh_checksum es) = length es" using assms by (simp add: refresh_checksum_def)
  show "le16 (refresh_checksum es) 2 = entry_set_checksum es" using assms by (simp add: refresh_checksum_def le_put_same)
  show "entry_set_checksum (refresh_checksum es) = entry_set_checksum es"
  proof (rule checksum_ignores_field [OF len])
    fix i assume i: "i < length es" "i \<noteq> 2" "i \<noteq> 3"
    then have "i < 2 \<or> 2 + 2 \<le> i" by linarith
    then show "refresh_checksum es ! i = es ! i"
      unfolding refresh_checksum_def using assms i(1) by (intro nth_put_at_outside) simp_all
  qed
qed

section \<open>Parsing what was built\<close>

text \<open>A name the driver creates and can find again: ASCII without NUL, 1 to 255 bytes.\<close>

definition ex_name_ok :: "bytes \<Rightarrow> bool" where
  "ex_name_ok nm \<longleftrightarrow> nm \<noteq> [] \<and> length nm \<le> 255 \<and> (\<forall>b\<in>set nm. 0 < b \<and> b < 0x80)"

lemma char_roundtrip:
  assumes "0 < b" and "b < (0x80 :: u8)"
  shows "(ucast b :: u16) \<noteq> 0" "(ucast b :: u16) < 0x80" "ucast (ucast b :: u16) = b"
proof -
  have u: "unat (ucast b :: u16) = unat b"
    using unat_lt_u8 [of b] by (simp add: unsigned_ucast_eq take_bit_nat_eq_self)
  have b: "0 < unat b" "unat b < 128" using assms by (simp_all add: word_less_nat_alt)
  show "(ucast b :: u16) \<noteq> 0" using u b(1) by auto
  show "(ucast b :: u16) < 0x80" using u b(2) by (simp add: word_less_nat_alt)
  show "ucast (ucast b :: u16) = b"
    using unat_lt_u8 [of b] by (simp add: word_unat_eq_iff unsigned_ucast_eq [where 'b = 16] u take_bit_nat_eq_self)
qed

lemma push_name:
  assumes ok: "ex_name_ok nm" and m: "m \<le> 15"
  shows "foldl ex_push_char (take (n * 15) nm) (map (\<lambda>i. le16 (name_entry nm n) (2 + 2 * i)) [0..<m]) = take (n * 15 + m) nm"
  using m
proof (induction m)
  case (Suc m)
  define acc where "acc = foldl ex_push_char (take (n * 15) nm) (map (\<lambda>i. le16 (name_entry nm n) (2 + 2 * i)) [0..<m])"
  have acc: "acc = take (n * 15 + m) nm" using Suc by (simp add: acc_def)
  have f: "le16 (name_entry nm n) (2 + 2 * m) = (if n * 15 + m < length nm then ucast (nm ! (n * 15 + m)) else 0)"
    using name_entry_facts(3) [of m nm n] Suc.prems by simp
  have "ex_push_char acc (le16 (name_entry nm n) (2 + 2 * m)) = take (n * 15 + Suc m) nm"
  proof (cases "n * 15 + m < length nm")
    case True
    define b where "b = nm ! (n * 15 + m)"
    have "b \<in> set nm" using True by (simp add: b_def)
    then have b: "0 < b" "b < 0x80" using ok by (auto simp: ex_name_ok_def)
    have "length acc < 255" using True ok by (simp add: acc ex_name_ok_def)
    then have "ex_push_char acc (ucast b) = acc @ [b]" using char_roundtrip [OF b] by (simp add: ex_push_char_def)
    then show ?thesis using True f by (simp add: acc b_def take_Suc_conv_app_nth)
  next
    case False
    then show ?thesis using f by (simp add: ex_push_char_def acc)
  qed
  then show ?case by (simp add: acc_def)
qed simp

lemma secondary_name:
  assumes "ex_name_ok nm" and "df_name df = take (n * 15) nm"
  shows "ex_secondary (name_entry nm n) df = df\<lparr>df_name := take (Suc n * 15) nm\<rparr>"
proof -
  have "foldl ex_push_char (take (n * 15) nm) (map (\<lambda>i. le16 (name_entry nm n) (2 + 2 * i)) [0..<15]) = take (n * 15 + 15) nm"
    by (rule push_name [OF assms(1)]) simp
  then show ?thesis
    using assms(2) name_entry_facts(2) [of nm n] by (simp add: ex_secondary_def ET_NAME_def ET_STREAM_def add.commute)
qed

lemma parse_names:
  assumes ok: "ex_name_ok nm" and total: "k = (length nm + 14) div 15"
    and n: "n < k" and df: "df_name df = take (n * 15) nm"
  shows "parse_loop i (map (name_entry nm) [n..<k] @ es) (Some df) (of_nat (k - n)) =
    df\<lparr>df_name := nm\<rparr> # parse_loop (i + (k - n)) es None 0"
  using n df
proof (induction "k - n" arbitrary: n i df)
  case (Suc m)
  have "length nm \<le> 255" using ok by (simp add: ex_name_ok_def)
  then have k17: "k \<le> 17" unfolding total by linarith
  have up: "[n..<k] = n # [Suc n..<k]" using Suc.prems(1) by (rule upt_conv_Cons)
  define df1 where "df1 = df\<lparr>df_name := take (Suc n * 15) nm\<rparr>"
  have sec: "ex_secondary (name_entry nm n) df = df1" using secondary_name [OF ok Suc.prems(2)] by (simp add: df1_def)
  have e0: "name_entry nm n ! 0 = ET_NAME" by (rule name_entry_facts(2))
  have nz: "(of_nat (k - n) :: u8) \<noteq> 0"
  proof -
    have "unat (of_nat (k - n) :: u8) = k - n" by (rule unat_of_nat_small) (use k17 in simp)
    then show ?thesis using Suc.prems(1) by auto
  qed
  have one: "(of_nat (k - n) :: u8) = 1 \<longleftrightarrow> k - n = 1"
  proof -
    have "unat (of_nat (k - n) :: u8) = k - n" by (rule unat_of_nat_small) (use k17 in simp)
    then show ?thesis by (metis of_nat_1 unat_1)
  qed
  have step: "parse_loop i (map (name_entry nm) [n..<k] @ es) (Some df) (of_nat (k - n)) =
      (if k - n = 1 then df1 # parse_loop (Suc i) (map (name_entry nm) [Suc n..<k] @ es) None 0
       else parse_loop (Suc i) (map (name_entry nm) [Suc n..<k] @ es) (Some df1) (of_nat (k - n) - 1))"
    unfolding up using nz one by (simp add: e0 sec ET_NAME_def ET_FILE_def ET_IN_USE_def Let_def)
  show ?case
  proof (cases "k - n = 1")
    case True
    then have "Suc n = k" by simp
    moreover have "length nm + 14 < 15 + k * 15" unfolding total by (rule dividend_less_div_times) simp
    then have "length nm \<le> Suc n * 15" using \<open>Suc n = k\<close> by simp
    ultimately show ?thesis using step True by (simp add: df1_def)
  next
    case False
    then have "Suc n < k" using Suc.prems(1) by linarith
    moreover have "(of_nat (k - n) :: u8) - 1 = of_nat (k - Suc n)"
      using Suc.prems(1) by (metis Suc_diff_Suc add_diff_cancel_left' of_nat_Suc)
    moreover have "m = k - Suc n" using Suc.hyps(2) by simp
    moreover have "df1\<lparr>df_name := nm\<rparr> = df\<lparr>df_name := nm\<rparr>" "Suc i + (k - Suc n) = i + (k - n)"
      using Suc.prems(1) by (simp_all add: df1_def)
    moreover have "df_name df1 = take (Suc n * 15) nm" by (simp add: df1_def)
    ultimately show ?thesis
      using Suc.hyps(1) [of "Suc n" df1 "Suc i"] unfolding step if_not_P [OF False] by metis
  qed
qed simp

lemma length_build:
  "length (build_entry_set nm attributes flags first len) = 32 * (2 + (length nm + 14) div 15)"
proof -
  have "length (concat (map (name_entry nm) [0..<k])) = 32 * k" for k
    by (induction k) (simp_all add: name_entry_facts(1))
  then show ?thesis
    by (simp add: build_entry_set_def Let_def checksum_refresh(3) file_entry_facts stream_entry_facts)
qed

text \<open>The slots of a built set: the refreshed file entry, the stream entry and the names.\<close>

definition built_slots :: "bytes \<Rightarrow> u16 \<Rightarrow> u8 \<Rightarrow> u32 \<Rightarrow> u64 \<Rightarrow> u16 \<Rightarrow> bytes list" where
  "built_slots nm attributes flags first len cks =
     [put_at 2 (to_le 2 cks) (file_entry attributes ((length nm + 14) div 15)), stream_entry nm flags first len]
     @ map (name_entry nm) [0..<(length nm + 14) div 15]"

lemma build_slots:
  obtains cks where "build_entry_set nm attributes flags first len = concat (built_slots nm attributes flags first len cks)"
    "entry_set_checksum (build_entry_set nm attributes flags first len) = cks"
proof -
  define k where "k = (length nm + 14) div 15"
  define es where "es = file_entry attributes k @ stream_entry nm flags first len @ concat (map (name_entry nm) [0..<k])"
  have len: "4 \<le> length es" by (simp add: es_def file_entry_facts)
  have "build_entry_set nm attributes flags first len = refresh_checksum es"
    by (simp add: build_entry_set_def k_def es_def Let_def)
  moreover have "put_at 2 (to_le 2 cks) es = put_at 2 (to_le 2 (cks :: u16)) (file_entry attributes k)
      @ stream_entry nm flags first len @ concat (map (name_entry nm) [0..<k])" for cks
    using file_entry_facts(1) [of attributes k] by (simp add: es_def put_at_def)
  ultimately show ?thesis
    using checksum_refresh(1) [OF len]
    by (intro that [of "entry_set_checksum es"]) (simp_all add: built_slots_def k_def refresh_checksum_def)
qed

lemma built_slots_length: "\<forall>e\<in>set (built_slots nm attributes flags first len cks). length e = 32"
  by (auto simp: built_slots_def file_entry_facts stream_entry_facts name_entry_facts)

definition built_file :: "bytes \<Rightarrow> u16 \<Rightarrow> u8 \<Rightarrow> u32 \<Rightarrow> u64 \<Rightarrow> nat \<Rightarrow> DirFile" where
  "built_file nm attributes flags first len i =
     \<lparr>df_name = nm, df_attributes = attributes, df_first = first, df_length = len,
      df_no_fat_chain = (flags AND FLAG_NO_FAT_CHAIN \<noteq> 0), set_offset = i * 32,
      set_count = 2 + (length nm + 14) div 15\<rparr>"

lemma parse_built:
  assumes ok: "ex_name_ok nm"
  shows "parse_loop i (built_slots nm attributes flags first len cks @ es) cur left =
    built_file nm attributes flags first len i # parse_loop (i + (2 + (length nm + 14) div 15)) es None 0"
proof -
  define k where "k = (length nm + 14) div 15"
  have "length nm \<le> 255" "length nm \<noteq> 0" using ok by (simp_all add: ex_name_ok_def)
  then have k: "0 < k" "k \<le> 17" unfolding k_def by linarith+
  define f where "f = put_at 2 (to_le 2 cks) (file_entry attributes k)"
  have f: "f ! 0 = ET_FILE" "f ! 1 = of_nat (1 + k)" "le16 f 4 = attributes"
    by (simp_all add: f_def entry_field file_entry_facts file_entry_facts(3) [unfolded One_nat_def])
  define df where "df = \<lparr>df_name = [], df_attributes = attributes, df_first = first, df_length = len,
      df_no_fat_chain = (flags AND FLAG_NO_FAT_CHAIN \<noteq> 0), set_offset = i * 32, set_count = 2 + k\<rparr>"
  have u: "unat (of_nat (1 + k) :: u8) = 1 + k" by (rule unat_of_nat_small) (use k in simp)
  have l: "(of_nat (1 + k) :: u8) \<noteq> 0" "(of_nat (1 + k) :: u8) \<noteq> 1" "(of_nat (1 + k) :: u8) - 1 = of_nat (k - 0)"
    using u k(1) by auto
  have s: "stream_entry nm flags first len ! 0 = ET_STREAM" by (rule stream_entry_facts(2))
  have "parse_loop i (built_slots nm attributes flags first len cks @ es) cur left =
      parse_loop (Suc (Suc i)) (map (name_entry nm) [0..<k] @ es) (Some df) (of_nat (k - 0))"
    unfolding built_slots_def k_def [symmetric] f_def [symmetric]
    using l u by (simp add: f f(2) [unfolded One_nat_def] s ET_FILE_def ET_STREAM_def ET_IN_USE_def Let_def ex_secondary_def
        stream_entry_facts stream_entry_facts(3) [unfolded One_nat_def] df_def)
  also have "\<dots> = df\<lparr>df_name := nm\<rparr> # parse_loop (Suc (Suc i) + (k - 0)) es None 0"
    by (rule parse_names [OF ok k_def k(1)]) (simp add: df_def)
  finally show ?thesis by (simp add: df_def built_file_def k_def)
qed

lemma parse_zeros: "parse_loop i (replicate m (replicate 32 0)) cur left = []"
  by (cases m) simp_all

text \<open>
  C26. The entry set built for a name carries the checksum of the set, and followed by unused slots it
  parses back to exactly one entry, with the name, attributes, first cluster, length and allocation
  kind it was built with, for every ASCII name of 1 to 255 bytes other than NUL.
\<close>

theorem build_entry_set_roundtrip:
  assumes "ex_name_ok nm"
  shows "le16 (build_entry_set nm attributes flags first len) 2 =
      entry_set_checksum (build_entry_set nm attributes flags first len)
    \<and> parse_entries (build_entry_set nm attributes flags first len @ replicate (32 * m) 0) =
      [\<lparr>df_name = nm, df_attributes = attributes, df_first = first, df_length = len,
        df_no_fat_chain = (flags AND FLAG_NO_FAT_CHAIN \<noteq> 0), set_offset = 0, set_count = 2 + (length nm + 14) div 15\<rparr>]"
proof
  obtain cks where b: "build_entry_set nm attributes flags first len = concat (built_slots nm attributes flags first len cks)"
      "entry_set_checksum (build_entry_set nm attributes flags first len) = cks"
    by (rule build_slots)
  show "le16 (build_entry_set nm attributes flags first len) 2 = entry_set_checksum (build_entry_set nm attributes flags first len)"
    unfolding build_entry_set_def Let_def
    by (subst checksum_refresh(1), simp add: file_entry_facts, rule checksum_refresh(2), simp add: file_entry_facts)
  have "chunks32 (build_entry_set nm attributes flags first len @ replicate (32 * m) 0) =
      built_slots nm attributes flags first len cks @ replicate m (replicate 32 0)"
    using chunks32_zeros [of "build_entry_set nm attributes flags first len" m] length_build [of nm attributes flags first len]
      chunks32_concat [OF built_slots_length] b(1) by simp
  then show "parse_entries (build_entry_set nm attributes flags first len @ replicate (32 * m) 0) =
      [\<lparr>df_name = nm, df_attributes = attributes, df_first = first, df_length = len,
        df_no_fat_chain = (flags AND FLAG_NO_FAT_CHAIN \<noteq> 0), set_offset = 0, set_count = 2 + (length nm + 14) div 15\<rparr>]"
    unfolding parse_entries_def using parse_built [OF assms, of 0] by (simp add: parse_zeros built_file_def)
qed

theorem build_entry_set_roundtrip_witness:
  "parse_entries (build_entry_set [0x41, 0x42] ATTR_ARCHIVE 3 7 100 @ replicate (32 * 2) 0) =
    [\<lparr>df_name = [0x41, 0x42], df_attributes = ATTR_ARCHIVE, df_first = 7, df_length = 100,
      df_no_fat_chain = True, set_offset = 0, set_count = 3\<rparr>]"
proof -
  have "ex_name_ok [0x41, 0x42]" by (simp add: ex_name_ok_def)
  moreover have "(3 :: u8) AND FLAG_NO_FAT_CHAIN \<noteq> 0" by (simp add: FLAG_NO_FAT_CHAIN_def)
  ultimately show ?thesis using build_entry_set_roundtrip [of "[0x41, 0x42]" ATTR_ARCHIVE 3 7 100 2] by simp
qed

end
