(* ===== verification/Exfat_Safety.thy ===== *)
theory Exfat_Safety
  imports Exfat_Entries
begin

text \<open>
  No operation of the exFAT driver panics or runs out of rounds, whatever the disk contains and
  however the device fails, as long as a cluster has at least one sector, which every mounted volume
  has. The collection \<open>quiet\<close> holds one rule per way of composing operations and per operation, so
  that the proof for an operation follows its definition.
\<close>

named_theorems quiet \<open>operations that return from a well-formed device and leave one behind\<close>

definition quiet_op :: "(disk, 'e, 'a) op \<Rightarrow> ('a \<Rightarrow> bool) \<Rightarrow> bool" where
  "quiet_op m Q \<longleftrightarrow> triple disk_ok m (\<lambda>a d. disk_ok d \<and> Q a) (\<lambda>_. disk_ok)"

abbreviation quiet_any :: "(disk, 'e, 'a) op \<Rightarrow> bool" where
  "quiet_any m \<equiv> quiet_op m (\<lambda>_. True)"

lemma quiet_weaken: "quiet_op m Q \<Longrightarrow> (\<And>a. Q a \<Longrightarrow> R a) \<Longrightarrow> quiet_op m R"
  unfolding quiet_op_def by (erule triple_weaken) auto

lemma quiet_any: "quiet_op m Q \<Longrightarrow> quiet_any m"
  by (erule quiet_weaken) simp

lemma quiet_andThen:
  assumes "quiet_op m Q" and "\<And>a. Q a \<Longrightarrow> quiet_op (f a) R"
  shows "quiet_op (andThen m f) R"
  unfolding quiet_op_def
proof (rule triple_andThen [OF assms(1) [unfolded quiet_op_def]])
  fix a
  show "triple (\<lambda>d. disk_ok d \<and> Q a) (f a) (\<lambda>b d. disk_ok d \<and> R b) (\<lambda>_. disk_ok)"
  proof (cases "Q a")
    case True
    then show ?thesis using assms(2) [OF True] by (simp add: quiet_op_def)
  qed (simp add: triple_def)
qed

lemma quiet_ret [quiet]: "Q a \<Longrightarrow> quiet_op (ret a) Q"
  by (simp add: quiet_op_def triple_def)

lemma quiet_fail [quiet]: "quiet_op (fail e) Q"
  by (simp add: quiet_op_def triple_def)

lemma quiet_gets [quiet]: "(\<And>d. Q (f d)) \<Longrightarrow> quiet_op (gets f) Q"
  by (simp add: quiet_op_def triple_def)

lemma quiet_gets_opt: "(\<And>d. \<exists>a. f d = Some a \<and> Q a) \<Longrightarrow> quiet_op (gets_opt f) Q"
  unfolding quiet_op_def by (rule triple_gets_opt) blast

lemma quiet_gets_res: "f = (\<lambda>d. Some r) \<Longrightarrow> quiet_any (gets_res f)"
  unfolding quiet_op_def by (rule triple_gets_res) (cases r, auto)

lemma quiet_attempt:
  assumes "quiet_op m Q"
  shows "quiet_op (attempt m) (\<lambda>r. \<forall>a. r = Ok a \<longrightarrow> Q a)"
  unfolding quiet_op_def
  by (rule triple_weaken [OF triple_attempt [OF assms [unfolded quiet_op_def]]]) (auto split: sum.splits)

lemma quiet_or_err [quiet]: "quiet_op m Q \<Longrightarrow> quiet_op (or_err e m) Q"
  unfolding or_err_def by (rule quiet_andThen [OF quiet_attempt]) (auto intro: quiet split: sum.split)

lemma quiet_ignore [quiet]: "quiet_op m Q \<Longrightarrow> quiet_any (ex_ignore m)"
  unfolding ex_ignore_def by (rule quiet_andThen [OF quiet_attempt]) (auto intro: quiet)

lemma quiet_for_each: "(\<And>x. x \<in> set xs \<Longrightarrow> quiet_op (f x) (\<lambda>_. True)) \<Longrightarrow> quiet_any (for_each f xs)"
  by (induction xs) (auto intro: quiet quiet_andThen)

lemma quiet_map_each:
  "(\<And>x. x \<in> set xs \<Longrightarrow> quiet_op (f x) Q) \<Longrightarrow> quiet_op (map_each f xs) (\<lambda>ys. length ys = length xs \<and> (\<forall>y\<in>set ys. Q y))"
proof (induction xs)
  case (Cons x xs)
  show ?case unfolding map_each.simps
    by (rule quiet_andThen [OF Cons.prems], simp, rule quiet_andThen [OF Cons.IH], simp add: Cons.prems)
      (rule quiet_ret, simp)
qed (simp add: quiet)

lemma quiet_if: "(b \<Longrightarrow> quiet_op m Q) \<Longrightarrow> (\<not> b \<Longrightarrow> quiet_op n Q) \<Longrightarrow> quiet_op (if b then m else n) Q"
  by simp

section \<open>Sectors and clusters\<close>

lemma quiet_read_sector [quiet]: "quiet_op (ex_read_sector lba) (\<lambda>b. length b = SECTOR)"
  unfolding quiet_op_def
proof (rule tripleI)
  fix d assume d: "disk_ok d"
  show "(\<exists>a d'. ex_read_sector lba d = Some (Ok a, d') \<and> disk_ok d' \<and> length a = SECTOR) \<or>
      (\<exists>e d'. ex_read_sector lba d = Some (Err e, d') \<and> disk_ok d')"
    unfolding ex_read_sector_def
    by (cases rule: rd_or_cases [of "()" lba d]) (use d in \<open>auto simp: same_data_def disk_ok_def\<close>)
qed

lemma quiet_write_sector: "length data = SECTOR \<Longrightarrow> quiet_any (ex_write_sector lba data)"
  unfolding quiet_op_def
proof (rule tripleI)
  fix d assume len: "length data = SECTOR" and d: "disk_ok d"
  obtain r d' where w: "dk_write lba data d = (r, d')" by (cases "dk_write lba data d")
  have "disk_ok d'" using dk_write_cases [OF w len] d by simp
  then show "(\<exists>a d'. ex_write_sector lba data d = Some (Ok a, d') \<and> disk_ok d' \<and> True) \<or>
      (\<exists>e d'. ex_write_sector lba data d = Some (Err e, d') \<and> disk_ok d')"
    using w by (cases r) (simp_all add: ex_write_sector_def)
qed

lemma fat_offset: "unat (ucast (c :: u32) * 4 mod 512 :: u64) + 4 \<le> SECTOR"
proof -
  have u: "unat (ucast c :: u64) = unat c" using unat_lt_u32 [of c] by (simp add: unsigned_ucast_eq take_bit_nat_eq_self)
  have "unat (ucast c * 4 :: u64) = unat c * 4"
    using unat_lt_u32 [of c] by (simp add: unat_word_ariths u)
  then have "unat (ucast c * 4 mod 512 :: u64) = 4 * (unat c mod 128)" by (simp add: unat_mod mult.commute [of _ 4] mult_mod_right)
  moreover have "unat c mod 128 < 128" by simp
  ultimately show ?thesis by simp
qed

lemma quiet_fat_read [quiet]: "quiet_any (ex_fat_read v c)"
  unfolding ex_fat_read_def Let_def by (rule quiet_andThen [OF quiet_read_sector]) (rule quiet, simp)

lemma quiet_fat_write [quiet]: "quiet_any (ex_fat_write v c x)"
  unfolding ex_fat_write_def Let_def
  by (rule quiet_andThen [OF quiet_read_sector], rule quiet_write_sector) (use fat_offset [of c] in simp)

lemma quiet_read_cluster [quiet]: "quiet_op (ex_read_cluster v c) (\<lambda>b. length b = ex_cluster_bytes v)"
  unfolding quiet_op_def
proof (rule tripleI)
  fix d assume d: "disk_ok d"
  show "(\<exists>a d'. ex_read_cluster v c d = Some (Ok a, d') \<and> disk_ok d' \<and> length a = ex_cluster_bytes v) \<or>
      (\<exists>e d'. ex_read_cluster v c d = Some (Err e, d') \<and> disk_ok d')"
    unfolding ex_read_cluster_def
    by (cases rule: read_run_cases [of "()" "ex_cluster_lba v c" "unat (sectors_per_cluster v)" d])
       (use d in \<open>auto simp: same_data_def length_sectors ex_cluster_bytes_def\<close>)
qed

lemma length_sector_of [simp]: "length (ex_sector_of data s) = SECTOR"
  by (auto simp: ex_sector_of_def Let_def)

lemma quiet_write_cluster [quiet]: "quiet_any (ex_write_cluster v c data)"
  unfolding ex_write_cluster_def by (intro quiet_for_each quiet_write_sector) simp

lemma quiet_zero_cluster [quiet]: "quiet_any (ex_zero_cluster v c)"
  unfolding ex_zero_cluster_def by (rule quiet)

section \<open>Chains and the bitmap\<close>

lemma quiet_walk: "quiet_any (ex_walk v n c chain)"
proof (induction n arbitrary: c chain)
  case (Suc n)
  show ?case unfolding ex_walk.simps
    by (rule quiet_andThen [OF quiet_fat_read]) (auto intro!: quiet_if quiet Suc.IH)
qed (simp add: quiet)

lemma quiet_collect [quiet]: "quiet_any (collect_chain v first nfc len)"
  unfolding collect_chain_def by (intro quiet_if quiet_ret quiet_walk TrueI)

lemma quiet_search [quiet]: "quiet_any (ex_search v count ss st)"
proof (induction ss arbitrary: st)
  case Nil
  show ?case unfolding ex_search.simps by (rule quiet_ret) simp
next
  case (Cons s ss)
  show ?case
  proof (cases st)
    case (Scanning rs rl)
    then show ?thesis using Cons by (auto intro!: quiet_andThen [OF quiet_read_sector])
  qed (simp_all only: ex_search.simps, (rule quiet_ret, simp)+)
qed

lemma length_bitmap_put [simp]: "length (ex_bitmap_put allocated n buf) = length buf"
  by (simp add: ex_bitmap_put_def Let_def)

lemma quiet_bitmap_load:
  assumes "\<And>prev buf. loaded = Some (prev, buf) \<Longrightarrow> length buf = SECTOR"
  shows "quiet_op (ex_bitmap_load v loaded sector) (\<lambda>b. length b = SECTOR)"
  unfolding ex_bitmap_load_def Let_def using assms
  by (auto split: option.split intro!: quiet quiet_andThen [OF quiet_write_sector])

lemma quiet_bitmap_loop:
  "(\<And>prev buf. loaded = Some (prev, buf) \<Longrightarrow> length buf = SECTOR) \<Longrightarrow> quiet_any (ex_bitmap_loop v allocated cs loaded)"
proof (induction cs arbitrary: loaded)
  case Nil
  then show ?case by (auto split: option.split intro!: quiet quiet_write_sector)
next
  case (Cons c cs)
  show ?case unfolding ex_bitmap_loop.simps Let_def
  proof (intro quiet_if quiet_andThen [OF quiet_bitmap_load])
    show "quiet_any (ex_bitmap_loop v allocated cs loaded)" using Cons by blast
    fix prev buf assume "loaded = Some (prev, buf)"
    then show "length buf = SECTOR" by (rule Cons.prems)
  next
    fix a :: bytes assume "length a = SECTOR"
    then show "quiet_any (ex_bitmap_loop v allocated cs (Some (unat (c - 2) div (SECTOR * 8), ex_bitmap_put allocated (unat (c - 2)) a)))"
      by (intro Cons.IH) simp
  qed
qed

lemma quiet_bitmap_set [quiet]: "quiet_any (bitmap_set v cs allocated)"
  unfolding bitmap_set_def by (rule quiet_bitmap_loop) simp

lemma quiet_bitmap_alloc [quiet]: "quiet_any (bitmap_alloc v count)"
  unfolding bitmap_alloc_def
  by (rule quiet_andThen [OF quiet_search]) (auto split: ex_scan.split intro!: quiet quiet_andThen [OF quiet_bitmap_set])

lemma quiet_free_clusters [quiet]: "quiet_any (free_clusters v first nfc len)"
  unfolding free_clusters_def
  by (rule quiet_andThen [OF quiet_attempt [OF quiet_collect]])
    (auto split: sum.split intro!: quiet quiet_for_each quiet_andThen [OF quiet_ignore [OF quiet_bitmap_set]] quiet_ignore [OF quiet_fat_write])

section \<open>Directories\<close>

text \<open>A loaded directory: at least one cluster, and the bytes of all of them.\<close>

definition loaded_dir :: "ExVolume \<Rightarrow> u32 list \<Rightarrow> bytes \<Rightarrow> bool" where
  "loaded_dir v chain data \<longleftrightarrow> chain \<noteq> [] \<and> length data = length chain * ex_cluster_bytes v"

lemma length_concat_clusters:
  "\<forall>y\<in>set ys. length y = n \<Longrightarrow> length (concat ys) = length ys * n"
  by (induction ys) simp_all

lemma quiet_load_dir [quiet]: "quiet_op (ex_load_dir v dir) (\<lambda>(chain, data). loaded_dir v chain data)"
  unfolding ex_load_dir_def
proof (intro quiet_andThen [OF quiet_collect] quiet_if quiet_fail)
  fix chain :: "u32 list" assume ne: "chain \<noteq> []"
  show "quiet_op (andThen (map_each (ex_read_cluster v) chain) (\<lambda>cs. ret (chain, concat cs)))
      (\<lambda>(chain, data). loaded_dir v chain data)"
    by (rule quiet_andThen [OF quiet_map_each [OF quiet_read_cluster]], rule quiet_ret)
      (use ne length_concat_clusters [where n = "ex_cluster_bytes v"] in \<open>metis (mono_tags, lifting) case_prodI loaded_dir_def\<close>)
qed

lemma load_parent [quiet]: "quiet_op (or_err e (ex_load_dir v dir)) (\<lambda>(chain, data). loaded_dir v chain data)"
  by (intro quiet)

lemma cluster_bytes_pos: "sectors_per_cluster v \<noteq> 0 \<Longrightarrow> SECTOR \<le> ex_cluster_bytes v"
  by (simp add: ex_cluster_bytes_def Suc_le_eq unat_gt_0)

text \<open>Writing back a range of a loaded directory stays inside the chain and the data.\<close>

lemma quiet_store_cluster:
  assumes spc: "sectors_per_cluster v \<noteq> 0" and ld: "loaded_dir v chain data"
    and len: "0 < len" "first + len \<le> length data" and ci: "ci \<le> (first + len - 1) div ex_cluster_bytes v"
  shows "quiet_any (store_cluster v chain data first len ci)"
proof -
  define cb where "cb = ex_cluster_bytes v"
  have cb: "512 \<le> cb" using cluster_bytes_pos [OF spc] by (simp add: cb_def)
  have data: "length data = length chain * cb" using ld by (simp add: loaded_dir_def cb_def)
  have "first + len - 1 < length chain * cb" using len data by simp
  then have "(first + len - 1) div cb < length chain" by (rule less_mult_imp_div_less)
  then have in_chain: "ci < length chain" using ci by (simp add: cb_def)
  have cl: "ci * cb + cb \<le> length data"
    using in_chain data mult_le_mono1 [of "Suc ci" "length chain" cb] by simp
  have sec: "ci * cb + s * 512 + 512 \<le> length data"
    if "s < (min (first + len) (ci * cb + cb) - 1 - ci * cb) div 512 + 1" for s
  proof -
    define x where "x = min (first + len) (ci * cb + cb) - 1 - ci * cb"
    have spcs: "cb = unat (sectors_per_cluster v) * 512" by (simp add: cb_def ex_cluster_bytes_def)
    have "x < unat (sectors_per_cluster v) * 512" using cb unfolding spcs [symmetric] by (simp add: x_def)
    then have "x div 512 < unat (sectors_per_cluster v)" by (rule less_mult_imp_div_less)
    then have "s < unat (sectors_per_cluster v)" using that by (simp add: x_def)
    then have "s * 512 + 512 \<le> cb" unfolding spcs by simp
    then show ?thesis using cl by simp
  qed
  show ?thesis
    unfolding store_cluster_def Let_def cb_def [symmetric]
  proof (intro quiet_andThen [OF quiet_gets_opt [where Q = "\<lambda>c. c = chain ! ci"]] quiet_for_each
        quiet_andThen [OF quiet_gets_opt [where Q = "\<lambda>b. length b = SECTOR"]] quiet_write_sector)
    show "\<exists>a. idx chain ci = Some a \<and> a = chain ! ci" using in_chain by simp
    fix s assume "s \<in> set [(max first (ci * cb) - ci * cb) div 512..<(min (first + len) (ci * cb + cb) - 1 - ci * cb) div 512 + 1]"
    then have b: "ci * cb + s * 512 + 512 \<le> length data" using sec by (simp only: set_upt atLeastLessThan_iff)
    then show "\<exists>a. (if ci * cb + s * 512 + 512 \<le> length data then Some (subrange (ci * cb + s * 512) 512 data) else None) = Some a
        \<and> length a = 512" by simp
  qed
qed

lemma quiet_store_dir_range:
  assumes "sectors_per_cluster v \<noteq> 0" and "loaded_dir v chain data" and "0 < len" "first + len \<le> length data"
  shows "quiet_any (store_dir_range v chain data first len)"
  unfolding store_dir_range_def Let_def
  by (rule quiet_for_each, rule quiet_store_cluster [OF assms]) (simp only: set_upt atLeastLessThan_iff, simp)

text \<open>What the parser returns spans at least two slots of the directory.\<close>

lemma parse_loop_count:
  assumes "f \<in> set (parse_loop i es cur left)"
    and "\<And>df. cur = Some df \<Longrightarrow> left \<noteq> 0 \<Longrightarrow> 2 \<le> set_count df"
  shows "2 \<le> set_count f"
  using assms
proof (induction i es cur left rule: parse_loop.induct)
  case (2 i e es cur left)
  have count: "set_count (ex_secondary e df) = set_count df" for df by (simp add: ex_secondary_def)
  have one: "(e ! 1 :: u8) \<noteq> 0 \<Longrightarrow> 1 \<le> unat (e ! 1)" by (simp add: Suc_le_eq unat_gt_0)
  consider (fin) "e ! 0 = 0" | (prim) "e ! 0 \<noteq> 0" "e ! 0 = ET_FILE"
    | (sec) "e ! 0 \<noteq> 0" "e ! 0 \<noteq> ET_FILE" "e ! 0 AND ET_IN_USE \<noteq> 0 \<and> cur \<noteq> None"
    | (other) "e ! 0 \<noteq> 0" "e ! 0 \<noteq> ET_FILE" "\<not> (e ! 0 AND ET_IN_USE \<noteq> 0 \<and> cur \<noteq> None)" by blast
  then show ?case
  proof cases
    case fin
    then show ?thesis using "2.prems"(1) by simp
  next
    case prim
    have "f \<in> set (parse_loop (Suc i) es (Some \<lparr>df_name = [], df_attributes = le16 e 4, df_first = 0, df_length = 0,
             df_no_fat_chain = False, set_offset = i * 32, set_count = 1 + unat (e ! 1)\<rparr>) (e ! 1))"
      using "2.prems"(1) unfolding parse_loop.simps if_not_P [OF prim(1)] if_P [OF prim(2)] .
    then show ?thesis by (rule "2.IH"(1) [OF prim]) (use one in auto)
  next
    case sec
    then obtain df where cur: "cur = Some df" by blast
    define df' where "df' = ex_secondary e df"
    have df': "left \<noteq> 0 \<Longrightarrow> 2 \<le> set_count df'" using "2.prems"(2) [OF cur] count by (simp add: df'_def)
    have "f \<in> set (if left = 0 then parse_loop (Suc i) es (Some df') 0 else if left = 1 then df' # parse_loop (Suc i) es None 0
        else parse_loop (Suc i) es (Some df') (left - 1))"
    proof -
      have "df' = ex_secondary e (the cur)" by (simp add: cur df'_def)
      then show ?thesis
        using "2.prems"(1) unfolding parse_loop.simps if_not_P [OF sec(1)] if_not_P [OF sec(2)] if_P [OF sec(3)] Let_def by (simp only:)
    qed
    then consider "left = 0" "f \<in> set (parse_loop (Suc i) es (Some df') 0)" | "left = 1" "f = df'"
      | "left = 1" "f \<in> set (parse_loop (Suc i) es None 0)"
      | "left \<noteq> 0" "left \<noteq> 1" "f \<in> set (parse_loop (Suc i) es (Some df') (left - 1))"
      by (auto split: if_splits)
    then show ?thesis
      using df' "2.IH"(2-4) [OF sec refl] cur by cases (auto simp: df'_def)
  next
    case other
    then show ?thesis using "2.prems"(1) "2.IH"(5) by (simp only: parse_loop.simps if_False) simp
  qed
qed simp

lemma parse_entries_count: "f \<in> set (parse_entries data) \<Longrightarrow> 2 \<le> set_count f"
  unfolding parse_entries_def by (erule parse_loop_count) simp

lemma quiet_resolve: "quiet_any (ex_resolve v cur parts)"
proof (induction parts arbitrary: cur)
  case (Cons part parts)
  show ?case unfolding ex_resolve.simps
    by (rule quiet_andThen [OF quiet_load_dir]) (auto split: option.split intro!: quiet Cons.IH)
qed (simp add: quiet)

lemma quiet_resolve_parent [quiet]: "quiet_any (resolve_parent v path)"
  unfolding resolve_parent_def Let_def
  by (intro quiet_if quiet_fail quiet_andThen [OF quiet_resolve] quiet_ret) simp

lemma quiet_lookup [quiet]: "quiet_op (ex_lookup v path) (\<lambda>(_, f). 2 \<le> set_count f)"
  unfolding ex_lookup_def
proof (rule quiet_andThen [OF quiet_resolve_parent])
  fix a :: "DirRef \<times> bytes"
  obtain parent nm where a: "a = (parent, nm)" by force
  have "quiet_op (case find (\<lambda>f. names_equal_ascii (df_name f) nm) (parse_entries data) of None \<Rightarrow> fail () | Some f \<Rightarrow> ret (parent, f))
      (\<lambda>(_, f). 2 \<le> set_count f)" for data
    by (auto split: option.split intro!: quiet dest!: find_SomeD parse_entries_count)
  then show "quiet_op (case a of (parent, nm) \<Rightarrow> andThen (ex_load_dir v parent) (\<lambda>(_, data).
     case find (\<lambda>f. names_equal_ascii (df_name f) nm) (parse_entries data) of None \<Rightarrow> fail () | Some f \<Rightarrow> ret (parent, f)))
      (\<lambda>(_, f). 2 \<le> set_count f)"
    unfolding a by (auto intro!: quiet_andThen [OF quiet_load_dir])
qed

section \<open>Placing and updating entry sets\<close>

lemma find_home_bounds:
  assumes "find_home needed i es run_start run_len = (home, fin)" and "run_len < needed"
    and "run_len = 0 \<or> run_start + run_len \<le> i"
  shows "(\<forall>h. home = Some h \<longrightarrow> h + needed \<le> i + length es) \<and> (\<forall>e. fin = Some e \<longrightarrow> e < i + length es)"
  using assms
proof (induction needed i es run_start run_len rule: find_home.induct)
  case (2 needed i e es run_start run_len)
  define rs where "rs = (if run_len = 0 then i else run_start)"
  have rs: "rs + (run_len + 1) \<le> Suc i" using "2.prems"(3) by (auto simp: rs_def)
  consider "e ! 0 = 0" | "e ! 0 \<noteq> 0" "e ! 0 AND ET_IN_USE = 0" "run_len + 1 = needed"
    | "e ! 0 \<noteq> 0" "e ! 0 AND ET_IN_USE = 0" "run_len + 1 \<noteq> needed" | "e ! 0 \<noteq> 0" "e ! 0 AND ET_IN_USE \<noteq> 0" by blast
  then show ?case
  proof cases
    case 1
    then show ?thesis using "2.prems"(1) by auto
  next
    case 2
    then have "home = Some rs" "fin = None" using "2.prems"(1) by (auto simp: rs_def Let_def)
    then show ?thesis using rs 2(3) by simp
  next
    case 3
    then have "find_home needed (Suc i) es rs (run_len + 1) = (home, fin)" using "2.prems"(1) by (auto simp: rs_def Let_def)
    from "2.IH"(1) [OF 3(1,2) rs_def 3(3) this] rs 3(3) "2.prems"(2) show ?thesis by simp
  next
    case 4
    then have "find_home needed (Suc i) es run_start 0 = (home, fin)" using "2.prems"(1) by auto
    from "2.IH"(2) [OF 4 this] "2.prems"(2) show ?thesis by simp
  qed
qed simp

lemma quiet_undo_cluster [quiet]: "quiet_any (ex_undo_cluster v c)"
  unfolding ex_undo_cluster_def
  by (rule quiet_andThen [OF quiet_ignore [OF quiet_fat_write]]) (rule quiet_ignore [OF quiet_bitmap_set])

lemma quiet_init_cluster [quiet]: "quiet_any (ex_init_cluster v c)"
  unfolding ex_init_cluster_def by (rule quiet_andThen [OF quiet_zero_cluster]) (rule quiet_fat_write)

lemma quiet_undo_fail: "quiet_op (andThen (ex_undo_cluster v c) (\<lambda>_. fail e)) Q"
  by (rule quiet_andThen [OF quiet_undo_cluster]) (rule quiet_fail)

text \<open>The rounds of the growing loop suffice.\<close>

lemma quiet_grow:
  assumes "sectors_per_cluster v \<noteq> 0" and "loaded_dir v chain data" and "fin < length data + fuel" and "0 < fuel"
  shows "quiet_op (ex_grow v root fuel fin chain data) (\<lambda>(chain, data). loaded_dir v chain data \<and> fin \<le> length data)"
  using assms(2-4)
proof (induction fuel arbitrary: chain data)
  case (Suc fuel)
  show ?case
  proof (cases "fin \<le> length data")
    case True
    show ?thesis unfolding ex_grow.simps if_P [OF True] by (rule quiet_ret) (use True Suc.prems in simp)
  next
    case False
    define n where "n c = length (chain @ [c]) * ex_cluster_bytes v" for c :: u32
    have n: "length data \<le> n c" "n c = length data + ex_cluster_bytes v" for c
      using Suc.prems(1) by (simp_all add: n_def loaded_dir_def algebra_simps)
    have ld: "loaded_dir v (chain @ [c]) (take (n c) data @ replicate (n c - length data) 0)" for c
      using n [of c] by (simp add: loaded_dir_def n_def)
    have len: "length (take (n c) data @ replicate (n c - length data) 0) = n c" for c using n [of c] by simp
    have "0 < fuel" using False Suc.prems(2) by simp
    have fuel: "fin < length (take (n c) data @ replicate (n c - length data) 0) + fuel" for c
      unfolding len using n(2) [of c] Suc.prems(2) cluster_bytes_pos [OF assms(1)] by simp
    show ?thesis
      unfolding ex_grow.simps if_not_P [OF False] Let_def n_def [symmetric]
      by (intro quiet_if quiet_fail quiet_andThen [OF quiet_or_err [OF quiet_bitmap_alloc]]
          quiet_andThen [OF quiet_attempt [OF quiet_init_cluster]] quiet_undo_fail
          quiet_andThen [OF quiet_attempt [OF quiet_fat_write]] Suc.IH ld fuel \<open>0 < fuel\<close>)
  qed
qed simp

lemma quiet_place [quiet]:
  assumes spc: "sectors_per_cluster v \<noteq> 0" and es: "length es = 32 * needed" "0 < needed"
  shows "quiet_any (place_entry_set v dir es)"
  unfolding place_entry_set_def
proof (rule quiet_andThen [OF load_parent])
  fix a :: "u32 list \<times> bytes" assume a0: "case a of (chain, data) \<Rightarrow> loaded_dir v chain data"
  obtain chain data where a: "a = (chain, data)" by force
  have ld: "loaded_dir v chain data" using a0 a by simp
  obtain home fin where h: "find_home needed 0 (chunks32 data) 0 0 = (home, fin)" by force
  have b: "\<And>i. home = Some i \<Longrightarrow> i + needed \<le> length data div 32" "\<And>i. fin = Some i \<Longrightarrow> i < length data div 32"
    using find_home_bounds [OF h] es(2) by auto
  define at_end where "at_end = (case fin of Some i \<Rightarrow> i * 32 | None \<Rightarrow> length data)"
  have at_end: "at_end \<le> length data" using b(2) by (auto simp: at_end_def split: option.split)
  define Q where "Q = (\<lambda>(off :: nat, chain, data). loaded_dir v chain data \<and> off + length es \<le> length data)"
  have place: "quiet_op (case home of Some i \<Rightarrow> ret (i * 32, chain, data)
      | None \<Rightarrow> andThen (ex_grow v (is_root dir) (length es + 1) (at_end + length es) chain data) (\<lambda>(chain, data). ret (at_end, chain, data))) Q"
  proof (cases home)
    case None
    have "at_end + length es < length data + (length es + 1)" using at_end by simp
    then show ?thesis unfolding None option.case
      by (rule quiet_andThen [OF quiet_grow [OF spc ld]], simp) (auto intro!: quiet_ret simp: Q_def split: prod.splits)
  next
    case (Some i)
    then show ?thesis using b(1) [OF Some] ld es by (auto intro!: quiet_ret simp: Q_def)
  qed
  have rest: "quiet_any (case c of (off, chain, data) \<Rightarrow>
     andThen (gets_opt (\<lambda>d. if off + length es \<le> length data then Some (put_at off es data) else None)) (\<lambda>data.
     or_err ''directory write failed'' (store_dir_range v chain data off (length es))))" if "Q c" for c
  proof -
    obtain off ch dt where c: "c = (off, ch, dt)" by (cases c)
    have q: "loaded_dir v ch dt" "off + length es \<le> length dt" using that c by (simp_all add: Q_def)
    have "loaded_dir v ch (put_at off es dt)" using q by (simp add: loaded_dir_def)
    then show ?thesis unfolding c split
      by (intro quiet_andThen [OF quiet_gets_opt [where Q = "\<lambda>x. x = put_at off es dt"]] quiet_or_err)
        (use q es in \<open>auto intro!: quiet_store_dir_range [OF spc]\<close>)
  qed
  have eq: "(case find_home (length es div 32) 0 (chunks32 data) 0 0 of
                (Some i, _) \<Rightarrow> ret (i * 32, chain, data)
              | (None, e) \<Rightarrow>
                  let fin = (case e of Some i \<Rightarrow> i * 32 | None \<Rightarrow> length data) in
                  andThen (ex_grow v (is_root dir) (length es + 1) (fin + length es) chain data) (\<lambda>(chain, data).
                  ret (fin, chain, data))) =
      (case home of Some i \<Rightarrow> ret (i * 32, chain, data)
      | None \<Rightarrow> andThen (ex_grow v (is_root dir) (length es + 1) (at_end + length es) chain data) (\<lambda>(chain, data). ret (at_end, chain, data)))"
    using es h by (simp add: at_end_def Let_def del: ex_grow.simps split: option.split)
  show "quiet_any (case a of (chain, data) \<Rightarrow> andThen (case find_home (length es div 32) 0 (chunks32 data) 0 0 of
                (Some i, _) \<Rightarrow> ret (i * 32, chain, data)
              | (None, e) \<Rightarrow>
                  let fin = (case e of Some i \<Rightarrow> i * 32 | None \<Rightarrow> length data) in
                  andThen (ex_grow v (is_root dir) (length es + 1) (fin + length es) chain data) (\<lambda>(chain, data).
                  ret (fin, chain, data))) (\<lambda>(off, chain, data).
     andThen (gets_opt (\<lambda>d. if off + length es \<le> length data then Some (put_at off es data) else None)) (\<lambda>data.
     or_err ''directory write failed'' (store_dir_range v chain data off (length es)))))"
    unfolding a split eq by (rule quiet_andThen [OF place rest])
qed

lemma loaded_dir_same: "loaded_dir v chain data \<Longrightarrow> length data' = length data \<Longrightarrow> loaded_dir v chain data'"
  by (simp add: loaded_dir_def)

text \<open>The check both users of a found entry make after loading the directory again.\<close>

lemma quiet_stale_check:
  assumes "0 < set_len"
  shows "quiet_op (gets_opt (\<lambda>d. if length data < off + set_len then Some False else map_option (\<lambda>b. b = ET_FILE) (idx data off)))
    (\<lambda>ok. ok \<longrightarrow> off + set_len \<le> length data)"
  by (rule quiet_gets_opt) (use assms in auto)

lemma quiet_update [quiet]:
  assumes spc: "sectors_per_cluster v \<noteq> 0" and f: "2 \<le> set_count f"
  shows "quiet_any (update_stream_entry v dir f flags first len)"
  unfolding update_stream_entry_def
proof (rule quiet_andThen [OF load_parent], simp only: split_beta)
  fix a :: "u32 list \<times> bytes" assume ld: "loaded_dir v (fst a) (snd a)"
  define off data where "off = set_offset f" and "data = snd a"
  have set_len: "0 < set_count f * 32" using f by simp
  define s' where "s' s = put_at 24 (to_le 8 len) (put_at 20 (to_le 4 first) (put_at 8 (to_le 8 len) (s[1 := flags])))" for s :: bytes
  have "quiet_any (andThen (gets_opt (\<lambda>d. if off + 64 \<le> length data then Some (subrange (off + 32) 32 data) else None)) (\<lambda>s.
          if s ! 0 \<noteq> ET_STREAM then fail ''missing stream entry''
          else andThen (gets_opt (\<lambda>d. if off + 4 \<le> length (put_at (off + 32) (s' s) data)
                          then Some (put_at (off + 2) (to_le 2 (entry_set_checksum (subrange off (set_count f * 32)
                            (put_at (off + 32) (s' s) data)))) (put_at (off + 32) (s' s) data)) else None)) (\<lambda>data.
               or_err ''directory write failed'' (store_dir_range v (fst a) data off (set_count f * 32)))))"
    if fits: "off + set_count f * 32 \<le> length data"
  proof (rule quiet_andThen [OF quiet_gets_opt [where Q = "\<lambda>s. length s = 32"]])
    have b: "off + 64 \<le> length data" using fits f by simp
    then show "\<exists>s. (if off + 64 \<le> length data then Some (subrange (off + 32) 32 data) else None) = Some s \<and> length s = 32" by simp
    fix s :: bytes assume "length s = 32"
    then have l: "length (s' s) = 32" by (simp add: s'_def)
    have l1: "length (put_at (off + 32) (s' s) data) = length data" using b l by simp
    show "quiet_any (if s ! 0 \<noteq> ET_STREAM then fail ''missing stream entry''
          else andThen (gets_opt (\<lambda>d. if off + 4 \<le> length (put_at (off + 32) (s' s) data)
                          then Some (put_at (off + 2) (to_le 2 (entry_set_checksum (subrange off (set_count f * 32)
                            (put_at (off + 32) (s' s) data)))) (put_at (off + 32) (s' s) data)) else None)) (\<lambda>data.
               or_err ''directory write failed'' (store_dir_range v (fst a) data off (set_count f * 32))))"
    proof (intro quiet_if quiet_fail quiet_andThen [OF quiet_gets_opt [where Q = "\<lambda>x. length x = length data"]] quiet_or_err)
      show "\<exists>x. (if off + 4 \<le> length (put_at (off + 32) (s' s) data)
                          then Some (put_at (off + 2) (to_le 2 (entry_set_checksum (subrange off (set_count f * 32)
                            (put_at (off + 32) (s' s) data)))) (put_at (off + 32) (s' s) data)) else None) = Some x \<and> length x = length data"
        using b l1 by simp
      fix x :: bytes assume "length x = length data"
      then show "quiet_any (store_dir_range v (fst a) x off (set_count f * 32))"
        by (intro quiet_store_dir_range [OF spc] loaded_dir_same [OF ld]) (use set_len fits in \<open>simp_all add: data_def\<close>)
    qed
  qed
  then show "quiet_any (let off = set_offset f; set_len = set_count f * 32 in
     andThen (gets_opt (\<lambda>d. if length (snd a) < off + set_len then Some False else map_option (\<lambda>b. b = ET_FILE) (idx (snd a) off))) (\<lambda>ok.
     if \<not> ok then fail ''stale directory entry''
     else andThen (gets_opt (\<lambda>d. if off + 64 \<le> length (snd a) then Some (subrange (off + 32) 32 (snd a)) else None)) (\<lambda>s.
          if s ! 0 \<noteq> ET_STREAM then fail ''missing stream entry''
          else let s = put_at 24 (to_le 8 len) (put_at 20 (to_le 4 first) (put_at 8 (to_le 8 len) (s[1 := flags])));
                   data = put_at (off + 32) s (snd a) in
               andThen (gets_opt (\<lambda>d. if off + 4 \<le> length data
                          then Some (put_at (off + 2) (to_le 2 (entry_set_checksum (subrange off set_len data))) data) else None)) (\<lambda>data.
               or_err ''directory write failed'' (store_dir_range v (fst a) data off set_len)))))"
    unfolding Let_def off_def [symmetric] data_def [symmetric] s'_def [symmetric]
    by (intro quiet_andThen [OF quiet_stale_check [OF set_len]] quiet_if quiet_fail) simp
qed

lemma length_foldl_update: "length (foldl (\<lambda>data i. data[g i := h data i]) data is) = length data"
  by (induction "is" arbitrary: data) simp_all

lemma quiet_unlink [quiet]:
  assumes spc: "sectors_per_cluster v \<noteq> 0" and f: "2 \<le> set_count f"
  shows "quiet_any (ex_unlink v parent f)"
  unfolding ex_unlink_def
proof (rule quiet_andThen [OF load_parent], simp only: split_beta)
  fix a :: "u32 list \<times> bytes" assume ld: "loaded_dir v (fst a) (snd a)"
  have set_len: "0 < set_count f * 32" using f by simp
  show "quiet_any (let off = set_offset f; set_len = set_count f * 32 in
     andThen (gets_opt (\<lambda>d. if length (snd a) < off + set_len then Some False else map_option (\<lambda>b. b = ET_FILE) (idx (snd a) off))) (\<lambda>ok.
     if \<not> ok then fail ''stale directory entry''
     else let data = foldl (\<lambda>data i. data[off + i * 32 := data ! (off + i * 32) AND NOT ET_IN_USE]) (snd a) [0..<set_count f] in
          or_err ''directory write failed'' (store_dir_range v (fst a) data off set_len)))"
    unfolding Let_def
    by (intro quiet_andThen [OF quiet_stale_check [OF set_len]] quiet_if quiet_fail quiet_or_err quiet_store_dir_range [OF spc]
        loaded_dir_same [OF ld] set_len) (simp_all add: length_foldl_update)
qed

section \<open>Operations\<close>

lemma quiet_rollback [quiet]: "quiet_any (rollback_contiguous v first len)"
  unfolding rollback_contiguous_def by (intro quiet_if quiet_free_clusters quiet_ret TrueI)

lemma quiet_rollback_fail: "quiet_op (andThen (rollback_contiguous v first len) (\<lambda>_. fail e)) Q"
  by (rule quiet_andThen [OF quiet_rollback]) (rule quiet_fail)

lemma quiet_write_data [quiet]: "quiet_any (write_data_contiguous v data)"
  unfolding write_data_contiguous_def Let_def ex_write_part_def
  by (intro quiet_if quiet_ret TrueI quiet_andThen [OF quiet_or_err [OF quiet_bitmap_alloc]]
      quiet_andThen [OF quiet_attempt [OF quiet_for_each [OF quiet_write_cluster]]] quiet_rollback_fail)

lemma quiet_read_clusters: "quiet_any (ex_read_clusters v cs remaining data)"
proof (induction cs arbitrary: remaining data)
  case (Cons c cs)
  show ?case unfolding ex_read_clusters.simps Let_def
    by (intro quiet_if quiet_ret TrueI quiet_andThen [OF quiet_read_cluster] Cons.IH)
qed (simp add: quiet)

lemma quiet_read_inner [quiet]: "quiet_any (read_file_inner v f)"
  unfolding read_file_inner_def
  by (intro quiet_if quiet_ret TrueI quiet_andThen [OF quiet_collect] quiet_fail quiet_read_clusters)

lemma quiet_place_built:
  "sectors_per_cluster v \<noteq> 0 \<Longrightarrow> quiet_any (place_entry_set v dir (build_entry_set nm attributes flags first len))"
  by (rule quiet_place [OF _ length_build]) simp_all

lemma quiet_case_prod: "(\<And>x y. a = (x, y) \<Longrightarrow> quiet_op (f x y) Q) \<Longrightarrow> quiet_op (case a of (x, y) \<Rightarrow> f x y) Q"
  by (cases a) simp

lemma quiet_new_name [quiet]: "quiet_any (ex_new_name v path)"
  unfolding ex_new_name_def
  by (intro quiet_andThen [OF quiet_or_err [OF quiet_resolve_parent]] quiet_case_prod quiet_andThen [OF quiet_gets_res [OF refl]]
      quiet_andThen [OF load_parent] quiet_if quiet_fail quiet_ret TrueI)

lemma quiet_create [quiet]:
  assumes "sectors_per_cluster v \<noteq> 0"
  shows "quiet_any (ex_create v path data)"
  unfolding ex_create_def
  by (intro quiet_andThen [OF quiet_new_name] quiet_case_prod quiet_andThen [OF quiet_write_data]
      quiet_andThen [OF quiet_attempt [OF quiet_place_built [OF assms]]])
    (auto split: sum.split intro!: quiet_rollback_fail quiet_ret)

lemma quiet_overwrite [quiet]:
  assumes "sectors_per_cluster v \<noteq> 0" and "2 \<le> set_count f"
  shows "quiet_any (ex_overwrite v parent f data)"
  unfolding ex_overwrite_def
  by (intro quiet_if quiet_fail quiet_andThen [OF quiet_write_data] quiet_andThen [OF quiet_attempt [OF quiet_update [OF assms]]])
    (auto split: sum.split intro!: quiet_rollback_fail quiet_free_clusters)

lemma quiet_write [quiet]:
  assumes "sectors_per_cluster v \<noteq> 0"
  shows "quiet_any (ex_write v path data)"
  unfolding ex_write_def
  by (rule quiet_andThen [OF quiet_attempt [OF quiet_lookup]])
    (auto split: sum.split intro!: quiet_create [OF assms] quiet_overwrite [OF assms])

lemma quiet_delete [quiet]:
  assumes "sectors_per_cluster v \<noteq> 0"
  shows "quiet_any (ex_delete_op v path)"
  unfolding ex_delete_op_def
proof (intro quiet_andThen [OF quiet_or_err [OF quiet_lookup]] quiet_case_prod)
  fix a and parent :: DirRef and f :: DirFile assume "case a of (_, f) \<Rightarrow> 2 \<le> set_count f" and "a = (parent, f)"
  then have f: "2 \<le> set_count f" by simp
  have "quiet_any (if df_is_dir f
              then andThen (or_err ''directory read failed'' (ex_load_dir v (dir_ref_of f))) (\<lambda>(_, ddata).
                   if parse_entries ddata \<noteq> [] then fail ''directory not empty'' else ret ())
              else ret ())"
    by (intro quiet_if quiet_ret TrueI quiet_andThen [OF load_parent] quiet_case_prod quiet_fail)
  then show "quiet_any (andThen (if df_is_dir f
              then andThen (or_err ''directory read failed'' (ex_load_dir v (dir_ref_of f))) (\<lambda>(_, ddata).
                   if parse_entries ddata \<noteq> [] then fail ''directory not empty'' else ret ())
              else ret ()) (\<lambda>_.
     andThen (ex_unlink v parent f) (\<lambda>_. free_clusters v (df_first f) (df_no_fat_chain f) (df_length f))))"
    by (rule quiet_andThen) (intro quiet_andThen [OF quiet_unlink [OF assms f]] quiet_free_clusters)
qed

lemma quiet_mkdir [quiet]:
  assumes "sectors_per_cluster v \<noteq> 0"
  shows "quiet_any (ex_mkdir_op v path)"
  unfolding ex_mkdir_op_def
  by (intro quiet_andThen [OF quiet_new_name] quiet_case_prod quiet_andThen [OF quiet_or_err [OF quiet_bitmap_alloc]]
      quiet_andThen [OF quiet_attempt [OF quiet_init_cluster]] quiet_if quiet_undo_fail
      quiet_andThen [OF quiet_attempt [OF quiet_place_built [OF assms]]])
    (auto split: sum.split intro!: quiet_undo_fail quiet_ret)

lemma quiet_dir_of [quiet]: "quiet_any (ex_dir_of v path)"
  unfolding ex_dir_of_def by (intro quiet_if quiet_ret TrueI quiet_andThen [OF quiet_lookup] quiet_case_prod quiet_fail)

section \<open>Mounting and calls\<close>

lemma root_entries_spc: "sectors_per_cluster (fst (root_entries_scan v es)) = sectors_per_cluster v"
  by (induction v es rule: root_entries_scan.induct) simp_all

lemma quiet_root_scan: "sectors_per_cluster v \<noteq> 0 \<Longrightarrow> quiet_op (root_scan v cs) (\<lambda>v'. sectors_per_cluster v' \<noteq> 0)"
proof (induction cs arbitrary: v)
  case (Cons c cs)
  show ?case unfolding root_scan.simps
  proof (rule quiet_andThen [OF quiet_attempt [OF quiet_read_cluster]])
    fix r :: "unit + bytes"
    show "quiet_op (case r of Inl _ \<Rightarrow> ret v | Inr buf \<Rightarrow> let (v', fin) = root_entries_scan v (chunks32 buf)
        in if fin then ret v' else root_scan v' cs) (\<lambda>v'. sectors_per_cluster v' \<noteq> 0)"
    proof (cases r)
      case (Inr buf)
      obtain v' fin where s: "root_entries_scan v (chunks32 buf) = (v', fin)" by force
      then have "sectors_per_cluster v' \<noteq> 0" using root_entries_spc [of v "chunks32 buf"] Cons.prems by simp
      then show ?thesis using Inr s Cons.IH by (auto intro!: quiet_ret)
    qed (use Cons.prems in \<open>auto intro!: quiet_ret\<close>)
  qed
qed (simp add: quiet)

lemma geometry_spc: "sectors_per_cluster (ex_geometry bs) \<noteq> 0"
proof -
  have "bit (push_bit n 1 :: u32) n" if "n < 32" for n using that by (simp add: bit_push_bit_iff)
  then have "(push_bit n 1 :: u32) \<noteq> 0" if "n < 32" for n using that by fastforce
  then show ?thesis by (simp add: ex_geometry_def)
qed

lemma quiet_find_volume: "quiet_op ex_find_volume (\<lambda>v. sectors_per_cluster v \<noteq> 0)"
  unfolding ex_find_volume_def Let_def
  by (intro quiet_andThen [OF quiet_gets [where Q = "\<lambda>_. True"]] TrueI quiet_if quiet_fail quiet_andThen [OF quiet_read_sector]
      quiet_andThen [OF quiet_collect] quiet_andThen [OF quiet_root_scan [OF geometry_spc]] quiet_ret)

definition ex_fs_ok :: "ex_fs \<Rightarrow> bool" where
  "ex_fs_ok f \<longleftrightarrow> disk_ok (ex_device f) \<and> (case ex_volume f of None \<Rightarrow> True | Some v \<Rightarrow> sectors_per_cluster v \<noteq> 0)"

definition ex_safe :: "(ex_fs, 'e, 'a) op \<Rightarrow> bool" where
  "ex_safe m \<longleftrightarrow> triple ex_fs_ok m (\<lambda>_. ex_fs_ok) (\<lambda>_. ex_fs_ok)"

lemma ex_with_safe:
  assumes "\<And>v. sectors_per_cluster v \<noteq> 0 \<Longrightarrow> quiet_any (m v)"
  shows "ex_safe (ex_with none m)"
  unfolding ex_safe_def
proof (rule tripleI)
  fix f assume f: "ex_fs_ok f"
  show "(\<exists>a f'. ex_with none m f = Some (Ok a, f') \<and> ex_fs_ok f') \<or> (\<exists>e f'. ex_with none m f = Some (Err e, f') \<and> ex_fs_ok f')"
  proof (cases "ex_volume f")
    case None
    then show ?thesis using f by (simp add: ex_with_def)
  next
    case (Some v)
    then have "quiet_any (m v)" and d: "disk_ok (ex_device f)" using f assms by (simp_all add: ex_fs_ok_def)
    from this(1) [unfolded quiet_op_def] d show ?thesis
      by (cases rule: tripleE) (use Some f in \<open>auto simp: ex_with_def ex_fs_ok_def\<close>)
  qed
qed

lemma ex_mount_safe: "ex_safe ex_mount"
  unfolding ex_safe_def
proof (rule tripleI)
  fix f assume f: "ex_fs_ok f"
  then have "disk_ok (ex_device f)" by (simp add: ex_fs_ok_def)
  from quiet_find_volume [unfolded quiet_op_def] this
  show "(\<exists>a f'. ex_mount f = Some (Ok a, f') \<and> ex_fs_ok f') \<or> (\<exists>e f'. ex_mount f = Some (Err e, f') \<and> ex_fs_ok f')"
    by (cases rule: tripleE) (use f in \<open>auto simp: ex_mount_def ex_fs_ok_def\<close>)
qed

lemma ex_safe_andThen: "ex_safe m \<Longrightarrow> (\<And>a. ex_safe (f a)) \<Longrightarrow> ex_safe (andThen m f)"
  unfolding ex_safe_def by (rule triple_andThen)

lemma ex_safe_ret: "ex_safe (ret a)"
  by (simp add: ex_safe_def triple_def)

lemma ex_safe_try: "ex_safe m \<Longrightarrow> ex_safe (ex_try m)"
  unfolding ex_try_def ex_safe_def
  by (rule triple_andThen [OF triple_attempt], assumption) (auto simp: triple_def split: sum.splits)

lemma ex_safe_if: "(b \<Longrightarrow> ex_safe m) \<Longrightarrow> (\<not> b \<Longrightarrow> ex_safe n) \<Longrightarrow> ex_safe (if b then m else n)"
  by simp

lemma ex_read_dir_safe: "ex_safe (ex_read_dir path)"
  unfolding ex_read_dir_def
  by (intro ex_with_safe quiet_andThen [OF quiet_dir_of] quiet_andThen [OF quiet_load_dir] quiet_case_prod quiet_ret TrueI)

lemma ex_metadata_safe: "ex_safe (ex_metadata path)"
  unfolding ex_metadata_def by (intro ex_with_safe quiet_andThen [OF quiet_lookup] quiet_case_prod quiet_ret TrueI)

lemma ex_directory_id_safe: "ex_safe (ex_directory_id path)"
  unfolding ex_directory_id_def
  by (intro ex_with_safe quiet_if quiet_ret TrueI quiet_andThen [OF quiet_lookup] quiet_case_prod quiet_fail)

lemma ex_read_file_safe: "ex_safe (ex_read_file path)"
  unfolding ex_read_file_def
  by (intro ex_with_safe quiet_andThen [OF quiet_lookup] quiet_case_prod quiet_if quiet_fail quiet_read_inner)

lemma ex_create_file_safe: "ex_safe (ex_create_file path data)"
  unfolding ex_create_file_def by (intro ex_with_safe quiet_create)

lemma ex_write_file_safe: "ex_safe (ex_write_file path data)"
  unfolding ex_write_file_def by (intro ex_with_safe quiet_write)

lemma ex_append_file_safe: "ex_safe (ex_append_file path data)"
  unfolding ex_append_file_def
  by (intro ex_safe_andThen ex_with_safe ex_write_file_safe quiet_andThen [OF quiet_attempt [OF quiet_lookup]])
    (auto split: sum.split intro!: quiet_fail quiet_ret quiet_or_err [OF quiet_read_inner])

lemma ex_delete_safe: "ex_safe (ex_delete path)"
  unfolding ex_delete_def by (intro ex_with_safe quiet_delete)

lemma ex_mkdir_safe: "ex_safe (ex_mkdir path)"
  unfolding ex_mkdir_def by (intro ex_with_safe quiet_mkdir)

lemma ex_until_error_safe: "(\<And>x. ex_safe (f x)) \<Longrightarrow> ex_safe (ex_until_error f xs)"
  by (induction xs) (auto intro!: ex_safe_ret ex_safe_andThen ex_safe_try)

lemmas ex_call_safe = ex_read_dir_safe ex_metadata_safe ex_directory_id_safe ex_read_file_safe ex_create_file_safe
  ex_write_file_safe ex_append_file_safe ex_delete_safe ex_mkdir_safe ex_mount_safe

lemma ex_list_dir_safe: "ex_safe (ex_list_dir path)"
  unfolding ex_list_dir_def by (intro ex_safe_andThen ex_safe_try ex_call_safe ex_safe_ret)

lemma ex_demo_safe: "ex_safe ex_demo"
  unfolding ex_demo_def ex_demo_files_def ex_demo_stress_def
  by (intro ex_safe_andThen ex_safe_if ex_safe_ret ex_safe_try ex_call_safe ex_list_dir_safe ex_until_error_safe)

end
