(* ===== verification/Fs.thy ===== *)
theory Fs
  imports Fat_Theorems Exfat_Safety
begin

text \<open>
  The file interface of the shell and the program loader (\<open>src/fs/mod.rs\<close>): FAT is tried first, and
  exFAT when no FAT volume is found; afterwards every call goes to the driver that is mounted. Both
  drivers work on the same block device. A Rust \<open>&str\<close> is its list of scalar values in the FAT driver
  and its UTF-8 bytes in the exFAT driver, which looks at single bytes only.

  The locale \<open>file_driver\<close> is the contract a driver gives its callers: a call returns in every good
  state and leaves a good state behind. It is interpreted on both drivers and on the dispatcher.
\<close>

section \<open>Operations\<close>



















section \<open>The contract of a driver\<close>
























section \<open>The dispatcher\<close>










end
