(* ===== verification/Frame_Allocator.thy ===== *)
theory Frame_Allocator
  imports Kernel_Prelude
begin

text \<open>
  The physical frame allocator (\<open>src/src/memory/frame_allocator.rs\<close>): one bitmap of used frames, one
  of free frames known to be zero, and the RAM behind them. Physical addresses and frame numbers are
  \<open>nat\<close>; where the \<open>u64\<close> arithmetic of the source may wrap the reduction is written out. RAM is a
  function from the address of a 64-bit word to the word; \<open>scrub\<close> stores the zeros one by one.
\<close>

section \<open>Definitions\<close>

definition FRAME_SIZE :: nat where "FRAME_SIZE = 4096"

definition MAX_PHYSICAL_MEMORY :: nat where "MAX_PHYSICAL_MEMORY = 32 * 1024 * 1024 * 1024"

definition BITMAP_ENTRIES :: nat where "BITMAP_ENTRIES = MAX_PHYSICAL_MEMORY div FRAME_SIZE div 32"

record PhysRange =
  pr_start :: nat
  pr_end :: nat

type_synonym ram = "nat \<Rightarrow> u64"

record FrameAllocator =
  fa_bitmap :: "u32 list"
  fa_zeroed :: "u32 list"
  fa_total :: nat
  fa_free :: nat
  fa_last :: nat
  fa_ram :: ram

definition scrub :: "nat \<Rightarrow> nat \<Rightarrow> ram \<Rightarrow> ram" where
  "scrub phys n m = fold (\<lambda>k m. m(phys + 8 * k := 0)) [0..<n div 8] m"

definition set_range :: "u32 list \<Rightarrow> nat \<Rightarrow> nat \<Rightarrow> bool \<Rightarrow> u32 list" where
  "set_range bm start end used =
     (let end = min end MAX_PHYSICAL_MEMORY;
          (first, last) =
            (if used then (start div FRAME_SIZE, (end + FRAME_SIZE - 1) div FRAME_SIZE)
             else ((start + FRAME_SIZE - 1) mod 2 ^ 64 div FRAME_SIZE, end div FRAME_SIZE))
      in fold (\<lambda>i bm. if used then bm_set bm i else bm_clear bm i) [first..<min last (BITMAP_ENTRIES * 32)] bm)"

definition checked_add :: "nat \<Rightarrow> nat \<Rightarrow> nat option" where
  "checked_add a b = (if a + b < 2 ^ 64 then Some (a + b) else None)"

definition page_down :: "nat \<Rightarrow> nat" where
  "page_down a = a div FRAME_SIZE * FRAME_SIZE"

text \<open>
  The inner loop of the search for the allocator's own memory: it skips past the reserved range it
  runs into, so \<open>start\<close> grows at every turn.
\<close>

function place_header :: "PhysRange list \<Rightarrow> nat \<Rightarrow> nat \<Rightarrow> nat \<Rightarrow> nat option" where
  "place_header reserved bytes limit start =
     (case checked_add start bytes of
        None \<Rightarrow> None
      | Some end \<Rightarrow>
          if end > limit then None
          else (case find (\<lambda>x. start < pr_end x \<and> end > pr_start x) reserved of
                  None \<Rightarrow> Some start
                | Some overlap \<Rightarrow>
                    (case checked_add (pr_end overlap) (FRAME_SIZE - 1) of
                       None \<Rightarrow> None
                     | Some e \<Rightarrow> place_header reserved bytes limit (page_down e))))"
  by pat_completeness auto

lemma page_down_ge: "a \<le> page_down (a + (FRAME_SIZE - 1))"
proof -
  have "a + 4095 = (a + 4095) div 4096 * 4096 + (a + 4095) mod 4096" by simp
  moreover have "(a + 4095) mod 4096 \<le> 4095" by (simp add: less_Suc_eq_le [symmetric])
  ultimately show ?thesis unfolding page_down_def FRAME_SIZE_def by simp
qed

termination place_header
proof (relation "measure (\<lambda>(_, _, limit, start). 2 ^ 64 + limit - start)", goal_cases)
  case (2 reserved bytes limit start "end" overlap e)
  then have "start < pr_end overlap" by (auto dest: find_SomeD)
  moreover from 2 have "pr_end overlap \<le> page_down e"
    using page_down_ge [of "pr_end overlap"] by (auto simp: checked_add_def split: if_splits)
  moreover from 2 have "start < 2 ^ 64" by (auto simp: checked_add_def split: if_splits)
  ultimately show ?case by simp
qed simp

declare place_header.simps [simp del]

definition find_header :: "PhysRange list \<Rightarrow> PhysRange list \<Rightarrow> nat \<Rightarrow> nat \<Rightarrow> nat option" where
  "find_header usable reserved min_addr bytes =
     map_option the (find (\<lambda>r. r \<noteq> None)
       (map (\<lambda>r. place_header reserved bytes (min (pr_end r) MAX_PHYSICAL_MEMORY)
                   (page_down ((max (pr_start r) min_addr + FRAME_SIZE - 1) mod 2 ^ 64))) usable))"

definition is_free :: "FrameAllocator \<Rightarrow> nat \<Rightarrow> bool" where
  "is_free fa i = (\<not> bm_test (fa_bitmap fa) i)"

definition fa_init :: "PhysRange list \<Rightarrow> PhysRange list \<Rightarrow> nat \<Rightarrow> ram \<Rightarrow> FrameAllocator option" where
  "fa_init usable reserved min_addr m =
     (let top = min (fold max (map pr_end usable) 0) MAX_PHYSICAL_MEMORY;
          total = top div FRAME_SIZE;
          bitmap_bytes = BITMAP_ENTRIES * 4;
          reserved_bytes = (1 + (2 * bitmap_bytes + FRAME_SIZE - 1) div FRAME_SIZE) * FRAME_SIZE
      in case find_header usable reserved min_addr reserved_bytes of
           None \<Rightarrow> None
         | Some header \<Rightarrow>
             let m = scrub header reserved_bytes m;
                 bm = replicate BITMAP_ENTRIES (- 1);
                 bm = fold (\<lambda>r bm. set_range bm (pr_start r) (pr_end r) False) usable bm;
                 bm = fold (\<lambda>r bm. set_range bm (pr_start r) (pr_end r) True) reserved bm;
                 bm = set_range bm header (header + reserved_bytes) True
             in Some \<lparr>fa_bitmap = bm, fa_zeroed = replicate BITMAP_ENTRIES 0, fa_total = total,
                  fa_free = length (filter (\<lambda>i. \<not> bm_test bm i) [0..<total]), fa_last = 0, fa_ram = m\<rparr>)"

definition mark :: "nat \<Rightarrow> FrameAllocator \<Rightarrow> FrameAllocator" where
  "mark i fa =
     (let fa = (if bm_test (fa_zeroed fa) i then fa
                else fa\<lparr>fa_ram := scrub (i * FRAME_SIZE) FRAME_SIZE (fa_ram fa)\<rparr>)
      in fa\<lparr>fa_zeroed := bm_clear (fa_zeroed fa) i, fa_bitmap := bm_set (fa_bitmap fa) i\<rparr>)"

definition allocate_zeroed_frame :: "FrameAllocator \<Rightarrow> nat option \<times> FrameAllocator" where
  "allocate_zeroed_frame fa =
     (case find (is_free fa) (map (\<lambda>i. (fa_last fa + i) mod fa_total fa) [0..<fa_total fa]) of
        Some i \<Rightarrow>
          let fa = mark i fa
          in (Some (i * FRAME_SIZE), fa\<lparr>fa_free := fa_free fa - 1, fa_last := i + 1\<rparr>)
      | None \<Rightarrow> (None, fa))"

text \<open>The scan for a run of \<open>count\<close> free frames, with the start and length of the current run.\<close>

fun find_run :: "FrameAllocator \<Rightarrow> nat \<Rightarrow> nat \<Rightarrow> nat \<Rightarrow> nat list \<Rightarrow> nat option" where
  "find_run fa count run_start run_len [] = None"
| "find_run fa count run_start run_len (i # is) =
     (if is_free fa i then
        let run_start = (if run_len = 0 then i else run_start);
            run_len = run_len + 1
        in if run_len = count then Some run_start else find_run fa count run_start run_len is
      else find_run fa count run_start 0 is)"

definition allocate_zeroed_contiguous :: "nat \<Rightarrow> FrameAllocator \<Rightarrow> nat option \<times> FrameAllocator" where
  "allocate_zeroed_contiguous count fa =
     (if count = 0 then (None, fa)
      else case find_run fa count 0 0 [0..<fa_total fa] of
             Some s \<Rightarrow>
               let fa = fold mark [s..<s + count] fa
               in (Some (s * FRAME_SIZE), fa\<lparr>fa_free := fa_free fa - count\<rparr>)
           | None \<Rightarrow> (None, fa))"

definition claim_range :: "nat \<Rightarrow> nat \<Rightarrow> FrameAllocator \<Rightarrow> bool \<times> FrameAllocator" where
  "claim_range start count fa =
     (if start mod FRAME_SIZE \<noteq> 0 then (False, fa)
      else
        let first = start div FRAME_SIZE
        in if first > fa_total fa \<or> count > fa_total fa - first \<or>
              \<not> list_all (is_free fa) [first..<first + count]
           then (False, fa)
           else
             let fa = fold mark [first..<first + count] fa
             in (True, fa\<lparr>fa_free := fa_free fa - count\<rparr>))"

text \<open>\<open>None\<close> is a failed assertion.\<close>

definition deallocate_frame :: "nat \<Rightarrow> FrameAllocator \<Rightarrow> FrameAllocator option" where
  "deallocate_frame phys fa =
     (if phys mod FRAME_SIZE \<noteq> 0 then None
      else
        let i = phys div FRAME_SIZE
        in if \<not> i < fa_total fa then None
           else if is_free fa i then Some fa
           else Some (fa\<lparr>fa_ram := scrub phys FRAME_SIZE (fa_ram fa), fa_zeroed := bm_set (fa_zeroed fa) i,
                  fa_bitmap := bm_clear (fa_bitmap fa) i, fa_free := fa_free fa + 1\<rparr>))"

definition scrub_free_memory :: "FrameAllocator \<Rightarrow> FrameAllocator" where
  "scrub_free_memory fa =
     fold (\<lambda>i fa. if is_free fa i
        then fa\<lparr>fa_ram := scrub (i * FRAME_SIZE) FRAME_SIZE (fa_ram fa), fa_zeroed := bm_set (fa_zeroed fa) i\<rparr>
        else fa) [0..<fa_total fa] fa"

definition released_frames_are_zero :: "FrameAllocator \<Rightarrow> bool" where
  "released_frames_are_zero fa =
     list_all (\<lambda>i. list_all (\<lambda>n. fa_ram fa (i * FRAME_SIZE + 8 * n) = 0) [0..<FRAME_SIZE div 8])
       (filter (\<lambda>i. is_free fa i \<and> bm_test (fa_zeroed fa) i) [0..<fa_total fa])"

definition free_count :: "FrameAllocator \<Rightarrow> nat" where
  "free_count fa = fa_free fa"

definition total_count :: "FrameAllocator \<Rightarrow> nat" where
  "total_count fa = fa_total fa"

section \<open>Scrubbing\<close>

lemma fold_upd_zero:
  "fold (\<lambda>k m. m(p + 8 * k := (0 :: u64))) [0..<n] m a = (if \<exists>k < n. a = p + 8 * k then 0 else m a)"
  by (induction n) (auto simp: less_Suc_eq)

lemma scrub_apply: "scrub p n m a = (if \<exists>k < n div 8. a = p + 8 * k then 0 else m a)"
  unfolding scrub_def by (rule fold_upd_zero)

definition frame_word :: "nat \<Rightarrow> nat \<Rightarrow> nat" where
  "frame_word i k = i * FRAME_SIZE + 8 * k"

definition frame_zero :: "ram \<Rightarrow> nat \<Rightarrow> bool" where
  "frame_zero m i \<longleftrightarrow> (\<forall>k < 512. m (frame_word i k) = 0)"

lemma frame_word_split: "k < 512 \<Longrightarrow> frame_word i k div 4096 = i \<and> frame_word i k mod 4096 = 8 * k"
  by (simp add: frame_word_def FRAME_SIZE_def)

lemma frame_word_eq: "k < 512 \<Longrightarrow> l < 512 \<Longrightarrow> frame_word i k = frame_word j l \<longleftrightarrow> i = j \<and> k = l"
  using frame_word_split [of k i] frame_word_split [of l j] by auto

lemma scrub_frame:
  "k < 512 \<Longrightarrow> scrub (i * FRAME_SIZE) FRAME_SIZE m (frame_word j k) = (if i = j then 0 else m (frame_word j k))"
proof -
  assume k: "k < 512"
  have "(\<exists>l < FRAME_SIZE div 8. frame_word j k = i * FRAME_SIZE + 8 * l) \<longleftrightarrow> i = j"
    using frame_word_eq [of k _ j i] k by (auto simp: frame_word_def FRAME_SIZE_def)
  then show ?thesis by (simp add: scrub_apply)
qed

section \<open>The invariant\<close>

definition free_set :: "FrameAllocator \<Rightarrow> nat set" where
  "free_set fa = {i. i < fa_total fa \<and> is_free fa i}"

text \<open>
  The bitmaps cover the frames, the counter counts the free ones, and a frame marked zero is free
  and zero.
\<close>

definition fa_inv :: "FrameAllocator \<Rightarrow> bool" where
  "fa_inv fa \<longleftrightarrow> length (fa_zeroed fa) = length (fa_bitmap fa) \<and> fa_total fa \<le> 32 * length (fa_bitmap fa) \<and>
     fa_free fa = card (free_set fa) \<and>
     (\<forall>i < fa_total fa. bm_test (fa_zeroed fa) i \<longrightarrow> is_free fa i \<and> frame_zero (fa_ram fa) i)"

lemma finite_free_set [simp]: "finite (free_set fa)"
  by (simp add: free_set_def)

lemma in_free_set [simp]: "i \<in> free_set fa \<longleftrightarrow> i < fa_total fa \<and> is_free fa i"
  by (simp add: free_set_def)

lemma div32_less: "i < n \<Longrightarrow> n \<le> 32 * len \<Longrightarrow> i div 32 < (len :: nat)"
  by (simp add: div_less_iff_less_mult)

text \<open>The effect of \<open>mark\<close> on a frame inside the bitmaps.\<close>

lemma mark_effect:
  assumes "i < fa_total fa" and "length (fa_zeroed fa) = length (fa_bitmap fa)" and "fa_total fa \<le> 32 * length (fa_bitmap fa)"
  shows "is_free (mark i fa) j \<longleftrightarrow> j \<noteq> i \<and> is_free fa j"
    "bm_test (fa_zeroed (mark i fa)) j \<longleftrightarrow> j \<noteq> i \<and> bm_test (fa_zeroed fa) j"
    "fa_total (mark i fa) = fa_total fa" "fa_free (mark i fa) = fa_free fa" "fa_last (mark i fa) = fa_last fa"
    "length (fa_bitmap (mark i fa)) = length (fa_bitmap fa)" "length (fa_zeroed (mark i fa)) = length (fa_zeroed fa)"
    "(bm_test (fa_zeroed fa) i \<longrightarrow> frame_zero (fa_ram fa) i) \<Longrightarrow> frame_zero (fa_ram (mark i fa)) i"
    "j \<noteq> i \<Longrightarrow> k < 512 \<Longrightarrow> fa_ram (mark i fa) (frame_word j k) = fa_ram fa (frame_word j k)"
proof -
  have i: "i div 32 < length (fa_bitmap fa)" "i div 32 < length (fa_zeroed fa)"
    using assms div32_less by simp_all
  then show "is_free (mark i fa) j \<longleftrightarrow> j \<noteq> i \<and> is_free fa j"
    "bm_test (fa_zeroed (mark i fa)) j \<longleftrightarrow> j \<noteq> i \<and> bm_test (fa_zeroed fa) j"
    by (auto simp: mark_def Let_def is_free_def bm_test_set bm_test_clear)
  show "(bm_test (fa_zeroed fa) i \<longrightarrow> frame_zero (fa_ram fa) i) \<Longrightarrow> frame_zero (fa_ram (mark i fa)) i"
    by (auto simp: mark_def Let_def frame_zero_def scrub_frame)
  show "j \<noteq> i \<Longrightarrow> k < 512 \<Longrightarrow> fa_ram (mark i fa) (frame_word j k) = fa_ram fa (frame_word j k)"
    by (auto simp: mark_def Let_def scrub_frame)
qed (simp_all add: mark_def Let_def)

text \<open>Taking a set of free frames: the common effect of the three allocating operations.\<close>

definition takes :: "nat set \<Rightarrow> FrameAllocator \<Rightarrow> FrameAllocator \<Rightarrow> bool" where
  "takes X fa fa' \<longleftrightarrow> X \<subseteq> free_set fa \<and> fa_total fa' = fa_total fa \<and> free_set fa' = free_set fa - X \<and>
     (\<forall>i \<in> X. frame_zero (fa_ram fa') i) \<and>
     (\<forall>i k. i \<notin> X \<longrightarrow> k < 512 \<longrightarrow> fa_ram fa' (frame_word i k) = fa_ram fa (frame_word i k))"

text \<open>The invariant without the counter, which the operations adjust at the end.\<close>

definition fa_shape :: "FrameAllocator \<Rightarrow> bool" where
  "fa_shape fa \<longleftrightarrow> length (fa_zeroed fa) = length (fa_bitmap fa) \<and> fa_total fa \<le> 32 * length (fa_bitmap fa) \<and>
     (\<forall>i < fa_total fa. bm_test (fa_zeroed fa) i \<longrightarrow> is_free fa i \<and> frame_zero (fa_ram fa) i)"

lemma fa_inv_shape: "fa_inv fa \<longleftrightarrow> fa_shape fa \<and> fa_free fa = card (free_set fa)"
  by (auto simp: fa_inv_def fa_shape_def)

lemma mark_shape:
  assumes "fa_shape fa" and "i < fa_total fa"
  shows "fa_shape (mark i fa)"
proof -
  note m = mark_effect [OF assms(2)]
  have sh: "length (fa_zeroed fa) = length (fa_bitmap fa)" "fa_total fa \<le> 32 * length (fa_bitmap fa)"
    using assms(1) by (simp_all add: fa_shape_def)
  have "frame_zero (fa_ram (mark i fa)) j" if "j \<noteq> i" "frame_zero (fa_ram fa) j" for j
    using that m(9) [OF sh] by (simp add: frame_zero_def)
  then show ?thesis using assms(1) m [OF sh] by (auto simp: fa_shape_def)
qed

lemma mark_takes:
  assumes "fa_shape fa" and "i \<in> free_set fa"
  shows "takes {i} fa (mark i fa)"
proof -
  have sh: "length (fa_zeroed fa) = length (fa_bitmap fa)" "fa_total fa \<le> 32 * length (fa_bitmap fa)" and
    i: "i < fa_total fa" using assms by (simp_all add: fa_shape_def)
  have "bm_test (fa_zeroed fa) i \<longrightarrow> frame_zero (fa_ram fa) i" using assms i by (simp add: fa_shape_def)
  then show ?thesis using assms(2) mark_effect [OF i sh] by (auto simp: takes_def)
qed

lemma takes_trans:
  assumes "takes X a b" and "takes Y b c" shows "takes (X \<union> Y) a c"
proof -
  have "X \<inter> Y = {}" using assms by (auto simp: takes_def)
  then show ?thesis using assms by (auto simp: takes_def frame_zero_def)
qed

lemma takes_refl [simp]: "takes {} fa fa"
  by (simp add: takes_def)

lemma marks_take:
  "fa_shape fa \<Longrightarrow> set is \<subseteq> free_set fa \<Longrightarrow> distinct is \<Longrightarrow>
     takes (set is) fa (fold mark is fa) \<and> fa_shape (fold mark is fa) \<and> fa_free (fold mark is fa) = fa_free fa"
proof (induction "is" arbitrary: fa)
  case (Cons i "is")
  have i: "i \<in> free_set fa" using Cons.prems by simp
  have t: "takes {i} fa (mark i fa)" and s: "fa_shape (mark i fa)"
    using mark_takes [OF Cons.prems(1) i] mark_shape [OF Cons.prems(1)] i by simp_all
  have "set is \<subseteq> free_set (mark i fa)" using t Cons.prems by (auto simp: takes_def)
  with Cons.IH [OF s] Cons.prems(3) have
    r: "takes (set is) (mark i fa) (fold mark is (mark i fa))" "fa_shape (fold mark is (mark i fa))"
    "fa_free (fold mark is (mark i fa)) = fa_free (mark i fa)" by auto
  have "fa_free (mark i fa) = fa_free fa" by (simp add: mark_def Let_def)
  then show ?case using takes_trans [OF t r(1)] r by simp
qed simp

lemma takes_count:
  assumes "fa_inv fa" and "takes X fa fa'" and "fa_shape fa'" and "fa_free fa' = fa_free fa - card X"
  shows "fa_inv fa' \<and> fa_free fa = fa_free fa' + card X"
proof -
  have X: "X \<subseteq> free_set fa" "free_set fa' = free_set fa - X" using assms(2) by (simp_all add: takes_def)
  then have "card (free_set fa') = card (free_set fa) - card X" "card X \<le> card (free_set fa)"
    by (simp_all add: card_Diff_subset finite_subset card_mono)
  then show ?thesis using assms by (simp add: fa_inv_shape)
qed

lemma takes_cong:
  "fa_bitmap fb = fa_bitmap fa' \<Longrightarrow> fa_total fb = fa_total fa' \<Longrightarrow> fa_ram fb = fa_ram fa' \<Longrightarrow> takes X fa fb = takes X fa fa'"
  by (simp add: takes_def free_set_def is_free_def)

lemma fa_shape_cong:
  "fa_bitmap fb = fa_bitmap fa \<Longrightarrow> fa_zeroed fb = fa_zeroed fa \<Longrightarrow> fa_total fb = fa_total fa \<Longrightarrow> fa_ram fb = fa_ram fa \<Longrightarrow>
     fa_shape fb = fa_shape fa"
  by (simp add: fa_shape_def is_free_def)

section \<open>The allocating operations\<close>

lemma scan_covers: "i < n \<Longrightarrow> i \<in> set (map (\<lambda>k. (r + k) mod n) [0..<n])"
proof -
  assume i: "i < n"
  have r: "r mod n < n" using i by simp
  define k where "k = (i + n - r mod n) mod n"
  have "(r + k) mod n = (r mod n + (i + n - r mod n)) mod n" by (simp add: k_def mod_add_left_eq mod_add_right_eq)
  also have "r mod n + (i + n - r mod n) = i + n" using r by simp
  finally have "(r + k) mod n = i" using i by simp
  moreover have "k < n" using i by (simp add: k_def)
  ultimately show ?thesis by force
qed

lemma allocate_Some:
  assumes inv: "fa_inv fa" and al: "allocate_zeroed_frame fa = (Some p, fa')"
  shows "\<exists>i. p = i * FRAME_SIZE \<and> takes {i} fa fa' \<and> fa_inv fa' \<and> fa_free fa = fa_free fa' + 1"
proof -
  from al obtain i where f: "find (is_free fa) (map (\<lambda>i. (fa_last fa + i) mod fa_total fa) [0..<fa_total fa]) = Some i"
    and p: "p = i * FRAME_SIZE" and fa': "fa' = (mark i fa)\<lparr>fa_free := fa_free (mark i fa) - 1, fa_last := i + 1\<rparr>"
    by (auto simp: allocate_zeroed_frame_def Let_def split: option.splits)
  have "i \<in> set (map (\<lambda>i. (fa_last fa + i) mod fa_total fa) [0..<fa_total fa])" "is_free fa i"
    using find_SomeD [OF f] by blast+
  then have i: "i \<in> free_set fa" by (cases "fa_total fa = 0") auto
  have sh: "fa_shape fa" using inv by (simp add: fa_inv_shape)
  have t: "takes {i} fa fa'" using mark_takes [OF sh i] takes_cong [of fa' "mark i fa"] by (simp add: fa')
  have s: "fa_shape fa'" using mark_shape [OF sh] i fa_shape_cong [of fa' "mark i fa"] by (simp add: fa')
  have "fa_free fa' = fa_free fa - card {i}" by (simp add: fa' mark_def Let_def)
  from takes_count [OF inv t s this] t p show ?thesis by auto
qed

lemma allocate_None:
  assumes "allocate_zeroed_frame fa = (None, fa')"
  shows "fa' = fa \<and> free_set fa = {}"
proof -
  have f: "find (is_free fa) (map (\<lambda>i. (fa_last fa + i) mod fa_total fa) [0..<fa_total fa]) = None" "fa' = fa"
    using assms by (auto simp: allocate_zeroed_frame_def Let_def split: option.splits)
  have "\<not> is_free fa i" if "i < fa_total fa" for i
    using f(1) scan_covers [OF that, of "fa_last fa"] unfolding find_None_iff by blast
  with f show ?thesis by auto
qed

text \<open>The scan finds the first run.\<close>

definition free_run :: "FrameAllocator \<Rightarrow> nat \<Rightarrow> nat \<Rightarrow> bool" where
  "free_run fa count s \<longleftrightarrow> s + count \<le> fa_total fa \<and> (\<forall>i. s \<le> i \<longrightarrow> i < s + count \<longrightarrow> is_free fa i)"

lemma find_run_correct:
  assumes "n \<le> fa_total fa" "0 < count" "len < count" "len \<le> k" "k \<le> n"
    and "\<forall>i. k - len \<le> i \<longrightarrow> i < k \<longrightarrow> is_free fa i"
    and "len > 0 \<longrightarrow> rs = k - len"
    and "n = fa_total fa"
  shows "(case find_run fa count rs len [k..<n] of
     None \<Rightarrow> \<forall>s. k - len \<le> s \<longrightarrow> \<not> free_run fa count s
   | Some s \<Rightarrow> k - len \<le> s \<and> free_run fa count s \<and> (\<forall>s'. k - len \<le> s' \<longrightarrow> s' < s \<longrightarrow> \<not> free_run fa count s'))"
  using assms
proof (induction "n - k" arbitrary: k rs len)
  case 0
  then show ?case by (auto simp: free_run_def)
next
  case (Suc m)
  then have k: "k < n" by simp
  then have up: "[k..<n] = k # [Suc k..<n]" by (simp add: upt_conv_Cons)
  show ?case
  proof (cases "is_free fa k")
    case True
    let ?rs = "if len = 0 then k else rs"
    have rs: "?rs = Suc k - Suc len" using Suc.prems(7) by auto
    have run: "\<forall>i. Suc k - Suc len \<le> i \<longrightarrow> i < Suc k \<longrightarrow> is_free fa i"
      using Suc.prems(6) True by (auto simp: less_Suc_eq)
    show ?thesis
    proof (cases "Suc len = count")
      case True
      then have "find_run fa count rs len [k..<n] = Some (k - len)"
        using \<open>is_free fa k\<close> rs unfolding up by (simp add: Let_def)
      moreover have "free_run fa count (k - len)"
        using run k Suc.prems True by (auto simp: free_run_def)
      ultimately show ?thesis by simp
    next
      case False
      have "case find_run fa count ?rs (Suc len) [Suc k..<n] of
          None \<Rightarrow> \<forall>s. Suc k - Suc len \<le> s \<longrightarrow> \<not> free_run fa count s
        | Some s \<Rightarrow> Suc k - Suc len \<le> s \<and> free_run fa count s \<and>
            (\<forall>s'. Suc k - Suc len \<le> s' \<longrightarrow> s' < s \<longrightarrow> \<not> free_run fa count s')"
        by (rule Suc.hyps(1)) (use Suc False k rs run in auto)
      moreover have "find_run fa count rs len [k..<n] = find_run fa count ?rs (Suc len) [Suc k..<n]"
        using \<open>is_free fa k\<close> False unfolding up by (simp add: Let_def)
      ultimately show ?thesis by (simp only: diff_Suc_Suc)
    qed
  next
    case False
    have nr: "\<not> free_run fa count s" if "k - len \<le> s" "s \<le> k" for s
      using that False Suc.prems(2,3) by (auto simp: free_run_def)
    have "case find_run fa count rs 0 [Suc k..<n] of
          None \<Rightarrow> \<forall>s. Suc k - 0 \<le> s \<longrightarrow> \<not> free_run fa count s
        | Some s \<Rightarrow> Suc k - 0 \<le> s \<and> free_run fa count s \<and> (\<forall>s'. Suc k - 0 \<le> s' \<longrightarrow> s' < s \<longrightarrow> \<not> free_run fa count s')"
      by (rule Suc.hyps(1)) (use Suc False k in auto)
    then show ?thesis
      using False nr by (auto simp: up split: option.splits) (metis not_less_eq_eq)+
  qed
qed

lemma find_run_first:
  assumes "0 < count"
  shows "(case find_run fa count 0 0 [0..<fa_total fa] of
     None \<Rightarrow> \<forall>s. \<not> free_run fa count s
   | Some s \<Rightarrow> free_run fa count s \<and> (\<forall>s' < s. \<not> free_run fa count s'))"
  using find_run_correct [of "fa_total fa" fa count 0 0 0] assms by (auto split: option.splits)

lemma run_takes:
  assumes inv: "fa_inv fa" and run: "free_run fa count s"
    and fa': "fa' = (fold mark [s..<s + count] fa)\<lparr>fa_free := fa_free (fold mark [s..<s + count] fa) - count\<rparr>"
  shows "takes {s..<s + count} fa fa' \<and> fa_inv fa' \<and> fa_free fa = fa_free fa' + count"
proof -
  let ?f = "fold mark [s..<s + count] fa"
  have "set [s..<s + count] \<subseteq> free_set fa" using run by (auto simp: free_run_def)
  with inv have m: "takes (set [s..<s + count]) fa ?f" "fa_shape ?f" "fa_free ?f = fa_free fa"
    using marks_take [of fa "[s..<s + count]"] by (auto simp: fa_inv_shape)
  have t: "takes {s..<s + count} fa fa'" using m(1) takes_cong [of fa' ?f] by (simp add: fa')
  have sh: "fa_shape fa'" using m(2) fa_shape_cong [of fa' ?f] by (simp add: fa')
  have "fa_free fa' = fa_free fa - card {s..<s + count}" using m(3) by (simp add: fa')
  from takes_count [OF inv t sh this] t show ?thesis by simp
qed

lemma contiguous_Some:
  assumes "fa_inv fa" and "allocate_zeroed_contiguous count fa = (Some p, fa')"
  shows "\<exists>s. p = s * FRAME_SIZE \<and> 0 < count \<and> free_run fa count s \<and> (\<forall>s' < s. \<not> free_run fa count s') \<and>
     takes {s..<s + count} fa fa' \<and> fa_inv fa' \<and> fa_free fa = fa_free fa' + count"
proof -
  from assms(2) have c: "0 < count" by (auto simp: allocate_zeroed_contiguous_def split: if_splits)
  from assms(2) c obtain s where f: "find_run fa count 0 0 [0..<fa_total fa] = Some s" and p: "p = s * FRAME_SIZE"
    and fa': "fa' = (fold mark [s..<s + count] fa)\<lparr>fa_free := fa_free (fold mark [s..<s + count] fa) - count\<rparr>"
    by (auto simp: allocate_zeroed_contiguous_def Let_def split: option.splits)
  from find_run_first [OF c, of fa] f have "free_run fa count s" "\<forall>s' < s. \<not> free_run fa count s'" by simp_all
  with run_takes [OF assms(1) _ fa'] p c show ?thesis by blast
qed

lemma contiguous_None:
  "allocate_zeroed_contiguous count fa = (None, fa') \<Longrightarrow> fa' = fa \<and> (count = 0 \<or> (\<forall>s. \<not> free_run fa count s))"
  using find_run_first [of count fa]
  by (auto simp: allocate_zeroed_contiguous_def Let_def split: if_splits option.splits)

lemma deallocate_effect:
  assumes inv: "fa_inv fa" and i: "i < fa_total fa" "\<not> is_free fa i"
    and d: "deallocate_frame (i * FRAME_SIZE) fa = Some fa'"
  shows "free_set fa' = insert i (free_set fa) \<and> frame_zero (fa_ram fa') i \<and> fa_inv fa' \<and>
    fa_free fa' = fa_free fa + 1 \<and> fa_total fa' = fa_total fa \<and>
    (\<forall>j k. j \<noteq> i \<longrightarrow> k < 512 \<longrightarrow> fa_ram fa' (frame_word j k) = fa_ram fa (frame_word j k))"
proof -
  have sh: "length (fa_zeroed fa) = length (fa_bitmap fa)" "fa_total fa \<le> 32 * length (fa_bitmap fa)"
    using inv by (simp_all add: fa_inv_def)
  have ib: "i div 32 < length (fa_bitmap fa)" "i div 32 < length (fa_zeroed fa)"
    using i sh div32_less by simp_all
  have fa': "fa' = fa\<lparr>fa_ram := scrub (i * FRAME_SIZE) FRAME_SIZE (fa_ram fa), fa_zeroed := bm_set (fa_zeroed fa) i,
      fa_bitmap := bm_clear (fa_bitmap fa) i, fa_free := fa_free fa + 1\<rparr>"
    using d i by (simp add: deallocate_frame_def FRAME_SIZE_def)
  have fr: "is_free fa' j \<longleftrightarrow> j = i \<or> is_free fa j" for j
    using ib by (auto simp: fa' is_free_def bm_test_clear)
  have zr: "bm_test (fa_zeroed fa') j \<longleftrightarrow> j = i \<or> bm_test (fa_zeroed fa) j" for j
    using ib by (auto simp: fa' bm_test_set)
  have ram: "fa_ram fa' (frame_word j k) = (if i = j then 0 else fa_ram fa (frame_word j k))" if "k < 512" for j k
    using that by (simp add: fa' scrub_frame)
  have fs: "free_set fa' = insert i (free_set fa)" using i fr by (auto simp: fa')
  have tot: "fa_total fa' = fa_total fa" "fa_free fa' = fa_free fa + 1"
    "length (fa_zeroed fa') = length (fa_bitmap fa')" "length (fa_bitmap fa') = length (fa_bitmap fa)"
    using sh by (simp_all add: fa')
  have z: "frame_zero (fa_ram fa') j" if "j = i \<or> frame_zero (fa_ram fa) j" for j
    using that ram by (auto simp: frame_zero_def)
  have "fa_inv fa'"
    using inv i fs tot fr zr z sh unfolding fa_inv_def by auto
  with fs tot z ram show ?thesis by auto
qed

lemma claim_effect:
  assumes inv: "fa_inv fa" and c: "claim_range start count fa = (r, fa')"
  shows "r = (start mod FRAME_SIZE = 0 \<and> free_run fa count (start div FRAME_SIZE)) \<and> (\<not> r \<longrightarrow> fa' = fa) \<and>
    (r \<longrightarrow> takes {start div FRAME_SIZE..<start div FRAME_SIZE + count} fa fa' \<and> fa_inv fa' \<and> fa_free fa = fa_free fa' + count)"
proof -
  let ?s = "start div FRAME_SIZE"
  have run: "free_run fa count ?s \<longleftrightarrow> \<not> (?s > fa_total fa \<or> count > fa_total fa - ?s \<or> \<not> list_all (is_free fa) [?s..<?s + count])"
    by (auto simp: free_run_def list_all_iff)
  show ?thesis
  proof (cases "start mod FRAME_SIZE = 0 \<and> free_run fa count ?s")
    case True
    then have "r" "fa' = (fold mark [?s..<?s + count] fa)\<lparr>fa_free := fa_free (fold mark [?s..<?s + count] fa) - count\<rparr>"
      using c unfolding claim_range_def run by (auto simp: Let_def)
    then show ?thesis using True run_takes [OF inv, of count ?s fa'] by simp
  next
    case False
    then have "\<not> r" "fa' = fa" using c unfolding claim_range_def run by (auto simp: Let_def split: if_splits)
    then show ?thesis using False by auto
  qed
qed

lemma deallocate_free: "i < fa_total fa \<Longrightarrow> is_free fa i \<Longrightarrow> deallocate_frame (i * FRAME_SIZE) fa = Some fa"
  by (simp add: deallocate_frame_def FRAME_SIZE_def)

lemma deallocate_inv:
  assumes inv: "fa_inv fa" and d: "deallocate_frame p fa = Some fa'"
  shows "fa_inv fa'"
proof -
  from d have "p mod FRAME_SIZE = 0" and i: "p div FRAME_SIZE < fa_total fa"
    by (auto simp: deallocate_frame_def Let_def split: if_splits)
  then have p: "p = p div FRAME_SIZE * FRAME_SIZE" by auto
  show ?thesis
  proof (cases "is_free fa (p div FRAME_SIZE)")
    case True
    then show ?thesis using d deallocate_free [OF i] p inv by simp
  next
    case False
    then show ?thesis using deallocate_effect [OF inv i False] d p by simp
  qed
qed

text \<open>Stores by the rest of the kernel go to frames it owns.\<close>

lemma write_owned_inv:
  assumes "fa_inv fa" and "\<not> is_free fa i" and "i < fa_total fa" and "k < 512"
  shows "fa_inv (fa\<lparr>fa_ram := (fa_ram fa)(frame_word i k := v)\<rparr>)"
proof -
  have "frame_zero ((fa_ram fa)(frame_word i k := v)) j" if "frame_zero (fa_ram fa) j" "j \<noteq> i" for j
    using that frame_word_eq [of _ k j i] assms(4) by (auto simp: frame_zero_def)
  with assms show ?thesis
    unfolding fa_inv_def free_set_def is_free_def by auto
qed

lemma scrub_step_inv:
  assumes "fa_inv fa" and "i < fa_total fa" and "is_free fa i"
  shows "fa_inv (fa\<lparr>fa_ram := scrub (i * FRAME_SIZE) FRAME_SIZE (fa_ram fa), fa_zeroed := bm_set (fa_zeroed fa) i\<rparr>)"
proof -
  have ib: "i div 32 < length (fa_zeroed fa)"
    using assms div32_less by (simp add: fa_inv_def)
  have "frame_zero (scrub (i * FRAME_SIZE) FRAME_SIZE (fa_ram fa)) j" if "j = i \<or> frame_zero (fa_ram fa) j" for j
    using that by (auto simp: frame_zero_def scrub_frame)
  with assms ib show ?thesis
    unfolding fa_inv_def free_set_def is_free_def by (auto simp: bm_test_set)
qed

lemma scrub_free_memory_inv:
  assumes inv: "fa_inv fa"
  shows "fa_inv (scrub_free_memory fa)"
proof -
  have "fa_inv (fold (\<lambda>i fa. if is_free fa i
      then fa\<lparr>fa_ram := scrub (i * FRAME_SIZE) FRAME_SIZE (fa_ram fa), fa_zeroed := bm_set (fa_zeroed fa) i\<rparr>
      else fa) is fb)" if "fa_inv fb" "\<forall>i \<in> set is. i < fa_total fb" for "is" fb
    using that
  proof (induction "is" arbitrary: fb)
    case (Cons i "is")
    then show ?case using scrub_step_inv [of fb i] by (cases "is_free fb i") simp_all
  qed simp
  from this [OF inv, of "[0..<fa_total fa]"] show ?thesis by (simp add: scrub_free_memory_def)
qed

lemma released_zero: "fa_inv fa \<Longrightarrow> released_frames_are_zero fa"
  by (auto simp: released_frames_are_zero_def fa_inv_def frame_zero_def frame_word_def list_all_iff FRAME_SIZE_def)

section \<open>Initialisation\<close>

lemma bm_fold_set:
  fixes bm :: "u32 list"
  assumes "set is \<subseteq> {..<32 * length bm}"
  shows "bm_test (fold (\<lambda>i bm. bm_set bm i) is bm) j \<longleftrightarrow> j \<in> set is \<or> bm_test bm j"
    and "length (fold (\<lambda>i bm. bm_set bm i) is bm) = length bm"
  using assms
proof (induction "is" arbitrary: bm)
  case (Cons i "is")
  { case 1
    have "i div 32 < length bm" using 1 by (auto simp: div_less_iff_less_mult)
    then show ?case using Cons(1) [of "bm_set bm i"] 1 by (auto simp: bm_test_set)
  next
    case 2
    then show ?case using Cons(2) [of "bm_set bm i"] by simp
  }
qed simp_all

lemma bm_fold_clear:
  fixes bm :: "u32 list"
  assumes "set is \<subseteq> {..<32 * length bm}"
  shows "bm_test (fold (\<lambda>i bm. bm_clear bm i) is bm) j \<longleftrightarrow> j \<notin> set is \<and> bm_test bm j"
    and "length (fold (\<lambda>i bm. bm_clear bm i) is bm) = length bm"
  using assms
proof (induction "is" arbitrary: bm)
  case (Cons i "is")
  { case 1
    have "i div 32 < length bm" using 1 by (auto simp: div_less_iff_less_mult)
    then show ?case using Cons(1) [of "bm_clear bm i"] 1 by (auto simp: bm_test_clear)
  next
    case 2
    then show ?case using Cons(2) [of "bm_clear bm i"] by simp
  }
qed simp_all

text \<open>The frames a range touches, and the frames it contains.\<close>

definition touches :: "nat \<Rightarrow> nat \<Rightarrow> nat \<Rightarrow> bool" where
  "touches s e i \<longleftrightarrow> s div FRAME_SIZE \<le> i \<and> i < (min e MAX_PHYSICAL_MEMORY + FRAME_SIZE - 1) div FRAME_SIZE"

definition contains :: "nat \<Rightarrow> nat \<Rightarrow> nat \<Rightarrow> bool" where
  "contains s e i \<longleftrightarrow> (s + FRAME_SIZE - 1) mod 2 ^ 64 div FRAME_SIZE \<le> i \<and> i < min e MAX_PHYSICAL_MEMORY div FRAME_SIZE"

lemma length_set_range [simp]:
  assumes "length bm = BITMAP_ENTRIES"
  shows "length (set_range bm s e u) = BITMAP_ENTRIES"
proof -
  have sub: "set [a..<min b (BITMAP_ENTRIES * 32)] \<subseteq> {..<32 * length bm}" for a b using assms by auto
  show ?thesis
    using assms bm_fold_set(2) [OF sub] bm_fold_clear(2) [OF sub] by (cases u) (simp_all add: set_range_def Let_def)
qed

lemma set_range_test:
  assumes "length bm = BITMAP_ENTRIES" and "i < BITMAP_ENTRIES * 32"
  shows "bm_test (set_range bm s e True) i \<longleftrightarrow> touches s e i \<or> bm_test bm i"
    and "bm_test (set_range bm s e False) i \<longleftrightarrow> \<not> contains s e i \<and> bm_test bm i"
proof -
  have sub: "set [a..<min b (BITMAP_ENTRIES * 32)] \<subseteq> {..<32 * length bm}" for a b using assms by auto
  show "bm_test (set_range bm s e True) i \<longleftrightarrow> touches s e i \<or> bm_test bm i"
    using assms(2) by (auto simp: set_range_def Let_def bm_fold_set(1) [OF sub] touches_def)
  show "bm_test (set_range bm s e False) i \<longleftrightarrow> \<not> contains s e i \<and> bm_test bm i"
    using assms(2) by (auto simp: set_range_def Let_def bm_fold_clear(1) [OF sub] contains_def)
qed

lemma length_fold_set_range [simp]:
  "length bm = BITMAP_ENTRIES \<Longrightarrow>
     length (fold (\<lambda>r bm. set_range bm (pr_start r) (pr_end r) u) rs bm) = BITMAP_ENTRIES"
  by (induction rs arbitrary: bm) simp_all

lemma fold_set_range:
  assumes "length bm = BITMAP_ENTRIES" and "i < BITMAP_ENTRIES * 32"
  shows "bm_test (fold (\<lambda>r bm. set_range bm (pr_start r) (pr_end r) True) rs bm) i \<longleftrightarrow>
      (\<exists>r \<in> set rs. touches (pr_start r) (pr_end r) i) \<or> bm_test bm i"
    and "bm_test (fold (\<lambda>r bm. set_range bm (pr_start r) (pr_end r) False) rs bm) i \<longleftrightarrow>
      \<not> (\<exists>r \<in> set rs. contains (pr_start r) (pr_end r) i) \<and> bm_test bm i"
  using assms by (induction rs arbitrary: bm) (auto simp: set_range_test)

lemma bm_test_full [simp]: "i < 32 * n \<Longrightarrow> bm_test (replicate n (- 1 :: u32)) i"
  by (simp add: bm_test_bit div_less_iff_less_mult)

lemma bm_test_empty [simp]: "i < 32 * n \<Longrightarrow> \<not> bm_test (replicate n (0 :: u32)) i"
  by (simp add: bm_test_bit div_less_iff_less_mult)

definition fa_reserved_bytes :: nat where
  "fa_reserved_bytes = (1 + (2 * (BITMAP_ENTRIES * 4) + FRAME_SIZE - 1) div FRAME_SIZE) * FRAME_SIZE"

lemma fa_init_SomeD:
  assumes "fa_init usable reserved min_addr m = Some fa"
  obtains header where "find_header usable reserved min_addr fa_reserved_bytes = Some header"
    "fa_inv fa" "fa_ram fa = scrub header fa_reserved_bytes m"
    "\<And>i. i < fa_total fa \<Longrightarrow> is_free fa i \<longleftrightarrow> (\<exists>r \<in> set usable. contains (pr_start r) (pr_end r) i) \<and>
       \<not> (\<exists>r \<in> set reserved. touches (pr_start r) (pr_end r) i) \<and> \<not> touches header (header + fa_reserved_bytes) i"
proof -
  let ?b0 = "replicate BITMAP_ENTRIES (- 1 :: u32)"
  let ?b1 = "fold (\<lambda>r bm. set_range bm (pr_start r) (pr_end r) False) usable ?b0"
  let ?b2 = "fold (\<lambda>r bm. set_range bm (pr_start r) (pr_end r) True) reserved ?b1"
  let ?total = "min (fold max (map pr_end usable) 0) MAX_PHYSICAL_MEMORY div FRAME_SIZE"
  from assms obtain header where h: "find_header usable reserved min_addr fa_reserved_bytes = Some header"
    and fa: "fa = \<lparr>fa_bitmap = set_range ?b2 header (header + fa_reserved_bytes) True,
      fa_zeroed = replicate BITMAP_ENTRIES 0, fa_total = ?total,
      fa_free = length (filter (\<lambda>i. \<not> bm_test (set_range ?b2 header (header + fa_reserved_bytes) True) i) [0..<?total]),
      fa_last = 0, fa_ram = scrub header fa_reserved_bytes m\<rparr>"
    unfolding fa_init_def Let_def fa_reserved_bytes_def [symmetric]
    by (cases "find_header usable reserved min_addr fa_reserved_bytes") auto
  have "?total \<le> MAX_PHYSICAL_MEMORY div FRAME_SIZE" by (intro div_le_mono) simp
  then have tot: "?total \<le> 32 * BITMAP_ENTRIES"
    by (simp add: BITMAP_ENTRIES_def MAX_PHYSICAL_MEMORY_def FRAME_SIZE_def)
  have bit: "bm_test (set_range ?b2 header (header + fa_reserved_bytes) True) i \<longleftrightarrow>
      touches header (header + fa_reserved_bytes) i \<or> (\<exists>r \<in> set reserved. touches (pr_start r) (pr_end r) i) \<or>
      \<not> (\<exists>r \<in> set usable. contains (pr_start r) (pr_end r) i)" if "i < ?total" for i
    using that tot by (simp add: set_range_test fold_set_range)
  have "length (filter (\<lambda>i. \<not> bm_test bm i) [0..<n]) = card {i. i < n \<and> \<not> bm_test bm i}" for n and bm :: "u32 list"
    by (subst distinct_card [symmetric]) (auto intro!: arg_cong [of _ _ card])
  then have "fa_inv fa"
    using tot by (auto simp: fa_inv_def fa free_set_def is_free_def)
  then show thesis
    by (rule that [OF h]) (use bit in \<open>auto simp: fa is_free_def\<close>)
qed



section \<open>The interface to the users of frames\<close>








section \<open>Properties\<close>

text \<open>
  A run of the allocator: initialisation, its operations in any order, and stores by the rest of the
  kernel into frames that are not free.
\<close>

inductive fa_reach :: "FrameAllocator \<Rightarrow> bool" where
  init: "fa_init usable reserved min_addr m = Some fa \<Longrightarrow> fa_reach fa"
| alloc: "fa_reach fa \<Longrightarrow> allocate_zeroed_frame fa = (r, fa') \<Longrightarrow> fa_reach fa'"
| alloc_run: "fa_reach fa \<Longrightarrow> allocate_zeroed_contiguous n fa = (r, fa') \<Longrightarrow> fa_reach fa'"
| claim: "fa_reach fa \<Longrightarrow> claim_range p n fa = (b, fa') \<Longrightarrow> fa_reach fa'"
| release: "fa_reach fa \<Longrightarrow> deallocate_frame p fa = Some fa' \<Longrightarrow> fa_reach fa'"
| wipe: "fa_reach fa \<Longrightarrow> fa_reach (scrub_free_memory fa)"
| store: "fa_reach fa \<Longrightarrow> i < fa_total fa \<Longrightarrow> \<not> is_free fa i \<Longrightarrow> k < 512 \<Longrightarrow>
    fa_reach (fa\<lparr>fa_ram := (fa_ram fa)(frame_word i k := v)\<rparr>)"

lemma fa_reach_inv: "fa_reach fa \<Longrightarrow> fa_inv fa"
proof (induction rule: fa_reach.induct)
  case (init usable reserved min_addr m fa)
  then show ?case by (rule fa_init_SomeD)
next
  case (alloc fa r fa')
  then show ?case using allocate_Some [of fa _ fa'] allocate_None [of fa fa'] by (cases r) auto
next
  case (alloc_run fa n r fa')
  then show ?case using contiguous_Some [of fa n _ fa'] contiguous_None [of n fa fa'] by (cases r) auto
next
  case (claim fa p n b fa')
  then show ?case using claim_effect [of fa p n b fa'] by auto
next
  case (release fa p fa')
  then show ?case using deallocate_inv by blast
next
  case (wipe fa)
  then show ?case by (simp add: scrub_free_memory_inv)
next
  case (store fa i k v)
  then show ?case by (simp add: write_owned_inv)
qed

text \<open>Four frames of RAM with old contents.\<close>

definition demo_fa :: FrameAllocator where
  "demo_fa = \<lparr>fa_bitmap = [0xFFFFFFF0], fa_zeroed = [0], fa_total = 4, fa_free = 4, fa_last = 2, fa_ram = (\<lambda>_. 0xAA)\<rparr>"

lemma demo_fa_inv: "fa_inv demo_fa"
proof -
  have "list_all (is_free demo_fa) [0..<4]" by code_simp
  then have "free_set demo_fa = {..<4}" by (auto simp: list_all_iff demo_fa_def)
  then show ?thesis by (auto simp: fa_inv_def demo_fa_def bm_test_def)
qed

text \<open>
  C10. The free-frame counter is exact and freed memory is blank: in every state the allocator can
  reach, \<open>free_count\<close> is the number of free frames, and every frame recorded as scrubbed is free and
  zero, so the debug check \<open>released_frames_are_zero\<close> always succeeds.
\<close>

theorem allocator_state_consistent:
  assumes "fa_reach fa"
  shows "free_count fa = card {i. i < total_count fa \<and> is_free fa i} \<and> released_frames_are_zero fa \<and>
    (\<forall>i < total_count fa. bm_test (fa_zeroed fa) i \<longrightarrow> is_free fa i \<and> frame_zero (fa_ram fa) i)"
  using fa_reach_inv [OF assms] released_zero [OF fa_reach_inv [OF assms]]
  by (simp add: free_count_def total_count_def fa_inv_def free_set_def)

text \<open>16 MiB of RAM, with the first megabyte reserved for the firmware.\<close>

lemma demo_header:
  "find_header [\<lparr>pr_start = 0, pr_end = 0x1000000\<rparr>] [\<lparr>pr_start = 0, pr_end = 0x100000\<rparr>] 0 fa_reserved_bytes = Some 0x100000"
proof -
  have b: "fa_reserved_bytes = 0x201000"
    by (simp add: fa_reserved_bytes_def BITMAP_ENTRIES_def MAX_PHYSICAL_MEMORY_def FRAME_SIZE_def)
  have "place_header [\<lparr>pr_start = 0, pr_end = 0x100000\<rparr>] 0x201000 0x1000000 0x100000 = Some 0x100000"
    by (subst place_header.simps) (simp add: checked_add_def)
  then have "place_header [\<lparr>pr_start = 0, pr_end = 0x100000\<rparr>] 0x201000 0x1000000 0 = Some 0x100000"
    by (subst place_header.simps) (simp add: checked_add_def page_down_def FRAME_SIZE_def)
  then show ?thesis by (simp add: find_header_def b page_down_def FRAME_SIZE_def MAX_PHYSICAL_MEMORY_def)
qed

lemma demo_init:
  "\<exists>fa. fa_init [\<lparr>pr_start = 0, pr_end = 0x1000000\<rparr>] [\<lparr>pr_start = 0, pr_end = 0x100000\<rparr>] 0 m = Some fa"
  using demo_header unfolding fa_init_def Let_def fa_reserved_bytes_def [symmetric] by simp

theorem allocator_state_consistent_witness:
  "\<exists>fa. fa_reach fa \<and> free_count fa = card {i. i < total_count fa \<and> is_free fa i} \<and> released_frames_are_zero fa"
proof -
  obtain fa where "fa_reach fa" using demo_init [of "\<lambda>_. 0xAA"] fa_reach.init by blast
  with allocator_state_consistent [OF this] show ?thesis by blast
qed

text \<open>
  C11. An allocation hands out a blank frame that nobody owns: it succeeds exactly when a frame is
  free, the frame was free and is now used, all its words are zero, and the contents and ownership
  of all other frames are unchanged.
\<close>

theorem allocate_zeroed_frame_correct:
  assumes "fa_inv fa"
  shows "case allocate_zeroed_frame fa of
      (None, fa') \<Rightarrow> fa' = fa \<and> free_count fa = 0
    | (Some p, fa') \<Rightarrow> \<exists>i < total_count fa. p = i * FRAME_SIZE \<and> is_free fa i \<and> fa_inv fa' \<and>
        (\<forall>k < 512. fa_ram fa' (p + 8 * k) = 0) \<and> free_count fa = free_count fa' + 1 \<and>
        (\<forall>j < total_count fa. is_free fa' j \<longleftrightarrow> j \<noteq> i \<and> is_free fa j) \<and>
        (\<forall>j k. j \<noteq> i \<longrightarrow> k < 512 \<longrightarrow> fa_ram fa' (j * FRAME_SIZE + 8 * k) = fa_ram fa (j * FRAME_SIZE + 8 * k))"
proof -
  obtain r fa' where al: "allocate_zeroed_frame fa = (r, fa')" by (cases "allocate_zeroed_frame fa")
  show ?thesis
  proof (cases r)
    case None
    then show ?thesis using allocate_None al assms by (auto simp: free_count_def fa_inv_def)
  next
    case (Some p)
    with allocate_Some [OF assms] al obtain i where i: "p = i * FRAME_SIZE" "takes {i} fa fa'" "fa_inv fa'"
      "fa_free fa = fa_free fa' + 1" by blast
    have "i < fa_total fa \<and> is_free fa i \<and> (\<forall>j < fa_total fa. is_free fa' j \<longleftrightarrow> j \<noteq> i \<and> is_free fa j)"
      using i(2) by (auto simp: takes_def set_eq_iff)
    then show ?thesis
      using al Some i by (auto simp: takes_def frame_zero_def frame_word_def total_count_def free_count_def)
  qed
qed

lemma demo_fa_alloc: "\<exists>fa'. allocate_zeroed_frame demo_fa = (Some 0x2000, fa')"
proof -
  have "find (is_free demo_fa) (map (\<lambda>i. (fa_last demo_fa + i) mod fa_total demo_fa) [0..<fa_total demo_fa]) = Some 2"
    by code_simp
  then show ?thesis unfolding allocate_zeroed_frame_def by (simp add: Let_def FRAME_SIZE_def)
qed

theorem allocate_zeroed_frame_correct_witness:
  "\<exists>fa'. allocate_zeroed_frame demo_fa = (Some 0x2000, fa') \<and> (\<forall>k < 512. fa_ram fa' (0x2000 + 8 * k) = 0)"
proof -
  obtain fa' where al: "allocate_zeroed_frame demo_fa = (Some 0x2000, fa')" using demo_fa_alloc by blast
  show ?thesis using allocate_zeroed_frame_correct [OF demo_fa_inv] al by auto
qed

text \<open>
  C12. Contiguous allocation is first fit and all or nothing: it succeeds exactly when a run of
  \<open>count\<close> free frames exists, returns the lowest such run, whose frames were free and are now used
  and zero, and touches no other frame; \<open>claim_range\<close> succeeds exactly on an aligned free range
  inside RAM.
\<close>

theorem contiguous_allocation_correct:
  assumes "fa_inv fa"
  shows "(case allocate_zeroed_contiguous count fa of
      (None, fa') \<Rightarrow> fa' = fa \<and> (count = 0 \<or> (\<forall>s. \<not> free_run fa count s))
    | (Some p, fa') \<Rightarrow> \<exists>s. p = s * FRAME_SIZE \<and> free_run fa count s \<and> (\<forall>s' < s. \<not> free_run fa count s') \<and>
        takes {s..<s + count} fa fa' \<and> fa_inv fa' \<and> free_count fa = free_count fa' + count) \<and>
    (case claim_range start count fa of (claimed, fa') \<Rightarrow>
        claimed = (start mod FRAME_SIZE = 0 \<and> free_run fa count (start div FRAME_SIZE)) \<and>
        (if claimed then takes {start div FRAME_SIZE..<start div FRAME_SIZE + count} fa fa' \<and> fa_inv fa' else fa' = fa))"
proof (intro conjI)
  obtain r fa' where al: "allocate_zeroed_contiguous count fa = (r, fa')" by (cases "allocate_zeroed_contiguous count fa")
  show "case allocate_zeroed_contiguous count fa of
      (None, fa') \<Rightarrow> fa' = fa \<and> (count = 0 \<or> (\<forall>s. \<not> free_run fa count s))
    | (Some p, fa') \<Rightarrow> \<exists>s. p = s * FRAME_SIZE \<and> free_run fa count s \<and> (\<forall>s' < s. \<not> free_run fa count s') \<and>
        takes {s..<s + count} fa fa' \<and> fa_inv fa' \<and> free_count fa = free_count fa' + count"
    using al contiguous_None [of count fa fa'] contiguous_Some [OF assms, of count _ fa']
    by (cases r) (auto simp: free_count_def)
  obtain b fb where cl: "claim_range start count fa = (b, fb)" by (cases "claim_range start count fa")
  show "case claim_range start count fa of (claimed, fa') \<Rightarrow>
        claimed = (start mod FRAME_SIZE = 0 \<and> free_run fa count (start div FRAME_SIZE)) \<and>
        (if claimed then takes {start div FRAME_SIZE..<start div FRAME_SIZE + count} fa fa' \<and> fa_inv fa' else fa' = fa)"
    using cl claim_effect [OF assms cl] by auto
qed

theorem contiguous_allocation_correct_witness:
  "fst (allocate_zeroed_contiguous 5 demo_fa) = None \<and> \<not> free_run demo_fa 5 0"
proof -
  have "find_run demo_fa 5 0 0 [0..<fa_total demo_fa] = None" by code_simp
  then have "allocate_zeroed_contiguous 5 demo_fa = (None, demo_fa)" by (simp add: allocate_zeroed_contiguous_def)
  with contiguous_allocation_correct [OF demo_fa_inv, of 5 0] show ?thesis by simp
qed





end
