(* ===== verification/Virtqueue.thy ===== *)
theory Virtqueue
  imports Frame_Allocator
begin

text \<open>
  The split virtqueue shared by the virtio drivers (\<open>src/virtio/mod.rs\<close>, \<open>src/virtio/ownership.rs\<close>).
  The ring memory is shared with the device, which may write anything into it at any time; which
  descriptors are free and which are in flight is kept in CPU-owned memory only. A panic and an access
  outside the ring memory are \<open>None\<close>.

  The lemmas show that the free list and the chains in flight always partition the descriptor table,
  whatever the device writes, and that a submitted chain is what the device reads from the table.
\<close>

section \<open>Descriptor ownership\<close>

definition END :: u16 where "END = - 1"

record Ownership =
  ow_next :: "u16 list"
  ow_pending :: "u16 list"
  ow_free_head :: u16
  ow_free :: u16
  ow_broken :: bool

definition ownership_new :: "u16 \<Rightarrow> Ownership option" where
  "ownership_new qsize =
     (if qsize = 0 then None
      else Some \<lparr>ow_next = map (\<lambda>i. if Suc i < unat qsize then of_nat (Suc i) else END) [0..<unat qsize],
        ow_pending = replicate (unat qsize) 0, ow_free_head = 0, ow_free = qsize, ow_broken = False\<rparr>)"

definition poison :: "Ownership \<Rightarrow> Ownership" where
  "poison ow = ow\<lparr>ow_broken := True\<rparr>"

definition own_next :: "Ownership \<Rightarrow> u16 \<Rightarrow> u16 option" where
  "own_next ow i = idx (ow_next ow) (unat i)"

text \<open>\<open>for _ in 1..count { tail = self.next(tail); }\<close>\<close>

fun tail_from :: "Ownership \<Rightarrow> nat \<Rightarrow> u16 \<Rightarrow> u16 option" where
  "tail_from ow 0 t = Some t"
| "tail_from ow (Suc n) t = do { t' \<leftarrow> own_next ow t; tail_from ow n t' }"

definition reserve :: "nat \<Rightarrow> Ownership \<Rightarrow> (u16 option \<times> Ownership) option" where
  "reserve count ow =
     (if ow_broken ow \<or> count = 0 \<or> unat (ow_free ow) < count then Some (None, ow)
      else do {
        let head = ow_free_head ow;
        tail \<leftarrow> tail_from ow (count - 1) head;
        rest \<leftarrow> own_next ow tail;
        _ \<leftarrow> idx (ow_pending ow) (unat head);
        Some (Some head, ow\<lparr>ow_free_head := rest, ow_next := (ow_next ow)[unat tail := END],
          ow_pending := (ow_pending ow)[unat head := of_nat count], ow_free := ow_free ow - of_nat count\<rparr>)
      })"

definition complete :: "u32 \<Rightarrow> u16 \<Rightarrow> u16 option \<Rightarrow> Ownership \<Rightarrow> (u16 option \<times> Ownership) option" where
  "complete i count expected ow =
     (if ow_broken ow then Some (None, ow)
      else if length (ow_pending ow) \<le> unat i \<or> count = 0 \<or> ow_pending ow ! unat i \<noteq> count
           \<or> (case expected of None \<Rightarrow> False | Some head \<Rightarrow> i \<noteq> ucast head)
      then Some (None, poison ow)
      else do {
        let head = ucast i;
        tail \<leftarrow> tail_from ow (unat count - 1) head;
        _ \<leftarrow> own_next ow tail;
        Some (Some head, ow\<lparr>ow_next := (ow_next ow)[unat tail := ow_free_head ow], ow_free_head := head,
          ow_pending := (ow_pending ow)[unat head := 0], ow_free := ow_free ow + count\<rparr>)
      })"

section \<open>The queue\<close>

definition DESC_F_NEXT :: u16 where "DESC_F_NEXT = 1"
definition DESC_F_WRITE :: u16 where "DESC_F_WRITE = 2"

record Desc =
  d_addr :: u64
  d_len :: u32
  d_flags :: u16
  d_next :: u16

type_synonym QueueBuf = "u64 \<times> u32 \<times> bool"

text \<open>The ring memory.\<close>

record Ring =
  rg_desc :: "Desc list"
  rg_avail_flags :: u16
  rg_avail_idx :: u16
  rg_avail_ring :: "u16 list"
  rg_used_idx :: u16
  rg_used_ring :: "(u32 \<times> u32) list"

record Virtqueue =
  vq_size :: u16
  vq_ownership :: Ownership
  vq_last_used :: u16
  vq_ring_phys :: u64
  vq_avail_offset :: u64
  vq_used_offset :: u64

record DmaRegion =
  dma_phys :: nat
  dma_size :: nat

definition dma_alloc :: "nat \<Rightarrow> FrameAllocator \<Rightarrow> (DmaRegion \<times> FrameAllocator) option" where
  "dma_alloc pages fa = (case allocate_zeroed_contiguous pages fa of
     (None, _) \<Rightarrow> None
   | (Some phys, fa') \<Rightarrow> Some (\<lparr>dma_phys = phys, dma_size = pages * 4096\<rparr>, fa'))"

definition vq_desc_bytes :: "u16 \<Rightarrow> nat" where
  "vq_desc_bytes qsize = unat qsize * 16"

definition vq_avail_bytes :: "u16 \<Rightarrow> nat" where
  "vq_avail_bytes qsize = 6 + 2 * unat qsize"

definition vq_used_at :: "u16 \<Rightarrow> nat" where
  "vq_used_at qsize = (vq_desc_bytes qsize + vq_avail_bytes qsize + 4095) div 4096 * 4096"

definition vq_used_bytes :: "u16 \<Rightarrow> nat" where
  "vq_used_bytes qsize = 6 + 8 * unat qsize"

definition vq_pages :: "u16 \<Rightarrow> nat" where
  "vq_pages qsize = (vq_used_at qsize + vq_used_bytes qsize + 4095) div 4096"

text \<open>Zeroed pages read as empty descriptors and rings.\<close>

definition ring_zeroed :: "u16 \<Rightarrow> Ring" where
  "ring_zeroed qsize = \<lparr>rg_desc = replicate (unat qsize) \<lparr>d_addr = 0, d_len = 0, d_flags = 0, d_next = 0\<rparr>, rg_avail_flags = 0,
     rg_avail_idx = 0, rg_avail_ring = replicate (unat qsize) 0, rg_used_idx = 0, rg_used_ring = replicate (unat qsize) (0, 0)\<rparr>"

definition virtqueue_new :: "u16 \<Rightarrow> FrameAllocator \<Rightarrow> ((Virtqueue \<times> Ring) \<times> FrameAllocator) option" where
  "virtqueue_new qsize fa = do {
     (region, fa) \<leftarrow> dma_alloc (vq_pages qsize) fa;
     ow \<leftarrow> ownership_new qsize;
     Some ((\<lparr>vq_size = qsize, vq_ownership = ow, vq_last_used = 0, vq_ring_phys = of_nat (dma_phys region),
       vq_avail_offset = of_nat (vq_desc_bytes qsize), vq_used_offset = of_nat (vq_used_at qsize)\<rparr>, ring_zeroed qsize), fa)
   }"

definition is_broken :: "Virtqueue \<Rightarrow> bool" where
  "is_broken q = ow_broken (vq_ownership q)"

definition ring_addrs :: "Virtqueue \<Rightarrow> u64 \<times> u64 \<times> u64" where
  "ring_addrs q = (vq_ring_phys q, vq_ring_phys q + vq_avail_offset q, vq_ring_phys q + vq_used_offset q)"

text \<open>The loop of \<open>submit\<close> that fills the descriptors of a chain.\<close>

fun put_chain :: "Ownership \<Rightarrow> u16 \<Rightarrow> QueueBuf list \<Rightarrow> Desc list \<Rightarrow> Desc list option" where
  "put_chain ow i [] ds = Some ds"
| "put_chain ow i ((addr, len, device_writes) # bufs) ds = do {
     _ \<leftarrow> idx ds (unat i);
     let flags = (if device_writes then DESC_F_WRITE else 0);
     if bufs = [] then Some (ds[unat i := \<lparr>d_addr = addr, d_len = len, d_flags = flags, d_next = 0\<rparr>])
     else do {
       n \<leftarrow> own_next ow i;
       put_chain ow n bufs (ds[unat i := \<lparr>d_addr = addr, d_len = len, d_flags = flags OR DESC_F_NEXT, d_next = n\<rparr>])
     }
   }"

definition submit :: "QueueBuf list \<Rightarrow> Virtqueue \<Rightarrow> Ring \<Rightarrow> (u16 option \<times> Virtqueue \<times> Ring) option" where
  "submit bufs q rg = do {
     (r, ow) \<leftarrow> reserve (length bufs) (vq_ownership q);
     case r of
       None \<Rightarrow> Some (None, q\<lparr>vq_ownership := ow\<rparr>, rg)
     | Some head \<Rightarrow> do {
         ds \<leftarrow> put_chain ow head bufs (rg_desc rg);
         let slot = unat (rg_avail_idx rg mod vq_size q);
         _ \<leftarrow> idx (rg_avail_ring rg) slot;
         Some (Some head, q\<lparr>vq_ownership := ow\<rparr>,
           rg\<lparr>rg_desc := ds, rg_avail_ring := (rg_avail_ring rg)[slot := head], rg_avail_idx := rg_avail_idx rg + 1, rg_avail_flags := 0\<rparr>)
       }
   }"

definition pop_used_checked :: "u16 \<Rightarrow> u16 option \<Rightarrow> Virtqueue \<Rightarrow> Ring \<Rightarrow> ((u16 \<times> u32) option \<times> Virtqueue) option" where
  "pop_used_checked chain_len expected q rg =
     (if ow_broken (vq_ownership q) then Some (None, q)
      else if vq_size q < rg_used_idx rg - vq_last_used q
      then Some (None, q\<lparr>vq_ownership := poison (vq_ownership q)\<rparr>)
      else if vq_last_used q = rg_used_idx rg then Some (None, q)
      else do {
        (i, len) \<leftarrow> idx (rg_used_ring rg) (unat (vq_last_used q mod vq_size q));
        (r, ow) \<leftarrow> complete i chain_len expected (vq_ownership q);
        Some (map_option (\<lambda>head. (head, len)) r, q\<lparr>vq_last_used := vq_last_used q + 1, vq_ownership := ow\<rparr>)
      })"

definition pop_used :: "u16 \<Rightarrow> Virtqueue \<Rightarrow> Ring \<Rightarrow> ((u16 \<times> u32) option \<times> Virtqueue) option" where
  "pop_used chain_len q rg = pop_used_checked chain_len None q rg"

section \<open>The partition of the descriptor table\<close>

text \<open>The \<open>n\<close> descriptors linked from \<open>i\<close>.\<close>

fun path :: "u16 list \<Rightarrow> u16 \<Rightarrow> nat \<Rightarrow> u16 list" where
  "path nx i 0 = []"
| "path nx i (Suc n) = i # path nx (nx ! unat i) n"

definition own_free :: "Ownership \<Rightarrow> u16 list" where
  "own_free ow = path (ow_next ow) (ow_free_head ow) (unat (ow_free ow))"

definition own_chain :: "Ownership \<Rightarrow> u16 \<Rightarrow> u16 list" where
  "own_chain ow h = path (ow_next ow) h (unat (ow_pending ow ! unat h))"

definition own_heads :: "Ownership \<Rightarrow> u16 set" where
  "own_heads ow = {h. unat h < length (ow_pending ow) \<and> ow_pending ow ! unat h \<noteq> 0}"

definition own_inv :: "Ownership \<Rightarrow> bool" where
  "own_inv ow \<longleftrightarrow> length (ow_pending ow) = length (ow_next ow) \<and> 0 < length (ow_next ow) \<and> length (ow_next ow) < 65536
     \<and> distinct (own_free ow) \<and> (\<forall>h\<in>own_heads ow. distinct (own_chain ow h) \<and> set (own_chain ow h) \<inter> set (own_free ow) = {})
     \<and> (\<forall>h\<in>own_heads ow. \<forall>g\<in>own_heads ow. h \<noteq> g \<longrightarrow> set (own_chain ow h) \<inter> set (own_chain ow g) = {})
     \<and> set (own_free ow) \<union> (\<Union>h\<in>own_heads ow. set (own_chain ow h)) = {i. unat i < length (ow_next ow)}"

lemma length_path [simp]: "length (path nx i n) = n"
  by (induction n arbitrary: i) auto


lemma path_last: "path nx i (Suc n) = path nx i n @ [last (path nx i (Suc n))]"
  by (induction n arbitrary: i) auto

lemma path_split:
  "path nx i (Suc m + n) = path nx i (Suc m) @ path nx (nx ! unat (last (path nx i (Suc m)))) n"
  by (induction m arbitrary: i) auto

lemma path_cong:
  assumes "\<And>j. j \<in> set (path nx i n) \<Longrightarrow> nx' ! unat j = nx ! unat j"
  shows "path nx' i n = path nx i n"
  using assms by (induction n arbitrary: i) auto

lemma path_upd_last:
  assumes "distinct (path nx i (Suc n))" and "t = last (path nx i (Suc n))"
  shows "path (nx[unat t := x]) i (Suc n) = path nx i (Suc n)"
  using assms
proof (induction n arbitrary: i)
  case (Suc n)
  have "t = last (path nx (nx ! unat i) (Suc n))" using Suc.prems(2) by simp
  then have "t \<in> set (path nx (nx ! unat i) (Suc n))" by (metis last_in_set list.distinct(1) path.simps(2))
  then have "unat i \<noteq> unat t" using Suc.prems(1) by (auto simp flip: word_unat_eq_iff)
  then show ?case using Suc by (simp add: nth_list_update_neq)
qed simp

lemma path_upd_other:
  assumes "t \<notin> set (path nx i n)"
  shows "path (nx[unat t := x]) i n = path nx i n"
proof (rule path_cong)
  fix j assume "j \<in> set (path nx i n)"
  then have "unat t \<noteq> unat j" using assms by (auto simp flip: word_unat_eq_iff)
  then show "nx[unat t := x] ! unat j = nx ! unat j" by simp
qed

lemma tail_from_path:
  assumes "\<forall>j\<in>set (path (ow_next ow) i (Suc n)). unat j < length (ow_next ow)"
  shows "tail_from ow n i = Some (last (path (ow_next ow) i (Suc n)))"
  using assms by (induction n arbitrary: i) (simp_all add: own_next_def)

lemma own_inv_free_small:
  assumes "own_inv ow"
  shows "unat (ow_free ow) \<le> length (ow_next ow)" "h \<in> own_heads ow \<Longrightarrow> unat (ow_free ow) + unat (ow_pending ow ! unat h) \<le> length (ow_next ow)"
    "j \<in> set (own_free ow) \<Longrightarrow> unat j < length (ow_next ow)" "h \<in> own_heads ow \<Longrightarrow> j \<in> set (own_chain ow h) \<Longrightarrow> unat j < length (ow_next ow)"
proof -
  define A :: "u16 set" where "A = {i. unat i < length (ow_next ow)}"
  have d: "distinct (own_free ow)" and U: "set (own_free ow) \<union> (\<Union>h\<in>own_heads ow. set (own_chain ow h)) = A"
    using assms unfolding own_inv_def A_def by blast+
  have fin: "finite A" by simp
  have "card A = card (unat ` A)" by (rule card_image [symmetric]) (auto simp: inj_on_def simp flip: word_unat_eq_iff)
  also have "\<dots> \<le> card {..<length (ow_next ow)}" by (rule card_mono) (auto simp: A_def)
  finally have c: "card A \<le> length (ow_next ow)" by simp
  show "unat j < length (ow_next ow)" if "j \<in> set (own_free ow)"
  proof -
    from that have "j \<in> A" unfolding U [symmetric] by blast
    then show ?thesis by (simp add: A_def)
  qed
  show "unat j < length (ow_next ow)" if "h \<in> own_heads ow" "j \<in> set (own_chain ow h)"
  proof -
    from that have "j \<in> A" unfolding U [symmetric] by blast
    then show ?thesis by (simp add: A_def)
  qed
  have "set (own_free ow) \<subseteq> A" unfolding U [symmetric] by blast
  from card_mono [OF fin this] c distinct_card [OF d] show "unat (ow_free ow) \<le> length (ow_next ow)" by (simp add: own_free_def)
  assume h: "h \<in> own_heads ow"
  then have d: "distinct (own_free ow @ own_chain ow h)" using assms unfolding own_inv_def distinct_append by blast
  have "set (own_free ow @ own_chain ow h) \<subseteq> A" unfolding U [symmetric] set_append using h by blast
  from card_mono [OF fin this] c distinct_card [OF d]
  show "unat (ow_free ow) + unat (ow_pending ow ! unat h) \<le> length (ow_next ow)" by (simp add: own_free_def own_chain_def)
qed

lemma own_head_in_chain: "h \<in> own_heads ow \<Longrightarrow> h \<in> set (own_chain ow h)"
proof -
  assume "h \<in> own_heads ow"
  then obtain n where "unat (ow_pending ow ! unat h) = Suc n"
    by (metis (mono_tags, lifting) mem_Collect_eq not0_implies_Suc own_heads_def unat_eq_zero)
  then show ?thesis by (simp add: own_chain_def)
qed

lemma own_invI:
  assumes "length (ow_pending ow) = length (ow_next ow)" "0 < length (ow_next ow)" "length (ow_next ow) < 65536"
    and "distinct (own_free ow)" and "\<And>h. h \<in> own_heads ow \<Longrightarrow> distinct (own_chain ow h) \<and> set (own_chain ow h) \<inter> set (own_free ow) = {}"
    and "\<And>h g. h \<in> own_heads ow \<Longrightarrow> g \<in> own_heads ow \<Longrightarrow> h \<noteq> g \<Longrightarrow> set (own_chain ow h) \<inter> set (own_chain ow g) = {}"
    and "set (own_free ow) \<union> (\<Union>h\<in>own_heads ow. set (own_chain ow h)) = {i. unat i < length (ow_next ow)}"
  shows "own_inv ow"
  using assms unfolding own_inv_def by blast

lemma ownership_new_inv:
  assumes "ownership_new qsize = Some ow"
  shows "own_inv ow" "own_heads ow = {}" "length (ow_next ow) = unat qsize" "\<not> ow_broken ow" "own_free ow = map of_nat [0..<unat qsize]"
proof -
  let ?nx = "map (\<lambda>i. if Suc i < unat qsize then of_nat (Suc i) else END) [0..<unat qsize]"
  have z: "qsize \<noteq> 0" and ow: "ow = \<lparr>ow_next = ?nx, ow_pending = replicate (unat qsize) 0, ow_free_head = 0, ow_free = qsize, ow_broken = False\<rparr>"
    using assms by (auto simp: ownership_new_def split: if_splits)
  have p: "i + n \<le> unat qsize \<Longrightarrow> path ?nx (of_nat i) n = map of_nat [i..<i + n]" for i n
  proof (induction n arbitrary: i)
    case (Suc n)
    have u: "unat (of_nat i :: u16) = i" using Suc.prems unat_lt_u16 [of qsize] by (intro unat_of_nat_small) simp
    show ?case
    proof (cases n)
      case 0
      then show ?thesis by simp
    next
      case (Suc m)
      then have "?nx ! i = of_nat (Suc i)" using \<open>i + Suc n \<le> unat qsize\<close> by simp
      then have "path ?nx (of_nat i) (Suc n) = of_nat i # path ?nx (of_nat (Suc i)) n" using u by simp
      also have "\<dots> = of_nat i # map of_nat [Suc i..<Suc i + n]" using Suc.IH [of "Suc i"] \<open>i + Suc n \<le> unat qsize\<close> by simp
      also have "\<dots> = map of_nat [i..<i + Suc n]" by (subst (2) upt_conv_Cons) auto
      finally show ?thesis .
    qed
  qed simp
  show f: "own_free ow = map of_nat [0..<unat qsize]" using p [of 0 "unat qsize"] by (simp add: ow own_free_def)
  show h: "own_heads ow = {}" by (auto simp: ow own_heads_def)
  show l: "length (ow_next ow) = unat qsize" "\<not> ow_broken ow" by (simp_all add: ow)
  have u: "unat (of_nat k :: u16) = k" if "k < unat qsize" for k
    using that unat_lt_u16 [of qsize] by (intro unat_of_nat_small) simp
  have "inj_on (of_nat :: nat \<Rightarrow> u16) {0..<unat qsize}"
    by (rule inj_on_inverseI [where g = unat]) (simp add: u)
  then have "distinct (own_free ow)" by (simp add: f distinct_map)
  moreover have "set (own_free ow) = {i. unat i < unat qsize}"
  proof -
    have "i \<in> of_nat ` {0..<unat qsize}" if "unat i < unat qsize" for i :: u16
      using that by (intro image_eqI [of _ _ "unat i"]) simp_all
    then show ?thesis using u by (auto simp: f)
  qed
  moreover have "length (ow_pending ow) = unat qsize" "0 < unat qsize" using z by (simp_all add: ow unat_gt_0)
  ultimately show "own_inv ow" using h l unat_lt_u16 [of qsize] by (intro own_invI) simp_all
qed

text \<open>A chain moves from the front of the free list into flight.\<close>

definition taken :: "nat \<Rightarrow> u16 \<Rightarrow> Ownership \<Rightarrow> Ownership \<Rightarrow> bool" where
  "taken count h ow ow' \<longleftrightarrow> h \<notin> own_heads ow \<and> own_heads ow' = insert h (own_heads ow) \<and> own_chain ow' h = take count (own_free ow)
     \<and> own_free ow' = drop count (own_free ow) \<and> (\<forall>g\<in>own_heads ow. own_chain ow' g = own_chain ow g)
     \<and> ow_broken ow' = ow_broken ow \<and> length (ow_next ow') = length (ow_next ow) \<and> length (ow_pending ow') = length (ow_pending ow)"

text \<open>And back to the front of the free list.\<close>

definition given_back :: "u16 \<Rightarrow> Ownership \<Rightarrow> Ownership \<Rightarrow> bool" where
  "given_back h ow ow' \<longleftrightarrow> h \<in> own_heads ow \<and> own_heads ow' = own_heads ow - {h} \<and> own_free ow' = own_chain ow h @ own_free ow
     \<and> (\<forall>g\<in>own_heads ow'. own_chain ow' g = own_chain ow g)
     \<and> ow_broken ow' = ow_broken ow \<and> length (ow_next ow') = length (ow_next ow) \<and> length (ow_pending ow') = length (ow_pending ow)"

lemma taken_inv:
  assumes inv: "own_inv ow" and t: "taken count h ow ow'"
  shows "own_inv ow'"
proof -
  have F: "set (own_free ow) = set (own_chain ow' h) \<union> set (own_free ow')" "set (own_chain ow' h) \<inter> set (own_free ow') = {}"
    "distinct (own_chain ow' h)" "distinct (own_free ow')"
  proof -
    have "own_free ow = own_chain ow' h @ own_free ow'" and "distinct (own_free ow)" using t inv by (simp_all add: taken_def own_inv_def)
    then show "set (own_free ow) = set (own_chain ow' h) \<union> set (own_free ow')" "set (own_chain ow' h) \<inter> set (own_free ow') = {}"
      "distinct (own_chain ow' h)" "distinct (own_free ow')" by simp_all
  qed
  have H: "own_heads ow' = insert h (own_heads ow)" and C: "g \<in> own_heads ow \<Longrightarrow> own_chain ow' g = own_chain ow g" for g
    using t by (simp_all add: taken_def)
  show ?thesis
  proof (rule own_invI)
    fix g assume "g \<in> own_heads ow'"
    then show "distinct (own_chain ow' g) \<and> set (own_chain ow' g) \<inter> set (own_free ow') = {}"
      using inv F C unfolding H own_inv_def by (metis (no_types, lifting) Int_Un_distrib Un_empty insert_iff)
  next
    have dis: "set (own_chain ow' g) \<inter> set (own_chain ow' h) = {}" if "g \<in> own_heads ow" for g
    proof -
      have "set (own_chain ow g) \<inter> set (own_free ow) = {}" using inv that by (simp add: own_inv_def)
      then show ?thesis unfolding C [OF that] F(1) by blast
    qed
    fix g g' assume "g \<in> own_heads ow'" "g' \<in> own_heads ow'" "g \<noteq> g'"
    then show "set (own_chain ow' g) \<inter> set (own_chain ow' g') = {}"
      using inv dis C unfolding H own_inv_def by (metis (no_types, lifting) Int_commute insert_iff)
  next
    have "(\<Union>g\<in>own_heads ow'. set (own_chain ow' g)) = set (own_chain ow' h) \<union> (\<Union>g\<in>own_heads ow. set (own_chain ow g))"
      unfolding H using C by simp
    then show "set (own_free ow') \<union> (\<Union>g\<in>own_heads ow'. set (own_chain ow' g)) = {i. unat i < length (ow_next ow')}"
      using inv F(1) t unfolding own_inv_def taken_def by auto
  qed (use inv t F in \<open>simp_all add: own_inv_def taken_def\<close>)
qed

lemma given_back_inv:
  assumes inv: "own_inv ow" and t: "given_back h ow ow'"
  shows "own_inv ow'"
proof (rule own_invI)
  have h: "h \<in> own_heads ow" and H: "own_heads ow' = own_heads ow - {h}" and F: "own_free ow' = own_chain ow h @ own_free ow"
    and C: "\<And>g. g \<in> own_heads ow' \<Longrightarrow> own_chain ow' g = own_chain ow g"
    using t by (simp_all add: given_back_def)
  show "distinct (own_free ow')" using inv h unfolding F distinct_append own_inv_def by blast
  show "distinct (own_chain ow' g) \<and> set (own_chain ow' g) \<inter> set (own_free ow') = {}" if g: "g \<in> own_heads ow'" for g
    unfolding C [OF g] F set_append using inv h g unfolding H own_inv_def by blast
  show "set (own_chain ow' g) \<inter> set (own_chain ow' g') = {}" if g: "g \<in> own_heads ow'" "g' \<in> own_heads ow'" "g \<noteq> g'" for g g'
    unfolding C [OF g(1)] C [OF g(2)] using inv g unfolding H own_inv_def by blast
  have "(\<Union>g\<in>own_heads ow'. set (own_chain ow' g)) = (\<Union>g\<in>own_heads ow - {h}. set (own_chain ow g))" unfolding H [symmetric] using C by simp
  then have "set (own_free ow') \<union> (\<Union>g\<in>own_heads ow'. set (own_chain ow' g)) = set (own_free ow) \<union> (\<Union>g\<in>own_heads ow. set (own_chain ow g))"
    unfolding F set_append using h by blast
  then show "set (own_free ow') \<union> (\<Union>g\<in>own_heads ow'. set (own_chain ow' g)) = {i. unat i < length (ow_next ow')}"
    using inv t by (simp add: own_inv_def given_back_def)
qed (use inv t in \<open>simp_all add: own_inv_def given_back_def\<close>)

lemma reserve_cases:
  assumes inv: "own_inv ow"
  shows "\<exists>r ow'. reserve count ow = Some (r, ow') \<and> own_inv ow' \<and>
    (case r of None \<Rightarrow> ow' = ow \<and> (ow_broken ow \<or> count = 0 \<or> length (own_free ow) < count)
     | Some h \<Rightarrow> taken count h ow ow' \<and> 0 < count \<and> count \<le> length (own_free ow) \<and> \<not> ow_broken ow)"
proof (cases "ow_broken ow \<or> count = 0 \<or> unat (ow_free ow) < count")
  case True
  then show ?thesis using inv by (auto simp: reserve_def own_free_def)
next
  case False
  then obtain m k where m: "count = Suc m" and k: "unat (ow_free ow) = Suc m + k"
    by (metis Suc_pred le_Suc_ex not_less zero_less_iff_neq_zero)
  let ?nx = "ow_next ow" and ?h = "ow_free_head ow"
  define P where "P = path ?nx ?h (Suc m)"
  define t where "t = last P"
  define R where "R = path ?nx (?nx ! unat t) k"
  have F: "own_free ow = P @ R" unfolding own_free_def k path_split P_def R_def t_def ..
  have len: "length P = count" by (simp add: P_def m)
  have dP: "distinct P" "distinct R" "set P \<inter> set R = {}" using inv F by (simp_all add: own_inv_def)
  have tP: "t \<in> set P" unfolding t_def using len m by (intro last_in_set) auto
  have hP: "?h \<in> set P" by (simp add: P_def)
  have small: "unat j < length ?nx" if "j \<in> set P" for j
    using own_inv_free_small(3) [OF inv, of j] that unfolding F by simp
  have lp: "length (ow_pending ow) = length ?nx" and l64: "length ?nx < 65536" using inv by (simp_all add: own_inv_def)
  have tail: "tail_from ow (count - 1) ?h = Some t" using tail_from_path [of ow ?h m] small by (simp add: P_def t_def m)
  have ufree: "unat (ow_free ow) \<le> length ?nx" by (rule own_inv_free_small [OF inv])
  have uc: "unat (of_nat count :: u16) = count" using k ufree l64 m by (intro unat_of_nat_small) simp
  define ow' where "ow' = ow\<lparr>ow_free_head := ?nx ! unat t, ow_next := ?nx[unat t := END],
    ow_pending := (ow_pending ow)[unat ?h := of_nat count], ow_free := ow_free ow - of_nat count\<rparr>"
  have res: "reserve count ow = Some (Some ?h, ow')"
    using False tail small [OF tP] small [OF hP] lp by (simp add: reserve_def own_next_def Let_def ow'_def)
  have uf: "unat (ow_free ow') = k"
    using k m uc by (simp add: ow'_def unat_sub_if_size word_size)
  have f': "own_free ow' = R"
    unfolding own_free_def uf using path_upd_other [of t ?nx "?nx ! unat t" k END] dP(3) tP by (auto simp: ow'_def R_def)
  have nh: "?h \<notin> own_heads ow"
    using own_head_in_chain [of ?h ow] inv hP F by (auto simp: own_inv_def)
  have pend: "ow_pending ow' ! unat ?h = of_nat count" using small [OF hP] lp by (simp add: ow'_def)
  have c': "own_chain ow' ?h = P"
    unfolding own_chain_def pend uc using path_upd_last [of ?nx ?h m t END] dP(1) by (simp add: ow'_def P_def t_def m)
  have "own_chain ow' g = own_chain ow g" if g: "g \<in> own_heads ow" for g
  proof -
    have "g \<noteq> ?h" using g nh by auto
    then have "ow_pending ow' ! unat g = ow_pending ow ! unat g" by (simp add: ow'_def nth_list_update_neq word_unat_eq_iff)
    moreover have "t \<notin> set (own_chain ow g)"
    proof -
      have "set (own_chain ow g) \<inter> set (P @ R) = {}" using inv g F by (simp add: own_inv_def)
      then show ?thesis using tP by auto
    qed
    ultimately show ?thesis unfolding own_chain_def using path_upd_other [of t ?nx g _ END] by (simp add: ow'_def)
  qed
  moreover have "own_heads ow' = insert ?h (own_heads ow)"
  proof -
    have "(of_nat count :: u16) \<noteq> 0" using uc m by (metis nat.distinct(1) unat_0)
    then show ?thesis using small [OF hP] lp
      by (auto simp: own_heads_def ow'_def nth_list_update word_unat_eq_iff)
  qed
  ultimately have "taken count ?h ow ow'"
    using nh c' f' len unfolding taken_def F by (simp add: ow'_def)
  moreover have "count \<le> length (own_free ow)" using F len by simp
  ultimately show ?thesis using res taken_inv [OF inv] False m by simp
qed

lemma poison_view [simp]:
  "own_heads (poison ow) = own_heads ow" "own_chain (poison ow) = own_chain ow" "own_free (poison ow) = own_free ow"
  "ow_next (poison ow) = ow_next ow" "ow_pending (poison ow) = ow_pending ow" "ow_broken (poison ow)"
  by (auto simp: own_heads_def own_chain_def own_free_def poison_def fun_eq_iff)

lemma poison_inv [simp]: "own_inv (poison ow) \<longleftrightarrow> own_inv ow"
  by (simp add: own_inv_def)

lemma complete_cases:
  assumes inv: "own_inv ow"
  shows "\<exists>r ow'. complete i count expected ow = Some (r, ow') \<and> own_inv ow' \<and>
    (case r of None \<Rightarrow> ow' = ow \<or> ow' = poison ow
     | Some h \<Rightarrow> given_back h ow ow' \<and> h = ucast i \<and> ow_pending ow ! unat h = count \<and> (expected = None \<or> expected = Some h) \<and> \<not> ow_broken ow)"
proof -
  define bad where "bad \<longleftrightarrow> length (ow_pending ow) \<le> unat i \<or> count = 0 \<or> ow_pending ow ! unat i \<noteq> count
    \<or> (case expected of None \<Rightarrow> False | Some head \<Rightarrow> i \<noteq> ucast head)"
  show ?thesis
  proof (cases "ow_broken ow \<or> bad")
    case True
    then have "complete i count expected ow = Some (None, ow) \<or> complete i count expected ow = Some (None, poison ow)"
      unfolding complete_def bad_def by auto
    then show ?thesis using inv by auto
  next
    case False
    let ?h = "ucast i :: u16" and ?nx = "ow_next ow"
    have lp: "length (ow_pending ow) = length ?nx" and l64: "length ?nx < 65536" using inv by (simp_all add: own_inv_def)
    have uh: "unat ?h = unat i" using False lp l64 by (simp add: bad_def unsigned_ucast_eq take_bit_nat_eq_self)
    have h: "?h \<in> own_heads ow" and pc: "ow_pending ow ! unat ?h = count" using False by (auto simp: bad_def own_heads_def uh)
    obtain m where m: "unat count = Suc m" using False by (metis bad_def not0_implies_Suc unat_eq_zero)
    define P where "P = own_chain ow ?h"
    define t where "t = last P"
    have P: "P = path ?nx ?h (Suc m)" unfolding P_def own_chain_def pc m ..
    have dP: "distinct P" "set P \<inter> set (own_free ow) = {}" using inv h unfolding P_def own_inv_def by auto
    have tP: "t \<in> set P" unfolding t_def P by (rule last_in_set) simp
    have small: "unat j < length ?nx" if "j \<in> set P" for j
      using own_inv_free_small(4) [OF inv h] that unfolding P_def .
    have tail: "tail_from ow (unat count - 1) ?h = Some t" using tail_from_path [of ow ?h m] small m P by (simp add: t_def)
    define ow' where "ow' = ow\<lparr>ow_next := ?nx[unat t := ow_free_head ow], ow_free_head := ?h,
      ow_pending := (ow_pending ow)[unat ?h := 0], ow_free := ow_free ow + count\<rparr>"
    have res: "complete i count expected ow = Some (Some ?h, ow')"
      using False tail small [OF tP] unfolding complete_def bad_def by (simp add: own_next_def Let_def ow'_def)
    have "unat (ow_free ow) + unat count < 65536" using own_inv_free_small(2) [OF inv h] pc l64 by simp
    then have uf: "unat (ow_free ow') = Suc m + unat (ow_free ow)" using m by (simp add: ow'_def unat_word_ariths)
    have upd: "path (?nx[unat t := ow_free_head ow]) ?h (Suc m) = P" using path_upd_last [of ?nx ?h m t] dP(1) unfolding P t_def by simp
    have rest: "path (?nx[unat t := ow_free_head ow]) (ow_free_head ow) (unat (ow_free ow)) = own_free ow"
      unfolding own_free_def using path_upd_other [of t ?nx "ow_free_head ow"] dP(2) tP by (auto simp: own_free_def)
    have "own_free ow' = path (ow_next ow') ?h (Suc m) @ path (ow_next ow') (ow_next ow' ! unat (last (path (ow_next ow') ?h (Suc m)))) (unat (ow_free ow))"
      unfolding own_free_def uf path_split by (simp add: ow'_def)
    also have "\<dots> = P @ own_free ow"
      using small [OF tP] by (simp add: ow'_def upd t_def [symmetric] rest del: path.simps)
    finally have f': "own_free ow' = P @ own_free ow" .
    have H: "own_heads ow' = own_heads ow - {?h}" using small [of ?h] h lp
      by (auto simp: own_heads_def ow'_def nth_list_update word_unat_eq_iff)
    have "own_chain ow' g = own_chain ow g" if g: "g \<in> own_heads ow" "g \<noteq> ?h" for g
    proof -
      have "ow_pending ow' ! unat g = ow_pending ow ! unat g" using g(2) by (simp add: ow'_def nth_list_update_neq word_unat_eq_iff)
      moreover have "t \<notin> set (own_chain ow g)" using inv g h tP unfolding own_inv_def P_def by blast
      ultimately show ?thesis unfolding own_chain_def using path_upd_other [of t ?nx g] by (simp add: ow'_def)
    qed
    then have "given_back ?h ow ow'" using h H f' unfolding given_back_def P_def by (simp add: ow'_def)
    moreover have "(ucast (ucast x :: u32) :: u16) = x" for x
      by (rule bit_word_eqI) (simp add: bit_ucast_iff)
    ultimately show ?thesis using res given_back_inv [OF inv] pc False by (auto simp: bad_def split: option.splits)
  qed
qed

section \<open>Submitting and reaping\<close>

text \<open>A chain as the device reads it: the \<open>NEXT\<close> flag says whether another descriptor follows.\<close>

fun ring_chain :: "Desc list \<Rightarrow> u16 \<Rightarrow> nat \<Rightarrow> QueueBuf list" where
  "ring_chain ds i 0 = []"
| "ring_chain ds i (Suc n) =
     (let d = ds ! unat i in
      (d_addr d, d_len d, d_flags d AND DESC_F_WRITE \<noteq> 0)
        # (if d_flags d AND DESC_F_NEXT \<noteq> 0 then ring_chain ds (d_next d) n else []))"

lemma desc_flags:
  "(if w then DESC_F_WRITE else 0) AND DESC_F_WRITE \<noteq> 0 \<longleftrightarrow> w"
  "(if w then DESC_F_WRITE else 0) AND DESC_F_NEXT = 0"
  "((if w then DESC_F_WRITE else 0) OR DESC_F_NEXT) AND DESC_F_WRITE \<noteq> 0 \<longleftrightarrow> w"
  "((if w then DESC_F_WRITE else 0) OR DESC_F_NEXT) AND DESC_F_NEXT \<noteq> 0"
  by (auto simp: DESC_F_WRITE_def DESC_F_NEXT_def)

lemma put_chain_correct:
  assumes "distinct (path (ow_next ow) i (length bufs))" and "\<forall>j\<in>set (path (ow_next ow) i (length bufs)). unat j < length ds \<and> unat j < length (ow_next ow)"
    and "bufs \<noteq> []" and "length bufs \<le> n"
  shows "\<exists>ds'. put_chain ow i bufs ds = Some ds' \<and> length ds' = length ds \<and> ring_chain ds' i n = bufs
    \<and> (\<forall>j. j \<notin> set (path (ow_next ow) i (length bufs)) \<longrightarrow> ds' ! unat j = ds ! unat j)"
  using assms
proof (induction bufs arbitrary: i ds n)
  case (Cons b bufs)
  obtain addr len w where b: "b = (addr, len, w)" by (cases b)
  have i: "unat i < length ds" "unat i < length (ow_next ow)" using Cons.prems(2) by simp_all
  obtain n' where n: "n = Suc n'" using Cons.prems(4) by (cases n) auto
  show ?case
  proof (cases "bufs = []")
    case True
    have "ds[unat i := x] ! unat j = ds ! unat j" if "j \<noteq> i" for j :: u16 and x using that by (simp add: word_unat_eq_iff)
    then show ?thesis using True i b n desc_flags(1,2) by (auto simp: Let_def)
  next
    case False
    let ?k = "ow_next ow ! unat i"
    let ?d = "\<lparr>d_addr = addr, d_len = len, d_flags = (if w then DESC_F_WRITE else 0) OR DESC_F_NEXT, d_next = ?k\<rparr>"
    let ?ds = "ds[unat i := ?d]"
    have ni: "i \<notin> set (path (ow_next ow) ?k (length bufs))" using Cons.prems(1) by simp
    obtain ds' where ds': "put_chain ow ?k bufs ?ds = Some ds'" "length ds' = length ?ds" "ring_chain ds' ?k n' = bufs"
      "\<forall>j. j \<notin> set (path (ow_next ow) ?k (length bufs)) \<longrightarrow> ds' ! unat j = ?ds ! unat j"
      using Cons.IH [of ?k ?ds n'] Cons.prems False n by auto
    have di: "ds' ! unat i = ?d" using ds'(4) ni i by simp
    have "put_chain ow i (b # bufs) ds = Some ds'" using False i b ds'(1) by (simp add: own_next_def Let_def)
    moreover have "ring_chain ds' i n = b # bufs" using di ds'(3) n b desc_flags(3,4) [of w] by (simp add: Let_def)
    moreover have "ds' ! unat j = ds ! unat j" if "j \<notin> set (path (ow_next ow) i (length (b # bufs)))" for j
    proof -
      have "unat j \<noteq> unat i" using that by (auto simp flip: word_unat_eq_iff)
      then show ?thesis using ds'(4) that by simp
    qed
    ultimately show ?thesis using ds'(2) by auto
  qed
qed simp

definition ring_ok :: "u16 \<Rightarrow> Ring \<Rightarrow> bool" where
  "ring_ok qsize rg \<longleftrightarrow> length (rg_desc rg) = unat qsize \<and> length (rg_avail_ring rg) = unat qsize \<and> length (rg_used_ring rg) = unat qsize"

definition vq_inv :: "Virtqueue \<Rightarrow> Ring \<Rightarrow> bool" where
  "vq_inv q rg \<longleftrightarrow> own_inv (vq_ownership q) \<and> length (ow_next (vq_ownership q)) = unat (vq_size q) \<and> ring_ok (vq_size q) rg"

lemma slot_less: "n \<noteq> 0 \<Longrightarrow> unat (a mod n :: u16) < unat n"
  by (simp add: unat_mod_distrib unat_gt_0)

lemma vq_size_pos: "vq_inv q rg \<Longrightarrow> vq_size q \<noteq> 0"
  by (auto simp: vq_inv_def own_inv_def)

lemma submit_cases:
  assumes inv: "vq_inv q rg"
  shows "\<exists>r q' rg'. submit bufs q rg = Some (r, q', rg') \<and> vq_inv q' rg' \<and>
    (case r of
       None \<Rightarrow> q' = q \<and> rg' = rg \<and> (is_broken q \<or> bufs = [] \<or> length (own_free (vq_ownership q)) < length bufs)
     | Some h \<Rightarrow> taken (length bufs) h (vq_ownership q) (vq_ownership q') \<and> bufs \<noteq> [] \<and> ring_chain (rg_desc rg') h (unat (vq_size q)) = bufs
         \<and> q' = q\<lparr>vq_ownership := vq_ownership q'\<rparr>
         \<and> rg' = rg\<lparr>rg_desc := rg_desc rg', rg_avail_ring := (rg_avail_ring rg)[unat (rg_avail_idx rg mod vq_size q) := h],
                    rg_avail_idx := rg_avail_idx rg + 1, rg_avail_flags := 0\<rparr>
         \<and> (\<forall>j. j \<notin> set (own_chain (vq_ownership q') h) \<longrightarrow> rg_desc rg' ! unat j = rg_desc rg ! unat j))"
proof -
  let ?ow = "vq_ownership q" and ?n = "length bufs"
  have ow: "own_inv ?ow" and l: "length (ow_next ?ow) = unat (vq_size q)" and rg: "ring_ok (vq_size q) rg" using inv by (simp_all add: vq_inv_def)
  obtain r ow' where r: "reserve ?n ?ow = Some (r, ow')" "own_inv ow'"
    "case r of None \<Rightarrow> ow' = ?ow \<and> (ow_broken ?ow \<or> ?n = 0 \<or> length (own_free ?ow) < ?n)
      | Some h \<Rightarrow> taken ?n h ?ow ow' \<and> 0 < ?n \<and> ?n \<le> length (own_free ?ow) \<and> \<not> ow_broken ?ow"
    using reserve_cases [OF ow, of ?n] by (elim exE conjE)
  show ?thesis
  proof (cases r)
    case None
    then show ?thesis using r inv by (auto simp: submit_def is_broken_def)
  next
    case (Some h)
    then have t: "taken ?n h ?ow ow'" and n: "0 < ?n" "?n \<le> length (own_free ?ow)" using r(3) by simp_all
    have h: "h \<in> own_heads ow'" and l': "length (ow_next ow') = unat (vq_size q)" using t l by (simp_all add: taken_def)
    have lc: "length (own_chain ow' h) = ?n" using t n by (simp add: taken_def)
    then have pn: "unat (ow_pending ow' ! unat h) = ?n" by (simp add: own_chain_def)
    have dc: "distinct (own_chain ow' h)" using r(2) h by (simp add: own_inv_def)
    have sm: "\<forall>j\<in>set (own_chain ow' h). unat j < length (rg_desc rg) \<and> unat j < length (ow_next ow')"
      using own_inv_free_small(4) [OF r(2) h] rg l' by (simp add: ring_ok_def)
    have nle: "?n \<le> unat (vq_size q)" using n(2) own_inv_free_small(1) [OF ow] l by (simp add: own_free_def)
    have cp: "own_chain ow' h = path (ow_next ow') h ?n" unfolding own_chain_def pn ..
    obtain ds where ds: "put_chain ow' h bufs (rg_desc rg) = Some ds" "length ds = length (rg_desc rg)" "ring_chain ds h (unat (vq_size q)) = bufs"
      "\<forall>j. j \<notin> set (own_chain ow' h) \<longrightarrow> ds ! unat j = rg_desc rg ! unat j"
      using put_chain_correct [of ow' h bufs "rg_desc rg" "unat (vq_size q)"] dc sm n(1) nle unfolding cp by auto
    have slot: "unat (rg_avail_idx rg mod vq_size q) < length (rg_avail_ring rg)" using slot_less [OF vq_size_pos [OF inv]] rg by (simp add: ring_ok_def)
    have sub: "submit bufs q rg = Some (Some h, q\<lparr>vq_ownership := ow'\<rparr>, rg\<lparr>rg_desc := ds,
        rg_avail_ring := (rg_avail_ring rg)[unat (rg_avail_idx rg mod vq_size q) := h], rg_avail_idx := rg_avail_idx rg + 1, rg_avail_flags := 0\<rparr>)"
      using r(1) Some ds(1) slot by (simp add: submit_def Let_def)
    show ?thesis unfolding sub using t n(1) ds r(2) l' rg by (auto simp: vq_inv_def ring_ok_def)
  qed
qed

lemma pop_cases:
  assumes inv: "vq_inv q rg"
  shows "\<exists>r q'. pop_used_checked n expected q rg = Some (r, q') \<and> vq_inv q' rg \<and> vq_size q' = vq_size q \<and>
    (case r of
       None \<Rightarrow> vq_ownership q' = vq_ownership q \<or> vq_ownership q' = poison (vq_ownership q)
     | Some (h, len) \<Rightarrow> given_back h (vq_ownership q) (vq_ownership q') \<and> ow_pending (vq_ownership q) ! unat h = n
         \<and> (expected = None \<or> expected = Some h) \<and> (ucast h, len) = rg_used_ring rg ! unat (vq_last_used q mod vq_size q)
         \<and> vq_last_used q' = vq_last_used q + 1)"
proof -
  let ?ow = "vq_ownership q"
  have slot: "unat (vq_last_used q mod vq_size q) < length (rg_used_ring rg)"
    using slot_less [OF vq_size_pos [OF inv]] inv by (simp add: vq_inv_def ring_ok_def)
  consider "ow_broken ?ow \<or> vq_size q < rg_used_idx rg - vq_last_used q \<or> vq_last_used q = rg_used_idx rg"
    | "\<not> ow_broken ?ow" "\<not> vq_size q < rg_used_idx rg - vq_last_used q" "vq_last_used q \<noteq> rg_used_idx rg" by blast
  then show ?thesis
  proof cases
    case 1
    have "vq_inv (q\<lparr>vq_ownership := poison ?ow\<rparr>) rg" using inv by (simp add: vq_inv_def)
    then show ?thesis using 1 inv unfolding pop_used_checked_def by auto
  next
    case 2
    obtain i len where u: "rg_used_ring rg ! unat (vq_last_used q mod vq_size q) = (i, len)" by force
    have ow: "own_inv ?ow" using inv by (simp add: vq_inv_def)
    obtain r ow' where c: "complete i n expected ?ow = Some (r, ow')" "own_inv ow'"
      "case r of None \<Rightarrow> ow' = ?ow \<or> ow' = poison ?ow
        | Some h \<Rightarrow> given_back h ?ow ow' \<and> h = ucast i \<and> ow_pending ?ow ! unat h = n \<and> (expected = None \<or> expected = Some h) \<and> \<not> ow_broken ?ow"
      using complete_cases [OF ow, of i n expected] by (elim exE conjE)
    have pop: "pop_used_checked n expected q rg = Some (map_option (\<lambda>h. (h, len)) r, q\<lparr>vq_last_used := vq_last_used q + 1, vq_ownership := ow'\<rparr>)"
      using 2 slot u c(1) by (simp add: pop_used_checked_def)
    show ?thesis
    proof (cases r)
      case None
      then show ?thesis unfolding pop using c inv by (auto simp: vq_inv_def)
    next
      case (Some h)
      have g: "given_back h ?ow ow'" "h = ucast i" "ow_pending ?ow ! unat h = n" "expected = None \<or> expected = Some h"
        using c(3) unfolding Some option.case by blast+
      have "unat h < 65536 \<and> unat i < length (ow_pending ?ow)"
        using c(1) Some unat_lt_u16 [of h] by (auto simp: complete_def split: if_splits bind_splits)
      then have "(ucast h :: u32) = i"
        using ow g(2) by (simp add: own_inv_def word_unat_eq_iff unsigned_ucast_eq take_bit_nat_eq_self)
      moreover have "vq_inv (q\<lparr>vq_last_used := vq_last_used q + 1, vq_ownership := ow'\<rparr>) rg"
        using c(2) g(1) inv by (simp add: vq_inv_def given_back_def)
      ultimately show ?thesis unfolding pop Some option.map option.case prod.case using g u
        by (intro exI conjI) (rule refl | simp)+
    qed
  qed
qed

section \<open>Reachable queues\<close>

text \<open>The driver submits and reaps; the device writes anything into the ring memory in between.\<close>

inductive vq_reach :: "Virtqueue \<Rightarrow> Ring \<Rightarrow> bool" where
  reach_new: "virtqueue_new qsize fa = Some ((q, rg), fa') \<Longrightarrow> vq_reach q rg"
| reach_submit: "vq_reach q rg \<Longrightarrow> submit bufs q rg = Some (r, q', rg') \<Longrightarrow> vq_reach q' rg'"
| reach_pop: "vq_reach q rg \<Longrightarrow> pop_used_checked n expected q rg = Some (r, q') \<Longrightarrow> vq_reach q' rg"
| reach_device: "vq_reach q rg \<Longrightarrow> ring_ok (vq_size q) rg' \<Longrightarrow> vq_reach q rg'"

lemma virtqueue_new_inv:
  assumes "virtqueue_new qsize fa = Some ((q, rg), fa')"
  shows "vq_inv q rg" "own_heads (vq_ownership q) = {}" "vq_size q = qsize" "rg = ring_zeroed qsize" "vq_last_used q = 0"
    "ownership_new qsize = Some (vq_ownership q)"
proof -
  obtain ow where a: "ownership_new qsize = Some ow" "vq_size q = qsize" "vq_ownership q = ow" "vq_last_used q = 0" "rg = ring_zeroed qsize"
    using assms by (auto simp: virtqueue_new_def split: bind_splits)
  show "vq_inv q rg" "own_heads (vq_ownership q) = {}" "vq_size q = qsize" "rg = ring_zeroed qsize" "vq_last_used q = 0"
    "ownership_new qsize = Some (vq_ownership q)"
    using ownership_new_inv [OF a(1)] a by (simp_all add: vq_inv_def ring_ok_def ring_zeroed_def)
qed

lemma vq_reach_inv: "vq_reach q rg \<Longrightarrow> vq_inv q rg"
proof (induction rule: vq_reach.induct)
  case (reach_new qsize fa q rg fa')
  then show ?case by (rule virtqueue_new_inv)
next
  case (reach_submit q rg bufs r q' rg')
  then show ?case using submit_cases [OF reach_submit.IH, of bufs] by auto
next
  case (reach_pop q rg n expected r q')
  then show ?case using pop_cases [OF reach_pop.IH, of n expected] by auto
next
  case (reach_device q rg rg')
  then show ?case by (simp add: vq_inv_def)
qed

lemma submit_view:
  assumes inv: "vq_inv q rg"
  shows "\<exists>r q' rg'. submit bufs q rg = Some (r, q', rg') \<and> (case r of None \<Rightarrow> q' = q \<and> rg' = rg
      | Some h \<Rightarrow> own_chain (vq_ownership q') h = take (length bufs) (own_free (vq_ownership q)) \<and> h \<notin> own_heads (vq_ownership q)
          \<and> ring_chain (rg_desc rg') h (unat (vq_size q)) = bufs
          \<and> rg_avail_ring rg' ! unat (rg_avail_idx rg mod vq_size q) = h \<and> rg_avail_idx rg' = rg_avail_idx rg + 1)"
proof -
  have slot: "unat (rg_avail_idx rg mod vq_size q) < length (rg_avail_ring rg)"
    using slot_less [OF vq_size_pos [OF inv]] inv by (simp add: vq_inv_def ring_ok_def)
  obtain r q' rg' where s: "submit bufs q rg = Some (r, q', rg')" and c: "case r of
       None \<Rightarrow> q' = q \<and> rg' = rg \<and> (is_broken q \<or> bufs = [] \<or> length (own_free (vq_ownership q)) < length bufs)
     | Some h \<Rightarrow> taken (length bufs) h (vq_ownership q) (vq_ownership q') \<and> bufs \<noteq> [] \<and> ring_chain (rg_desc rg') h (unat (vq_size q)) = bufs
         \<and> q' = q\<lparr>vq_ownership := vq_ownership q'\<rparr>
         \<and> rg' = rg\<lparr>rg_desc := rg_desc rg', rg_avail_ring := (rg_avail_ring rg)[unat (rg_avail_idx rg mod vq_size q) := h],
                    rg_avail_idx := rg_avail_idx rg + 1, rg_avail_flags := 0\<rparr>
         \<and> (\<forall>j. j \<notin> set (own_chain (vq_ownership q') h) \<longrightarrow> rg_desc rg' ! unat j = rg_desc rg ! unat j)"
    using submit_cases [OF inv, of bufs] by (elim exE conjE)
  show ?thesis
  proof (cases r)
    case (Some h)
    then have rg': "rg' = rg\<lparr>rg_desc := rg_desc rg', rg_avail_ring := (rg_avail_ring rg)[unat (rg_avail_idx rg mod vq_size q) := h],
        rg_avail_idx := rg_avail_idx rg + 1, rg_avail_flags := 0\<rparr>" using c by simp
    have "rg_avail_ring rg' ! unat (rg_avail_idx rg mod vq_size q) = h" "rg_avail_idx rg' = rg_avail_idx rg + 1"
      by (subst rg', use slot in simp)+
    then show ?thesis using c Some s by (simp add: taken_def)
  qed (use c s in simp)
qed

lemma pop_view:
  assumes inv: "vq_inv q rg"
  shows "\<exists>r q'. pop_used_checked n expected q rg = Some (r, q') \<and> (case r of None \<Rightarrow> own_free (vq_ownership q') = own_free (vq_ownership q)
      | Some (h, len) \<Rightarrow> h \<in> own_heads (vq_ownership q) \<and> length (own_chain (vq_ownership q) h) = unat n \<and> h \<notin> own_heads (vq_ownership q')
          \<and> own_free (vq_ownership q') = own_chain (vq_ownership q) h @ own_free (vq_ownership q))"
proof -
  obtain r q' where p: "pop_used_checked n expected q rg = Some (r, q')" and c: "case r of
       None \<Rightarrow> vq_ownership q' = vq_ownership q \<or> vq_ownership q' = poison (vq_ownership q)
     | Some (h, len) \<Rightarrow> given_back h (vq_ownership q) (vq_ownership q') \<and> ow_pending (vq_ownership q) ! unat h = n
         \<and> (expected = None \<or> expected = Some h) \<and> (ucast h, len) = rg_used_ring rg ! unat (vq_last_used q mod vq_size q)
         \<and> vq_last_used q' = vq_last_used q + 1"
    using pop_cases [OF inv, of n expected] by (elim exE conjE)
  have l: "length (own_chain (vq_ownership q) h) = unat n" if "ow_pending (vq_ownership q) ! unat h = n" for h
    using that by (simp add: own_chain_def)
  show ?thesis
  proof (cases r)
    case None
    then show ?thesis using p c by (intro exI [of _ r] exI [of _ q']) auto
  next
    case (Some x)
    obtain h len where x: "x = (h, len)" by force
    then have "given_back h (vq_ownership q) (vq_ownership q')" "ow_pending (vq_ownership q) ! unat h = n" using c Some by simp_all
    then show ?thesis using p Some x l by (intro exI [of _ r] exI [of _ q']) (simp add: given_back_def)
  qed
qed

text \<open>
  C28. Whatever the device writes into the ring memory, the free descriptors and the chains in flight
  partition the descriptor table, and neither submitting nor reaping panics or leaves the ring memory.
  A new chain takes free descriptors only, and the device finds exactly the submitted buffers behind
  its head. A completion is accepted only for a chain in flight of the announced length, and gives its
  descriptors back once.
\<close>

theorem queue_never_shares_descriptors:
  assumes "vq_reach q rg"
  shows "own_inv (vq_ownership q)
    \<and> (\<exists>r q' rg'. submit bufs q rg = Some (r, q', rg') \<and> (case r of None \<Rightarrow> q' = q \<and> rg' = rg
      | Some h \<Rightarrow> own_chain (vq_ownership q') h = take (length bufs) (own_free (vq_ownership q)) \<and> h \<notin> own_heads (vq_ownership q)
          \<and> ring_chain (rg_desc rg') h (unat (vq_size q)) = bufs
          \<and> rg_avail_ring rg' ! unat (rg_avail_idx rg mod vq_size q) = h \<and> rg_avail_idx rg' = rg_avail_idx rg + 1))
    \<and> (\<exists>r q'. pop_used_checked n expected q rg = Some (r, q') \<and> (case r of None \<Rightarrow> own_free (vq_ownership q') = own_free (vq_ownership q)
      | Some (h, len) \<Rightarrow> h \<in> own_heads (vq_ownership q) \<and> length (own_chain (vq_ownership q) h) = unat n \<and> h \<notin> own_heads (vq_ownership q')
          \<and> own_free (vq_ownership q') = own_chain (vq_ownership q) h @ own_free (vq_ownership q)))"
  using submit_view pop_view vq_reach_inv [OF assms] unfolding vq_inv_def by (intro conjI) simp_all

lemma submit_room:
  assumes "vq_inv q rg" and "\<not> is_broken q" "bufs \<noteq> []" "length bufs \<le> length (own_free (vq_ownership q))"
  shows "\<exists>h q' rg'. submit bufs q rg = Some (Some h, q', rg')"
proof -
  obtain r q' rg' where s: "submit bufs q rg = Some (r, q', rg')"
      "r = None \<longrightarrow> is_broken q \<or> bufs = [] \<or> length (own_free (vq_ownership q)) < length bufs"
    using submit_cases [OF assms(1), of bufs] by (auto split: option.splits)
  then have "r \<noteq> None" using assms by auto
  then show ?thesis using s(1) by blast
qed

lemma demo_queue:
  "\<exists>q rg fa'. virtqueue_new 4 demo_fa = Some ((q, rg), fa') \<and> vq_size q = 4"
proof -
  have p: "vq_pages 4 = 2" by (simp add: vq_pages_def vq_used_at_def vq_desc_bytes_def vq_avail_bytes_def vq_used_bytes_def)
  have "find_run demo_fa 2 0 0 [0..<fa_total demo_fa] = Some 0" by code_simp
  then obtain fa' where a: "allocate_zeroed_contiguous 2 demo_fa = (Some 0, fa')" unfolding allocate_zeroed_contiguous_def by (auto simp: Let_def)
  obtain ow where "ownership_new 4 = Some ow" by (auto simp: ownership_new_def)
  then show ?thesis unfolding virtqueue_new_def dma_alloc_def p a by simp
qed

theorem queue_never_shares_descriptors_witness:
  "\<exists>q rg q' rg' h. vq_reach q rg \<and> submit [(0x1000, 16, False), (0x2000, 512, True)] q rg = Some (Some h, q', rg')
     \<and> ring_chain (rg_desc rg') h 4 = [(0x1000, 16, False), (0x2000, 512, True)]"
proof -
  obtain q rg fa' where n: "virtqueue_new 4 demo_fa = Some ((q, rg), fa')" "vq_size q = 4" using demo_queue by blast
  have r: "vq_reach q rg" by (rule reach_new [OF n(1)])
  let ?b = "[(0x1000, 16, False), (0x2000, 512, True)] :: QueueBuf list"
  have i: "vq_inv q rg" and o: "ownership_new 4 = Some (vq_ownership q)" using virtqueue_new_inv [OF n(1)] by simp_all
  have f: "length (own_free (vq_ownership q)) = 4" "\<not> is_broken q" using ownership_new_inv(4,5) [OF o] by (simp_all add: is_broken_def)
  obtain h q' rg' where s: "submit ?b q rg = Some (Some h, q', rg')" using submit_room [OF i f(2), of ?b] f(1) by auto
  have "ring_chain (rg_desc rg') h 4 = ?b"
    using queue_never_shares_descriptors [OF r, of ?b 0 None] s n(2) by simp
  then show ?thesis using r s by blast
qed

lemma round_up: "n \<le> (n + 4095) div 4096 * (4096 :: nat)" "(n + 4095) div 4096 * 4096 < n + (4096 :: nat)"
  using dividend_less_div_times [of 4096 "n + 4095"] div_times_less_eq_dividend [of "n + 4095" 4096] by simp_all

text \<open>
  C29. The three parts of a virtqueue lie one after the other inside the pages allocated for it: the
  descriptor table, the available ring behind it, and the used ring on the next page boundary. The
  addresses handed to the device are these, without overflow, and the pages were free before and are
  zeroed.
\<close>

theorem virtqueue_layout:
  assumes "fa_inv fa" and "fa_total fa \<le> MAX_PHYSICAL_MEMORY div FRAME_SIZE"
    and "virtqueue_new qsize fa = Some ((q, rg), fa')"
  shows "\<exists>s. takes {s..<s + vq_pages qsize} fa fa' \<and> (\<forall>i\<in>{s..<s + vq_pages qsize}. frame_zero (fa_ram fa') i)
    \<and> (case ring_addrs q of (d, a, u) \<Rightarrow>
        unat d = s * 4096 \<and> unat d + 16 * unat qsize \<le> unat a \<and> unat a + (6 + 2 * unat qsize) \<le> unat u
      \<and> unat u mod 4096 = 0 \<and> unat u + (6 + 8 * unat qsize) \<le> (s + vq_pages qsize) * 4096)"
proof -
  let ?n = "unat qsize" and ?u = "vq_used_at qsize" and ?p = "vq_pages qsize"
  obtain phys where al: "allocate_zeroed_contiguous ?p fa = (Some phys, fa')"
    and q: "vq_ring_phys q = of_nat phys" "vq_avail_offset q = of_nat (16 * ?n)" "vq_used_offset q = of_nat ?u"
    using assms(3) by (auto simp: virtqueue_new_def dma_alloc_def vq_desc_bytes_def mult.commute split: bind_splits prod.splits option.splits)
  obtain s where s: "phys = s * FRAME_SIZE" "free_run fa ?p s" "takes {s..<s + ?p} fa fa'"
    using contiguous_Some [OF assms(1) al] by blast
  have n: "?n < 65536" by (rule unat_lt_u16)
  have u: "16 * ?n + (6 + 2 * ?n) \<le> ?u" "?u < 16 * ?n + (6 + 2 * ?n) + 4096" "?u mod 4096 = 0"
    using round_up [of "16 * ?n + (6 + 2 * ?n)"] by (simp_all add: vq_used_at_def vq_desc_bytes_def vq_avail_bytes_def mult.commute)
  have pg: "?u + (6 + 8 * ?n) \<le> ?p * 4096" using round_up(1) [of "?u + (6 + 8 * ?n)"] by (simp add: vq_pages_def vq_used_bytes_def)
  have "0 < ?p" using pg by (cases "?p") auto
  then have "s + ?p \<le> fa_total fa" using s(2) by (auto simp: free_run_def)
  then have "(s + ?p) * 4096 \<le> 34359738368" using assms(2) by (simp add: MAX_PHYSICAL_MEMORY_def FRAME_SIZE_def)
  then have b: "s * 4096 + ?p * 4096 \<le> 34359738368" by (simp add: distrib_right)
  have w: "unat (of_nat k :: u64) = k" if "k \<le> 34359738368" for k using that by (intro unat_of_nat_small) simp
  have d: "unat (vq_ring_phys q) = s * 4096" using q(1) s(1) w [of phys] b by (simp add: FRAME_SIZE_def)
  have a: "unat (vq_ring_phys q + vq_avail_offset q) = s * 4096 + 16 * ?n"
    using w [of "s * 4096 + 16 * ?n"] b pg u(1) q(1,2) s(1) by (simp add: FRAME_SIZE_def)
  have e: "unat (vq_ring_phys q + vq_used_offset q) = s * 4096 + ?u"
    using w [of "s * 4096 + ?u"] b pg q(1,3) s(1) by (simp add: FRAME_SIZE_def)
  have "\<forall>i\<in>{s..<s + ?p}. frame_zero (fa_ram fa') i" using s(3) by (auto simp: takes_def)
  then show ?thesis using s(3) d a e u pg by (intro exI [of _ s]) (simp add: ring_addrs_def distrib_right)
qed

theorem virtqueue_layout_witness:
  "\<exists>q rg fa' s. virtqueue_new 4 demo_fa = Some ((q, rg), fa') \<and> takes {s..<s + vq_pages 4} demo_fa fa'"
proof -
  obtain q rg fa' where n: "virtqueue_new 4 demo_fa = Some ((q, rg), fa')" using demo_queue by blast
  have "fa_total demo_fa \<le> MAX_PHYSICAL_MEMORY div FRAME_SIZE" by (simp add: demo_fa_def MAX_PHYSICAL_MEMORY_def FRAME_SIZE_def)
  from virtqueue_layout [OF demo_fa_inv this n] n show ?thesis by blast
qed

end
