(* ===== verification/Virtio_Blk.thy ===== *)
theory Virtio_Blk
  imports Virtqueue Block_Device
begin

text \<open>
  The virtio block driver (\<open>src/virtio/blk.rs\<close>) over the virtqueue: one request at a time, made of a
  header, the data and a status byte in two DMA pages shared with the device, then a bounded poll of
  the used ring.

  The device is a parameter: a function that may change its own state and the shared memory whenever
  the driver notifies it or waits a millisecond. What the driver relies on is \<open>device_spec\<close>: the device
  touches nothing without a request, and for a request it works on the request's sector and buffer
  only, until it puts the request's head into the used ring. It may take any time, report any status,
  or never answer. Under this specification the driver refines the contract of \<open>Block_Device\<close> that the
  file systems are verified against.
\<close>

section \<open>State\<close>

definition REQ_TYPE_READ :: u32 where "REQ_TYPE_READ = 0"
definition REQ_TYPE_WRITE :: u32 where "REQ_TYPE_WRITE = 1"
definition MAX_SECTORS_PER_REQ :: nat where "MAX_SECTORS_PER_REQ = 8"

text \<open>The request page: header and status byte.\<close>

record BlkReq =
  rq_type :: u32
  rq_reserved :: u32
  rq_sector :: u64
  rq_status :: u8

record blk_mem =
  bm_ring :: Ring
  bm_req :: BlkReq
  bm_data :: bytes

text \<open>The driver's \<open>BlkDevice\<close>, the shared memory and the device's own state.\<close>

record 'd Blk =
  bk_queue :: Virtqueue
  bk_req_phys :: u64
  bk_data_phys :: u64
  bk_capacity :: u64
  bk_failed :: bool
  bk_mem :: blk_mem
  bk_hw :: 'd

type_synonym 'd device = "'d \<Rightarrow> blk_mem \<Rightarrow> 'd \<times> blk_mem"

definition dev_step :: "'d device \<Rightarrow> 'd Blk \<Rightarrow> 'd Blk" where
  "dev_step dev b = (let (h, m) = dev (bk_hw b) (bk_mem b) in b\<lparr>bk_hw := h, bk_mem := m\<rparr>)"

section \<open>Operations\<close>

definition blk_available :: "'d Blk option \<Rightarrow> bool" where
  "blk_available blk = (case blk of None \<Rightarrow> False | Some b \<Rightarrow> \<not> bk_failed b)"

definition capacity_sectors :: "'d Blk option \<Rightarrow> u64" where
  "capacity_sectors blk = (case blk of None \<Rightarrow> 0 | Some b \<Rightarrow> bk_capacity b)"

definition config_read64 :: "(u16 \<Rightarrow> u32) \<Rightarrow> u16 \<Rightarrow> u64" where
  "config_read64 config_read32 offset =
     push_bit 32 (ucast (config_read32 (offset + 4))) OR ucast (config_read32 offset)"

text \<open>A missing queue leaves the driver without a device.\<close>

definition blk_init :: "u16 \<Rightarrow> (u16 \<Rightarrow> u32) \<Rightarrow> 'd \<Rightarrow> FrameAllocator \<Rightarrow> ('d Blk option \<times> FrameAllocator) option" where
  "blk_init queue_max config_read32 hw fa =
     (if queue_max = 0 then Some (None, fa)
      else do {
        ((q, rg), fa) \<leftarrow> virtqueue_new queue_max fa;
        (req, fa) \<leftarrow> dma_alloc 1 fa;
        (data, fa) \<leftarrow> dma_alloc 1 fa;
        Some (Some \<lparr>bk_queue = q, bk_req_phys = of_nat (dma_phys req), bk_data_phys = of_nat (dma_phys data),
          bk_capacity = config_read64 config_read32 0, bk_failed = False,
          bk_mem = \<lparr>bm_ring = rg, bm_req = \<lparr>rq_type = 0, rq_reserved = 0, rq_sector = 0, rq_status = 0\<rparr>, bm_data = replicate 4096 0\<rparr>,
          bk_hw = hw\<rparr>, fa)
      })"

text \<open>The poll, with its remaining rounds; the device works while the driver waits.\<close>

fun wait_used :: "'d device \<Rightarrow> u16 \<Rightarrow> nat \<Rightarrow> 'd Blk \<Rightarrow> ((u16 \<times> u32) option \<times> 'd Blk) option" where
  "wait_used dev chain_len 0 b = do {
     (r, q) \<leftarrow> pop_used chain_len (bk_queue b) (bm_ring (bk_mem b));
     Some (r, b\<lparr>bk_queue := q\<rparr>)
   }"
| "wait_used dev chain_len (Suc t) b =
     (if is_broken (bk_queue b) then Some (None, b)
      else do {
        (r, q) \<leftarrow> pop_used chain_len (bk_queue b) (bm_ring (bk_mem b));
        let b = b\<lparr>bk_queue := q\<rparr>;
        case r of Some u \<Rightarrow> Some (Some u, b) | None \<Rightarrow> wait_used dev chain_len t (dev_step dev b)
      })"

definition blk_chain :: "'d Blk \<Rightarrow> bool \<Rightarrow> nat \<Rightarrow> QueueBuf list" where
  "blk_chain b wr len =
     [(bk_req_phys b, 16, False), (bk_data_phys b, of_nat len, \<not> wr), (bk_req_phys b + 16, 1, True)]"

text \<open>The header, the preset status and the data to write go into the shared pages.\<close>

definition blk_prepare :: "bool \<Rightarrow> u64 \<Rightarrow> bytes \<Rightarrow> blk_mem \<Rightarrow> blk_mem" where
  "blk_prepare wr sector buf m =
     m\<lparr>bm_req := \<lparr>rq_type = (if wr then REQ_TYPE_WRITE else REQ_TYPE_READ), rq_reserved = 0, rq_sector = sector, rq_status = 0xff\<rparr>,
       bm_data := (if wr then put_at 0 buf (bm_data m) else bm_data m)\<rparr>"

definition blk_finish :: "bool \<Rightarrow> bytes \<Rightarrow> u16 \<Rightarrow> (u16 \<times> u32) option \<Rightarrow> 'd Blk \<Rightarrow> (bool \<times> bytes) \<times> 'd Blk" where
  "blk_finish wr buf head u b = (case u of
     None \<Rightarrow> ((False, buf), b\<lparr>bk_failed := True\<rparr>)
   | Some (used_head, _) \<Rightarrow>
       if used_head \<noteq> head then ((False, buf), b\<lparr>bk_failed := True\<rparr>)
       else if rq_status (bm_req (bk_mem b)) \<noteq> 0 then ((False, buf), b)
       else ((True, if wr then buf else take (length buf) (bm_data (bk_mem b))), b))"

definition do_request :: "'d device \<Rightarrow> bool \<Rightarrow> u64 \<Rightarrow> bytes \<Rightarrow> 'd Blk \<Rightarrow> ((bool \<times> bytes) \<times> 'd Blk) option" where
  "do_request dev wr sector buf b =
     (if bk_failed b then Some ((False, buf), b)
      else let sectors = length buf div SECTOR in
        if \<not> (1 \<le> sectors \<and> sectors \<le> MAX_SECTORS_PER_REQ \<and> length buf mod SECTOR = 0) then None
        else if bk_capacity b < sector + of_nat sectors then Some ((False, buf), b)
        else do {
          let m = blk_prepare wr sector buf (bk_mem b);
          (r, q, rg) \<leftarrow> submit (blk_chain b wr (length buf)) (bk_queue b) (bm_ring m);
          let b = b\<lparr>bk_queue := q, bk_mem := m\<lparr>bm_ring := rg\<rparr>\<rparr>;
          case r of
            None \<Rightarrow> Some ((False, buf), b)
          | Some head \<Rightarrow> do {
              (u, b) \<leftarrow> wait_used dev 3 1000 (dev_step dev b);
              Some (blk_finish wr buf head u b)
            }
        })"

definition read_sectors :: "'d device \<Rightarrow> u64 \<Rightarrow> bytes \<Rightarrow> 'd Blk option \<Rightarrow> ((bool \<times> bytes) \<times> 'd Blk option) option" where
  "read_sectors dev sector buf blk = (case blk of
     None \<Rightarrow> Some ((False, buf), None)
   | Some b \<Rightarrow> map_option (\<lambda>(r, b'). (r, Some b')) (do_request dev False sector buf b))"

definition write_sectors :: "'d device \<Rightarrow> u64 \<Rightarrow> bytes \<Rightarrow> 'd Blk option \<Rightarrow> ((bool \<times> bytes) \<times> 'd Blk option) option" where
  "write_sectors dev sector buf blk = (case blk of
     None \<Rightarrow> Some ((False, buf), None)
   | Some b \<Rightarrow> map_option (\<lambda>(r, b'). (r, Some b')) (do_request dev True sector buf b))"

text \<open>The boot-time test of the last sector; the result says what is reported.\<close>

datatype self_test_report = Skipped | ReadFailed | WriteFailed | Passed | Mismatch

definition self_test_sector :: "bytes \<Rightarrow> bytes" where
  "self_test_sector sig = put_at 64 (map of_nat [0..<64]) (put_at 0 sig (replicate SECTOR 0))"

definition blk_self_test :: "'d device \<Rightarrow> bytes \<Rightarrow> 'd Blk option \<Rightarrow> (self_test_report \<times> 'd Blk option) option" where
  "blk_self_test dev sig blk =
     (if \<not> blk_available blk then Some (Skipped, blk)
      else do {
        let last = capacity_sectors blk - 1;
        ((ok, original), blk) \<leftarrow> read_sectors dev last (replicate SECTOR 0) blk;
        if \<not> ok then Some (ReadFailed, blk)
        else do {
          let wbuf = self_test_sector sig;
          ((ok, _), blk) \<leftarrow> write_sectors dev last wbuf blk;
          if \<not> ok then Some (WriteFailed, blk)
          else do {
            ((ok, rbuf), blk) \<leftarrow> read_sectors dev last (replicate SECTOR 0) blk;
            if \<not> ok then Some (ReadFailed, blk)
            else do {
              ((restored, _), blk) \<leftarrow> write_sectors dev last original blk;
              Some (if rbuf = wbuf \<and> restored then Passed else Mismatch, blk)
            }
          }
        }
      })"

section \<open>What the driver relies on\<close>

text \<open>
  \<open>seen\<close> is the device's position in the available ring and \<open>cont\<close> its sectors. While it works on a
  request the device changes nothing but the status byte, the buffer of a read, and the sector of a
  write.
\<close>

definition device_works :: "('d \<Rightarrow> u64 \<Rightarrow> bytes) \<Rightarrow> 'd \<Rightarrow> blk_mem \<Rightarrow> 'd \<Rightarrow> blk_mem \<Rightarrow> bool" where
  "device_works cont h m h' m' \<longleftrightarrow>
     bm_req m' = (bm_req m)\<lparr>rq_status := rq_status (bm_req m')\<rparr> \<and> length (bm_data m') = length (bm_data m)
     \<and> (if rq_type (bm_req m) = REQ_TYPE_READ then cont h' = cont h
        else bm_data m' = bm_data m \<and> (\<forall>l. l \<noteq> rq_sector (bm_req m) \<longrightarrow> cont h' l = cont h l))"

text \<open>A finished request: the head in the used ring, and with status zero the sector transferred.\<close>

definition device_finishes :: "('d \<Rightarrow> u64 \<Rightarrow> bytes) \<Rightarrow> u16 \<Rightarrow> u16 \<Rightarrow> 'd \<Rightarrow> blk_mem \<Rightarrow> 'd \<Rightarrow> blk_mem \<Rightarrow> bool" where
  "device_finishes cont qsize head h m h' m' \<longleftrightarrow>
     (\<exists>len. bm_ring m' = (bm_ring m)\<lparr>rg_used_ring := (rg_used_ring (bm_ring m))[unat (rg_used_idx (bm_ring m) mod qsize) := (ucast head, len)],
                                   rg_used_idx := rg_used_idx (bm_ring m) + 1\<rparr>)
     \<and> (rq_status (bm_req m') = 0 \<longrightarrow>
         (if rq_type (bm_req m) = REQ_TYPE_READ then take SECTOR (bm_data m') = cont h (rq_sector (bm_req m))
            else cont h' (rq_sector (bm_req m)) = take SECTOR (bm_data m)))"

definition device_spec :: "'d device \<Rightarrow> ('d \<Rightarrow> u16) \<Rightarrow> ('d \<Rightarrow> u64 \<Rightarrow> bytes) \<Rightarrow> u16 \<Rightarrow> u64 \<Rightarrow> u64 \<Rightarrow> bool" where
  "device_spec dev seen cont qsize req_phys data_phys \<longleftrightarrow>
     (\<forall>h l. length (cont h l) = SECTOR)
     \<and> (\<forall>h m h' m'. dev h m = (h', m') \<longrightarrow> rg_avail_idx (bm_ring m) = seen h \<longrightarrow> m' = m \<and> seen h' = seen h \<and> cont h' = cont h)
     \<and> (\<forall>h m h' m' head. dev h m = (h', m') \<longrightarrow> ring_ok qsize (bm_ring m) \<longrightarrow> rg_avail_idx (bm_ring m) = seen h + 1 \<longrightarrow>
          rg_avail_ring (bm_ring m) ! unat (seen h mod qsize) = head \<longrightarrow>
          ring_chain (rg_desc (bm_ring m)) head (unat qsize) =
            [(req_phys, 16, False), (data_phys, of_nat SECTOR, rq_type (bm_req m) = REQ_TYPE_READ), (req_phys + 16, 1, True)] \<longrightarrow>
          device_works cont h m h' m' \<and>
          (bm_ring m' = bm_ring m \<and> seen h' = seen h \<or> seen h' = seen h + 1 \<and> device_finishes cont qsize head h m h' m'))"

section \<open>One request\<close>

definition blk_shape :: "'d Blk \<Rightarrow> bool" where
  "blk_shape b \<longleftrightarrow> vq_inv (bk_queue b) (bm_ring (bk_mem b)) \<and> length (bm_data (bk_mem b)) = 4096"

text \<open>No request in flight.\<close>

definition blk_idle :: "('d \<Rightarrow> u16) \<Rightarrow> 'd Blk \<Rightarrow> bool" where
  "blk_idle seen b \<longleftrightarrow> blk_shape b \<and> own_heads (vq_ownership (bk_queue b)) = {} \<and> \<not> is_broken (bk_queue b)
     \<and> vq_last_used (bk_queue b) = rg_used_idx (bm_ring (bk_mem b)) \<and> seen (bk_hw b) = rg_avail_idx (bm_ring (bk_mem b))"

definition blk_inv :: "('d \<Rightarrow> u16) \<Rightarrow> 'd Blk \<Rightarrow> bool" where
  "blk_inv seen b \<longleftrightarrow> bk_failed b \<or> blk_idle seen b"

text \<open>The part of the state that a request leaves alone.\<close>

definition same_driver :: "'d Blk \<Rightarrow> 'd Blk \<Rightarrow> bool" where
  "same_driver b b' \<longleftrightarrow> bk_req_phys b' = bk_req_phys b \<and> bk_data_phys b' = bk_data_phys b \<and> bk_capacity b' = bk_capacity b
     \<and> vq_size (bk_queue b') = vq_size (bk_queue b)"

text \<open>The request with header \<open>head\<close> is with the device; \<open>h0\<close> is the device when it was sent.\<close>

definition sent :: "('d \<Rightarrow> u64 \<Rightarrow> bytes) \<Rightarrow> 'd \<Rightarrow> u16 \<Rightarrow> bool \<Rightarrow> u64 \<Rightarrow> bytes \<Rightarrow> 'd Blk \<Rightarrow> bool" where
  "sent cont h0 head wr sector buf b \<longleftrightarrow> blk_shape b \<and> own_heads (vq_ownership (bk_queue b)) = {head}
     \<and> ow_pending (vq_ownership (bk_queue b)) ! unat head = 3 \<and> \<not> is_broken (bk_queue b) \<and> \<not> bk_failed b
     \<and> (if wr then \<forall>l. l \<noteq> sector \<longrightarrow> cont (bk_hw b) l = cont h0 l else cont (bk_hw b) = cont h0)"

definition working :: "('d \<Rightarrow> u16) \<Rightarrow> bool \<Rightarrow> u64 \<Rightarrow> bytes \<Rightarrow> u16 \<Rightarrow> 'd Blk \<Rightarrow> bool" where
  "working seen wr sector buf head b \<longleftrightarrow> vq_last_used (bk_queue b) = rg_used_idx (bm_ring (bk_mem b))
     \<and> rg_avail_idx (bm_ring (bk_mem b)) = seen (bk_hw b) + 1
     \<and> rg_avail_ring (bm_ring (bk_mem b)) ! unat (seen (bk_hw b) mod vq_size (bk_queue b)) = head
     \<and> ring_chain (rg_desc (bm_ring (bk_mem b))) head (unat (vq_size (bk_queue b))) = blk_chain b wr SECTOR
     \<and> rq_type (bm_req (bk_mem b)) = (if wr then REQ_TYPE_WRITE else REQ_TYPE_READ) \<and> rq_sector (bm_req (bk_mem b)) = sector
     \<and> (wr \<longrightarrow> take SECTOR (bm_data (bk_mem b)) = buf)"

definition transferred :: "('d \<Rightarrow> u64 \<Rightarrow> bytes) \<Rightarrow> 'd \<Rightarrow> bool \<Rightarrow> u64 \<Rightarrow> bytes \<Rightarrow> 'd Blk \<Rightarrow> bool" where
  "transferred cont h0 wr sector buf b \<longleftrightarrow> (rq_status (bm_req (bk_mem b)) = 0 \<longrightarrow>
     (if wr then cont (bk_hw b) sector = buf else take SECTOR (bm_data (bk_mem b)) = cont h0 sector))"

definition finished :: "('d \<Rightarrow> u16) \<Rightarrow> u16 \<Rightarrow> 'd Blk \<Rightarrow> bool" where
  "finished seen head b \<longleftrightarrow> rg_used_idx (bm_ring (bk_mem b)) = vq_last_used (bk_queue b) + 1
     \<and> fst (rg_used_ring (bm_ring (bk_mem b)) ! unat (vq_last_used (bk_queue b) mod vq_size (bk_queue b))) = ucast head
     \<and> rg_avail_idx (bm_ring (bk_mem b)) = seen (bk_hw b)"

lemma complete_accepts:
  assumes "own_inv ow" "\<not> ow_broken ow" "unat i < length (ow_pending ow)" "count \<noteq> 0" "ow_pending ow ! unat i = count"
  shows "\<exists>ow'. complete i count None ow = Some (Some (ucast i), ow')"
  using complete_cases [OF assms(1), of i count None] assms(2-) by (auto simp: complete_def Let_def split: bind_splits)

lemma device_idle:
  assumes "device_spec dev seen cont qsize rp dp" "dev h m = (h', m')" "rg_avail_idx (bm_ring m) = seen h"
  shows "m' = m \<and> seen h' = seen h \<and> cont h' = cont h"
  using assms unfolding device_spec_def by blast

lemma device_busy:
  assumes "device_spec dev seen cont qsize rp dp" "dev h m = (h', m')" "ring_ok qsize (bm_ring m)" "rg_avail_idx (bm_ring m) = seen h + 1"
    and "rg_avail_ring (bm_ring m) ! unat (seen h mod qsize) = head"
    and "ring_chain (rg_desc (bm_ring m)) head (unat qsize) =
      [(rp, 16, False), (dp, of_nat SECTOR, rq_type (bm_req m) = REQ_TYPE_READ), (rp + 16, 1, True)]"
  shows "device_works cont h m h' m' \<and>
    (bm_ring m' = bm_ring m \<and> seen h' = seen h \<or> seen h' = seen h + 1 \<and> device_finishes cont qsize head h m h' m')"
  using assms unfolding device_spec_def by blast

lemma step_keeps:
  assumes spec: "device_spec dev seen cont (vq_size (bk_queue b)) (bk_req_phys b) (bk_data_phys b)"
    and s: "sent cont h0 head wr sector buf b"
    and p: "working seen wr sector buf head b \<or> finished seen head b \<and> transferred cont h0 wr sector buf b"
  shows "sent cont h0 head wr sector buf (dev_step dev b) \<and> same_driver b (dev_step dev b) \<and> bk_queue (dev_step dev b) = bk_queue b
    \<and> (working seen wr sector buf head (dev_step dev b)
       \<or> finished seen head (dev_step dev b) \<and> transferred cont h0 wr sector buf (dev_step dev b))"
proof -
  obtain h' m' where d: "dev (bk_hw b) (bk_mem b) = (h', m')" by force
  have b': "dev_step dev b = b\<lparr>bk_hw := h', bk_mem := m'\<rparr>" by (simp add: dev_step_def d)
  have rok: "ring_ok (vq_size (bk_queue b)) (bm_ring (bk_mem b))" using s by (simp add: sent_def blk_shape_def vq_inv_def)
  show ?thesis
  proof (cases "working seen wr sector buf head b")
    case False
    with p have f: "finished seen head b" "transferred cont h0 wr sector buf b" by simp_all
    have "m' = bk_mem b" "seen h' = seen (bk_hw b)" "cont h' = cont (bk_hw b)"
      using device_idle [OF spec d] f(1) by (simp_all add: finished_def)
    then show ?thesis using s f unfolding b' by (simp add: sent_def finished_def transferred_def same_driver_def blk_shape_def)
  next
    case True
    let ?m = "bk_mem b"
    have rd: "rq_type (bm_req ?m) = REQ_TYPE_READ \<longleftrightarrow> \<not> wr" using True by (simp add: working_def REQ_TYPE_READ_def REQ_TYPE_WRITE_def)
    have dev: "device_works cont (bk_hw b) ?m h' m'"
      "bm_ring m' = bm_ring ?m \<and> seen h' = seen (bk_hw b) \<or> seen h' = seen (bk_hw b) + 1 \<and> device_finishes cont (vq_size (bk_queue b)) head (bk_hw b) ?m h' m'"
      using device_busy [OF spec d rok, of head] True by (simp_all add: working_def blk_chain_def rd)
    have len: "length (bm_data m') = 4096" using dev(1) s by (simp add: device_works_def sent_def blk_shape_def)
    have req: "rq_type (bm_req m') = rq_type (bm_req ?m)" "rq_sector (bm_req m') = rq_sector (bm_req ?m)"
    proof -
      have "bm_req m' = (bm_req ?m)\<lparr>rq_status := rq_status (bm_req m')\<rparr>" using dev(1) unfolding device_works_def by blast
      then show "rq_type (bm_req m') = rq_type (bm_req ?m)" "rq_sector (bm_req m') = rq_sector (bm_req ?m)" by (metis BlkReq.select_convs(1,3) BlkReq.surjective BlkReq.update_convs(4))+
    qed
    have ct: "if wr then \<forall>l. l \<noteq> sector \<longrightarrow> cont h' l = cont h0 l else cont h' = cont h0"
      using dev(1) s True rd by (auto simp: device_works_def sent_def working_def)
    have ok': "ring_ok (vq_size (bk_queue b)) (bm_ring m')" using dev(2) rok by (auto simp: ring_ok_def device_finishes_def)
    then have sent': "sent cont h0 head wr sector buf (dev_step dev b)"
      using s len ct unfolding b' by (simp add: sent_def blk_shape_def vq_inv_def)
    have dat: "wr \<Longrightarrow> bm_data m' = bm_data ?m" using dev(1) rd by (simp add: device_works_def)
    from dev(2) show ?thesis
    proof
      assume "bm_ring m' = bm_ring ?m \<and> seen h' = seen (bk_hw b)"
      then have "working seen wr sector buf head (dev_step dev b)"
        using True req dat unfolding b' by (simp add: working_def blk_chain_def)
      then show ?thesis using sent' unfolding b' by (simp add: same_driver_def)
    next
      assume f: "seen h' = seen (bk_hw b) + 1 \<and> device_finishes cont (vq_size (bk_queue b)) head (bk_hw b) ?m h' m'"
      then obtain len where r: "bm_ring m' = (bm_ring ?m)\<lparr>rg_used_ring := (rg_used_ring (bm_ring ?m))
          [unat (rg_used_idx (bm_ring ?m) mod vq_size (bk_queue b)) := (ucast head, len)], rg_used_idx := rg_used_idx (bm_ring ?m) + 1\<rparr>"
        unfolding device_finishes_def by blast
      have slot: "unat (rg_used_idx (bm_ring ?m) mod vq_size (bk_queue b)) < length (rg_used_ring (bm_ring ?m))"
        using slot_less [of "vq_size (bk_queue b)" "rg_used_idx (bm_ring ?m)"] vq_size_pos [of "bk_queue b" "bm_ring ?m"] rok s
        by (simp add: ring_ok_def sent_def blk_shape_def)
      have "finished seen head (dev_step dev b)"
        using True f slot unfolding b' by (simp add: finished_def working_def r)
      moreover have "transferred cont h0 wr sector buf (dev_step dev b)"
        using f True rd s unfolding b' by (auto simp: transferred_def device_finishes_def working_def sent_def split: if_splits)
      ultimately show ?thesis using sent' unfolding b' by (simp add: same_driver_def)
    qed
  qed
qed

text \<open>The request was answered and its descriptors taken back.\<close>

definition reaped :: "('d \<Rightarrow> u16) \<Rightarrow> ('d \<Rightarrow> u64 \<Rightarrow> bytes) \<Rightarrow> 'd \<Rightarrow> bool \<Rightarrow> u64 \<Rightarrow> bytes \<Rightarrow> 'd Blk \<Rightarrow> bool" where
  "reaped seen cont h0 wr sector buf b \<longleftrightarrow> blk_idle seen b \<and> \<not> bk_failed b \<and> transferred cont h0 wr sector buf b
     \<and> (if wr then \<forall>l. l \<noteq> sector \<longrightarrow> cont (bk_hw b) l = cont h0 l else cont (bk_hw b) = cont h0)"

lemma pop_working:
  assumes "working seen wr sector buf head b" "\<not> is_broken (bk_queue b)"
  shows "pop_used 3 (bk_queue b) (bm_ring (bk_mem b)) = Some (None, bk_queue b)"
  using assms by (simp add: pop_used_def pop_used_checked_def working_def is_broken_def)

lemma pop_finished:
  assumes s: "sent cont h0 head wr sector buf b" and f: "finished seen head b" and t: "transferred cont h0 wr sector buf b"
  shows "\<exists>len q. pop_used 3 (bk_queue b) (bm_ring (bk_mem b)) = Some (Some (head, len), q)
    \<and> reaped seen cont h0 wr sector buf (b\<lparr>bk_queue := q\<rparr>) \<and> vq_size q = vq_size (bk_queue b)"
proof -
  let ?q = "bk_queue b" and ?rg = "bm_ring (bk_mem b)"
  have inv: "vq_inv ?q ?rg" and nb: "\<not> ow_broken (vq_ownership ?q)" and oh: "own_heads (vq_ownership ?q) = {head}"
    and pn: "ow_pending (vq_ownership ?q) ! unat head = 3"
    using s by (simp_all add: sent_def blk_shape_def is_broken_def)
  have ow: "own_inv (vq_ownership ?q)" using inv by (simp add: vq_inv_def)
  have uh: "unat (ucast head :: u32) = unat head" using unat_lt_u16 [of head] by (simp add: unsigned_ucast_eq take_bit_nat_eq_self)
  have cc: "(ucast (ucast head :: u32) :: u16) = head" by (rule bit_word_eqI) (simp add: bit_ucast_iff)
  have "head \<in> own_heads (vq_ownership ?q)" by (simp add: oh)
  then have hl: "unat head < length (ow_pending (vq_ownership ?q))" by (simp add: own_heads_def)
  obtain ow' where ow': "complete (ucast head) 3 None (vq_ownership ?q) = Some (Some head, ow')"
    using complete_accepts [OF ow nb, of "ucast head" 3, unfolded uh cc, OF hl _ pn] by auto
  have "fst (rg_used_ring ?rg ! unat (vq_last_used ?q mod vq_size ?q)) = ucast head" using f by (simp add: finished_def)
  then obtain len where u: "rg_used_ring ?rg ! unat (vq_last_used ?q mod vq_size ?q) = (ucast head, len)"
    by (cases "rg_used_ring ?rg ! unat (vq_last_used ?q mod vq_size ?q)") simp
  have slot: "unat (vq_last_used ?q mod vq_size ?q) < length (rg_used_ring ?rg)"
    using slot_less [OF vq_size_pos [OF inv]] inv by (simp add: vq_inv_def ring_ok_def)
  have "\<not> vq_size ?q < 1" using vq_size_pos [OF inv] by (simp add: word_less_nat_alt unat_eq_zero)
  then have pop: "pop_used 3 ?q ?rg = Some (Some (head, len), ?q\<lparr>vq_last_used := vq_last_used ?q + 1, vq_ownership := ow'\<rparr>)"
    using nb f slot u ow' by (simp add: pop_used_def pop_used_checked_def finished_def)
  let ?q' = "?q\<lparr>vq_last_used := vq_last_used ?q + 1, vq_ownership := ow'\<rparr>"
  have "vq_inv ?q' ?rg" and g: "given_back head (vq_ownership ?q) ow'"
    using pop_cases [OF inv, of 3 None, folded pop_used_def, unfolded pop] by simp_all
  then have "blk_idle seen (b\<lparr>bk_queue := ?q'\<rparr>)"
    using s f nb oh by (auto simp: blk_idle_def blk_shape_def sent_def finished_def given_back_def is_broken_def)
  then show ?thesis using pop s t by (simp add: reaped_def sent_def transferred_def)
qed

lemma same_driver_trans: "same_driver b c \<Longrightarrow> same_driver c d \<Longrightarrow> same_driver b d"
  by (simp add: same_driver_def)

lemma wait_outcome:
  assumes spec: "device_spec dev seen cont (vq_size (bk_queue b)) (bk_req_phys b) (bk_data_phys b)"
    and s: "sent cont h0 head wr sector buf b"
    and p: "working seen wr sector buf head b \<or> finished seen head b \<and> transferred cont h0 wr sector buf b"
  shows "\<exists>u b'. wait_used dev 3 t b = Some (u, b') \<and> same_driver b b' \<and>
    (case u of None \<Rightarrow> sent cont h0 head wr sector buf b' | Some (g, _) \<Rightarrow> g = head \<and> reaped seen cont h0 wr sector buf b')"
  using assms
proof (induction t arbitrary: b)
  case 0
  have nb: "\<not> is_broken (bk_queue b)" using 0 by (simp add: sent_def)
  show ?case
  proof (cases "working seen wr sector buf head b")
    case True
    then show ?thesis using pop_working [OF True nb] 0 by (simp add: same_driver_def)
  next
    case False
    with 0(3) obtain len q where "pop_used 3 (bk_queue b) (bm_ring (bk_mem b)) = Some (Some (head, len), q)"
        "reaped seen cont h0 wr sector buf (b\<lparr>bk_queue := q\<rparr>)" "vq_size q = vq_size (bk_queue b)"
      using pop_finished [OF 0(2), of seen] by blast
    then show ?thesis by (simp add: same_driver_def)
  qed
next
  case (Suc t)
  have nb: "\<not> is_broken (bk_queue b)" using Suc.prems by (simp add: sent_def)
  show ?case
  proof (cases "working seen wr sector buf head b")
    case False
    with Suc.prems(3) obtain len q where "pop_used 3 (bk_queue b) (bm_ring (bk_mem b)) = Some (Some (head, len), q)"
        "reaped seen cont h0 wr sector buf (b\<lparr>bk_queue := q\<rparr>)" "vq_size q = vq_size (bk_queue b)"
      using pop_finished [OF Suc.prems(2), of seen] by blast
    then show ?thesis using nb by (simp add: same_driver_def)
  next
    case True
    let ?b = "dev_step dev b"
    have k: "sent cont h0 head wr sector buf ?b" "same_driver b ?b"
      "working seen wr sector buf head ?b \<or> finished seen head ?b \<and> transferred cont h0 wr sector buf ?b"
      using step_keeps [OF Suc.prems] by simp_all
    have "device_spec dev seen cont (vq_size (bk_queue ?b)) (bk_req_phys ?b) (bk_data_phys ?b)"
      using Suc.prems(1) k(2) by (simp add: same_driver_def)
    from Suc.IH [OF this k(1,3)] obtain u b' where w: "wait_used dev 3 t ?b = Some (u, b')" "same_driver ?b b'"
      "case u of None \<Rightarrow> sent cont h0 head wr sector buf b' | Some (g, _) \<Rightarrow> g = head \<and> reaped seen cont h0 wr sector buf b'"
      by blast
    have "wait_used dev 3 (Suc t) b = Some (u, b')" using nb pop_working [OF True nb] w(1) by simp
    then show ?thesis using w same_driver_trans [OF k(2) w(2)] by blast
  qed
qed

section \<open>The driver refines the contract\<close>

text \<open>The disk the file systems see; \<open>os\<close> are the outcomes of the requests to come.\<close>

definition blk_abs :: "('d \<Rightarrow> u64 \<Rightarrow> bytes) \<Rightarrow> 'd Blk \<Rightarrow> outcome list \<Rightarrow> disk" where
  "blk_abs cont b os = \<lparr>dk_capacity = bk_capacity b, dk_data = cont (bk_hw b), dk_outcomes = os, dk_failed = bk_failed b\<rparr>"

text \<open>The state right after the request was published.\<close>

lemma submitted_working:
  assumes idle: "blk_idle seen b" and nf: "\<not> bk_failed b" and len: "length buf = SECTOR"
    and sub: "submit (blk_chain b wr SECTOR) (bk_queue b) (bm_ring (bk_mem b)) = Some (Some head, q, rg)"
    and b1: "b1 = b\<lparr>bk_queue := q, bk_mem := (blk_prepare wr sector buf (bk_mem b))\<lparr>bm_ring := rg\<rparr>\<rparr>"
  shows "sent cont (bk_hw b) head wr sector buf b1 \<and> working seen wr sector buf head b1 \<and> same_driver b b1"
proof -
  let ?q = "bk_queue b" and ?rg = "bm_ring (bk_mem b)" and ?c = "blk_chain b wr SECTOR"
  have inv: "vq_inv ?q ?rg" and l: "length (bm_data (bk_mem b)) = 4096" using idle by (simp_all add: blk_idle_def blk_shape_def)
  have s: "vq_inv q rg" "taken (length ?c) head (vq_ownership ?q) (vq_ownership q)" "ring_chain (rg_desc rg) head (unat (vq_size ?q)) = ?c"
      "q = ?q\<lparr>vq_ownership := vq_ownership q\<rparr>"
      "rg = ?rg\<lparr>rg_desc := rg_desc rg, rg_avail_ring := (rg_avail_ring ?rg)[unat (rg_avail_idx ?rg mod vq_size ?q) := head],
             rg_avail_idx := rg_avail_idx ?rg + 1, rg_avail_flags := 0\<rparr>"
    using submit_cases [OF inv, of ?c, unfolded sub] by auto
  have q: "vq_size q = vq_size ?q" "vq_last_used q = vq_last_used ?q" by (subst s(4), simp)+
  have rg: "rg_avail_idx rg = rg_avail_idx ?rg + 1" "rg_used_idx rg = rg_used_idx ?rg"
    "rg_avail_ring rg = (rg_avail_ring ?rg)[unat (rg_avail_idx ?rg mod vq_size ?q) := head]" by (subst s(5), simp)+
  have c3: "length ?c = 3" by (simp add: blk_chain_def)
  have oh: "own_heads (vq_ownership q) = {head}" "\<not> is_broken q"
    using s(2) idle by (simp_all add: taken_def blk_idle_def is_broken_def)
  have "own_inv (vq_ownership q)" using s(1) by (simp add: vq_inv_def)
  have "length (own_chain (vq_ownership q) head) = 3"
  proof -
    have "length (own_chain (vq_ownership q) head) = min 3 (length (own_free (vq_ownership ?q)))" using s(2) c3 by (simp add: taken_def)
    moreover have "3 \<le> length (own_free (vq_ownership ?q))"
      using sub reserve_cases [of "vq_ownership ?q" "length ?c"] inv c3 by (auto simp: submit_def vq_inv_def split: bind_splits option.splits)
    ultimately show ?thesis by simp
  qed
  then have pn: "ow_pending (vq_ownership q) ! unat head = 3" by (simp add: own_chain_def word_unat_eq_iff)
  have slot: "unat (rg_avail_idx ?rg mod vq_size ?q) < length (rg_avail_ring ?rg)"
    using slot_less [OF vq_size_pos [OF inv]] inv by (simp add: vq_inv_def ring_ok_def)
  have "sent cont (bk_hw b) head wr sector buf b1"
    using s(1) l len oh pn nf unfolding sent_def blk_shape_def b1 by (simp add: blk_prepare_def)
  moreover have "working seen wr sector buf head b1"
    using s(3) idle q rg slot len l unfolding working_def b1
    by (simp add: blk_prepare_def blk_idle_def blk_chain_def put_at_def)
  ultimately show ?thesis using q by (simp add: same_driver_def b1)
qed

text \<open>The contract's step that a finished request is.\<close>

definition contract_step :: "bool \<Rightarrow> u64 \<Rightarrow> bytes \<Rightarrow> disk \<Rightarrow> bool \<times> bytes \<Rightarrow> disk \<Rightarrow> bool" where
  "contract_step wr sector buf d r d' \<longleftrightarrow>
     (if wr then dk_write sector buf d = (fst r, d') else dk_read sector d = (if fst r then Some (snd r) else None, d'))"

lemma finish_refines:
  assumes w: "same_driver b b'" "case u of None \<Rightarrow> sent cont (bk_hw b) head wr sector buf b'
      | Some (g, _) \<Rightarrow> g = head \<and> reaped seen cont (bk_hw b) wr sector buf b'"
    and len: "length buf = SECTOR" and cl: "\<And>h l. length (cont h l) = SECTOR"
    and nf: "\<not> bk_failed b" and cap: "sector < bk_capacity b"
    and fin: "blk_finish wr buf head u b' = (r, b'')"
  shows "\<exists>out. outcome_ok out \<and> blk_inv seen b'' \<and> same_driver b b'' \<and>
    (\<forall>rest. contract_step wr sector buf (blk_abs cont b (out # rest)) r (blk_abs cont b'' rest))"
proof -
  let ?x = "if wr then Some (cont (bk_hw b') sector) else None"
  have xo: "outcome_ok (Fault p ?x)" "outcome_ok Done" for p using cl by (simp_all add: outcome_ok_def)
  have ncap: "\<not> bk_capacity b \<le> sector" using cap by simp
  have caps: "bk_capacity b' = bk_capacity b" using w(1) by (simp add: same_driver_def)
  have ct: "wr \<Longrightarrow> cont (bk_hw b') = (cont (bk_hw b))(sector := cont (bk_hw b') sector)" "\<not> wr \<Longrightarrow> cont (bk_hw b') = cont (bk_hw b)"
  proof -
    have "if wr then \<forall>l. l \<noteq> sector \<longrightarrow> cont (bk_hw b') l = cont (bk_hw b) l else cont (bk_hw b') = cont (bk_hw b)"
      using w(2) by (cases u) (auto simp: sent_def reaped_def)
    then show "wr \<Longrightarrow> cont (bk_hw b') = (cont (bk_hw b))(sector := cont (bk_hw b') sector)" "\<not> wr \<Longrightarrow> cont (bk_hw b') = cont (bk_hw b)"
      by (auto simp: fun_eq_iff)
  qed
  have fault: "contract_step wr sector buf (blk_abs cont b (Fault p ?x # rest)) (False, buf)
      \<lparr>dk_capacity = bk_capacity b, dk_data = cont (bk_hw b'), dk_outcomes = rest, dk_failed = p\<rparr>" for p rest
    using nf ncap ct by (cases wr) (simp_all add: contract_step_def blk_abs_def dk_write_def dk_read_def dk_next_def dk_sent_def)
  show ?thesis
  proof (cases u)
    case None
    then have b'': "r = (False, buf)" "b'' = b'\<lparr>bk_failed := True\<rparr>" using fin by (simp_all add: blk_finish_def)
    show ?thesis
    proof (intro exI conjI)
      show "outcome_ok (Fault True ?x)" by (rule xo)
      show "blk_inv seen b''" by (simp add: blk_inv_def b'')
      show "same_driver b b''" using w(1) by (simp add: same_driver_def b'')
      show "\<forall>rest. contract_step wr sector buf (blk_abs cont b (Fault True ?x # rest)) r (blk_abs cont b'' rest)"
        using fault [of True] caps by (simp add: b'' blk_abs_def)
    qed
  next
    case (Some x)
    obtain len where x: "x = (head, len)" and rp: "reaped seen cont (bk_hw b) wr sector buf b'" using w(2) Some by (cases x) auto
    have inv: "blk_inv seen b'" "\<not> bk_failed b'" using rp by (simp_all add: blk_inv_def reaped_def)
    show ?thesis
    proof (cases "rq_status (bm_req (bk_mem b')) = 0")
      case False
      then have b'': "r = (False, buf)" "b'' = b'" using fin Some x by (simp_all add: blk_finish_def)
      show ?thesis
      proof (intro exI conjI)
        show "outcome_ok (Fault False ?x)" by (rule xo)
        show "\<forall>rest. contract_step wr sector buf (blk_abs cont b (Fault False ?x # rest)) r (blk_abs cont b'' rest)"
          using fault [of False] caps inv(2) by (simp add: b'' blk_abs_def)
      qed (use inv w(1) b'' in simp_all)
    next
      case True
      then have b'': "r = (True, if wr then buf else take (length buf) (bm_data (bk_mem b')))" "b'' = b'" using fin Some x by (simp_all add: blk_finish_def)
      have t: "wr \<Longrightarrow> cont (bk_hw b') sector = buf" "\<not> wr \<Longrightarrow> take SECTOR (bm_data (bk_mem b')) = cont (bk_hw b) sector"
        using rp True by (simp_all add: reaped_def transferred_def)
      have "contract_step wr sector buf (blk_abs cont b (Done # rest)) r (blk_abs cont b'' rest)" for rest
        using nf ct t caps inv(2) len b'' ncap
        by (cases wr) (simp_all add: contract_step_def blk_abs_def dk_write_def dk_read_def dk_next_def dk_sent_def)
      then show ?thesis using xo(2) inv w(1) b'' by blast
    qed
  qed
qed

lemma request_refines:
  assumes spec: "device_spec dev seen cont (vq_size (bk_queue b)) (bk_req_phys b) (bk_data_phys b)"
    and inv: "blk_inv seen b" and len: "length buf = SECTOR" and lba: "sector \<noteq> - 1"
  shows "\<exists>r b' os. do_request dev wr sector buf b = Some (r, b') \<and> blk_inv seen b' \<and> same_driver b b' \<and> list_all outcome_ok os
    \<and> (\<forall>rest. contract_step wr sector buf (blk_abs cont b (os @ rest)) r (blk_abs cont b' rest))"
proof (cases "bk_failed b \<or> bk_capacity b \<le> sector")
  case True
  have sec: "bk_capacity b < sector + 1 \<longleftrightarrow> bk_capacity b \<le> sector" using less_inc_iff [OF lba] .
  have "do_request dev wr sector buf b = Some ((False, buf), b)"
    using True len sec by (auto simp: do_request_def Let_def MAX_SECTORS_PER_REQ_def)
  moreover have "contract_step wr sector buf (blk_abs cont b ([] @ rest)) (False, buf) (blk_abs cont b rest)" for rest
    using True by (auto simp: contract_step_def blk_abs_def dk_write_def dk_read_def)
  ultimately show ?thesis using inv by (intro exI [of _ "(False, buf)"] exI [of _ b] exI [of _ "[]"]) (simp add: same_driver_def)
next
  case False
  then have nf: "\<not> bk_failed b" and cap: "sector < bk_capacity b" and idle: "blk_idle seen b" using inv by (simp_all add: blk_inv_def not_le)
  have ncap: "\<not> bk_capacity b \<le> sector" using cap by simp
  have sec: "\<not> bk_capacity b < sector + 1" using cap less_inc_iff [OF lba] by (simp add: not_le)
  let ?m = "blk_prepare wr sector buf (bk_mem b)" and ?c = "blk_chain b wr SECTOR"
  have rm: "bm_ring ?m = bm_ring (bk_mem b)" by (simp add: blk_prepare_def)
  have vi: "vq_inv (bk_queue b) (bm_ring (bk_mem b))" using idle by (simp add: blk_idle_def blk_shape_def)
  have cl: "length (cont h l) = SECTOR" for h l using spec unfolding device_spec_def by blast
  obtain x q rg where sub: "submit ?c (bk_queue b) (bm_ring (bk_mem b)) = Some (x, q, rg)"
      and none: "x = None \<longrightarrow> q = bk_queue b \<and> rg = bm_ring (bk_mem b)"
    using submit_cases [OF vi, of ?c] by (auto split: option.splits)
  let ?b = "b\<lparr>bk_queue := q, bk_mem := ?m\<lparr>bm_ring := rg\<rparr>\<rparr>"
  have req: "do_request dev wr sector buf b = (case x of None \<Rightarrow> Some ((False, buf), ?b)
     | Some head \<Rightarrow> wait_used dev 3 1000 (dev_step dev ?b) \<bind> (\<lambda>(u, b). Some (blk_finish wr buf head u b)))"
    using nf len sec sub unfolding do_request_def Let_def rm by (simp add: MAX_SECTORS_PER_REQ_def rm)
  show ?thesis
  proof (cases x)
    case None
    then have b': "do_request dev wr sector buf b = Some ((False, buf), ?b)" "q = bk_queue b" "rg = bm_ring (bk_mem b)" using req none by simp_all
    have "length (bm_data ?m) = 4096" using idle len by (simp add: blk_prepare_def blk_idle_def blk_shape_def)
    then have "blk_inv seen ?b" using idle b' by (simp add: blk_inv_def blk_idle_def blk_shape_def)
    moreover have "contract_step wr sector buf (blk_abs cont b ([Fault False None] @ rest)) (False, buf) (blk_abs cont ?b rest)" for rest
      using nf ncap by (simp add: contract_step_def blk_abs_def dk_write_def dk_read_def dk_next_def dk_sent_def)
    ultimately show ?thesis using b'
      by (intro exI [of _ "(False, buf)"] exI [of _ ?b] exI [of _ "[Fault False None]"]) (simp add: same_driver_def outcome_ok_def)
  next
    case (Some head)
    note sw = submitted_working [OF idle nf len sub [unfolded Some], of ?b sector, OF refl, of cont]
    then have spec1: "device_spec dev seen cont (vq_size (bk_queue ?b)) (bk_req_phys ?b) (bk_data_phys ?b)" using spec by (simp add: same_driver_def)
    let ?b2 = "dev_step dev ?b"
    have k: "sent cont (bk_hw b) head wr sector buf ?b2" "same_driver ?b ?b2"
      "working seen wr sector buf head ?b2 \<or> finished seen head ?b2 \<and> transferred cont (bk_hw b) wr sector buf ?b2"
      using step_keeps [OF spec1, of "bk_hw b" head wr sector buf] sw by simp_all
    have spec2: "device_spec dev seen cont (vq_size (bk_queue ?b2)) (bk_req_phys ?b2) (bk_data_phys ?b2)" using spec1 k(2) unfolding same_driver_def by simp
    obtain u b' where w: "wait_used dev 3 1000 ?b2 = Some (u, b')" "same_driver ?b2 b'"
        "case u of None \<Rightarrow> sent cont (bk_hw b) head wr sector buf b' | Some (g, _) \<Rightarrow> g = head \<and> reaped seen cont (bk_hw b) wr sector buf b'"
      using wait_outcome [OF spec2 k(1,3), of 1000] by blast
    have sd: "same_driver b b'" using sw k(2) w(2) by (meson same_driver_trans)
    obtain r b'' where f: "blk_finish wr buf head u b' = (r, b'')" by (metis surj_pair)
    have res: "do_request dev wr sector buf b = Some (r, b'')" unfolding req Some option.case w(1) by (simp add: f)
    obtain out where "outcome_ok out" "blk_inv seen b''" "same_driver b b''"
        "\<forall>rest. contract_step wr sector buf (blk_abs cont b (out # rest)) r (blk_abs cont b'' rest)"
      using finish_refines [OF sd w(3) len cl nf cap f] by blast
    then show ?thesis using res by (intro exI [of _ r] exI [of _ b''] exI [of _ "[out]"]) simp
  qed
qed

lemma blk_init_inv:
  assumes "blk_init queue_max config hw fa = Some (Some b, fa')" and "seen hw = 0"
  shows "blk_idle seen b \<and> \<not> bk_failed b \<and> vq_size (bk_queue b) = queue_max"
proof -
  obtain q rg fa1 where q: "virtqueue_new queue_max fa = Some ((q, rg), fa1)" and b: "bk_queue b = q" "bm_ring (bk_mem b) = rg"
    "bm_data (bk_mem b) = replicate 4096 0" "\<not> bk_failed b" "bk_hw b = hw"
    using assms(1) by (auto simp: blk_init_def split: if_splits bind_splits)
  have "\<not> is_broken q" using ownership_new_inv(4) [OF virtqueue_new_inv(6) [OF q]] by (simp add: is_broken_def)
  then show ?thesis using virtqueue_new_inv [OF q] b assms(2) by (simp add: blk_idle_def blk_shape_def ring_zeroed_def)
qed

text \<open>The requests of the file systems: one sector each.\<close>

datatype blk_call = BlkRead u64 | BlkWrite u64 bytes

fun call_ok :: "blk_call \<Rightarrow> bool" where
  "call_ok (BlkRead lba) = (lba \<noteq> - 1)"
| "call_ok (BlkWrite lba buf) = (lba \<noteq> - 1 \<and> length buf = SECTOR)"

fun blk_exec :: "'d device \<Rightarrow> blk_call \<Rightarrow> 'd Blk \<Rightarrow> (bytes option \<times> 'd Blk) option" where
  "blk_exec dev (BlkRead lba) b =
     map_option (\<lambda>((ok, buf), b'). (if ok then Some buf else None, b')) (do_request dev False lba (replicate SECTOR 0) b)"
| "blk_exec dev (BlkWrite lba buf) b =
     map_option (\<lambda>((ok, _), b'). (if ok then Some [] else None, b')) (do_request dev True lba buf b)"

fun blk_run :: "'d device \<Rightarrow> blk_call list \<Rightarrow> 'd Blk \<Rightarrow> (bytes option list \<times> 'd Blk) option" where
  "blk_run dev [] b = Some ([], b)"
| "blk_run dev (c # cs) b = do { (r, b) \<leftarrow> blk_exec dev c b; (rs, b) \<leftarrow> blk_run dev cs b; Some (r # rs, b) }"

fun dk_exec :: "blk_call \<Rightarrow> disk \<Rightarrow> bytes option \<times> disk" where
  "dk_exec (BlkRead lba) d = dk_read lba d"
| "dk_exec (BlkWrite lba buf) d = (let (ok, d') = dk_write lba buf d in (if ok then Some [] else None, d'))"

fun dk_run :: "blk_call list \<Rightarrow> disk \<Rightarrow> bytes option list \<times> disk" where
  "dk_run [] d = ([], d)"
| "dk_run (c # cs) d = (let (r, d) = dk_exec c d; (rs, d) = dk_run cs d in (r # rs, d))"

lemma exec_refines:
  assumes "device_spec dev seen cont (vq_size (bk_queue b)) (bk_req_phys b) (bk_data_phys b)" and "blk_inv seen b" and "call_ok c"
  shows "\<exists>r b' os. blk_exec dev c b = Some (r, b') \<and> blk_inv seen b' \<and> same_driver b b' \<and> list_all outcome_ok os
    \<and> (\<forall>rest. dk_exec c (blk_abs cont b (os @ rest)) = (r, blk_abs cont b' rest))"
proof (cases c)
  case (BlkRead lba)
  then have "lba \<noteq> - 1" using assms(3) by simp
  from request_refines [OF assms(1,2) length_replicate this, of False 0]
  obtain r b' os where d: "do_request dev False lba (replicate SECTOR 0) b = Some (r, b')" "blk_inv seen b'" "same_driver b b'"
      "list_all outcome_ok os" "\<forall>rest. contract_step False lba (replicate SECTOR 0) (blk_abs cont b (os @ rest)) r (blk_abs cont b' rest)"
    by (elim exE conjE)
  obtain ok buf where r: "r = (ok, buf)" by (cases r)
  show ?thesis using d unfolding BlkRead r
    by (intro exI [of _ "if ok then Some buf else None"] exI [of _ b'] exI [of _ os]) (simp add: contract_step_def)
next
  case (BlkWrite lba data)
  then have "lba \<noteq> - 1" "length data = SECTOR" using assms(3) by simp_all
  from request_refines [OF assms(1,2) this(2,1), of True]
  obtain r b' os where d: "do_request dev True lba data b = Some (r, b')" "blk_inv seen b'" "same_driver b b'"
      "list_all outcome_ok os" "\<forall>rest. contract_step True lba data (blk_abs cont b (os @ rest)) r (blk_abs cont b' rest)"
    by (elim exE conjE)
  obtain ok buf where r: "r = (ok, buf)" by (cases r)
  show ?thesis using d unfolding BlkWrite r
    by (intro exI [of _ "if ok then Some [] else None"] exI [of _ b'] exI [of _ os]) (simp add: contract_step_def)
qed

text \<open>
  C27. The block driver refines the device contract the file systems are verified against. For any
  sequence of single-sector requests to a device that obeys the virtio specification, however slowly
  and with whatever errors, no request panics, and there are outcomes (done, failed, poisoned) for
  which the contract gives the same results and ends in the disk that the device then holds.
\<close>

theorem blk_refines_contract:
  assumes "device_spec dev seen cont (vq_size (bk_queue b)) (bk_req_phys b) (bk_data_phys b)" and "blk_inv seen b" and "list_all call_ok calls"
  shows "\<exists>rs b' os. blk_run dev calls b = Some (rs, b') \<and> list_all outcome_ok os \<and> blk_inv seen b'
    \<and> dk_run calls (blk_abs cont b os) = (rs, blk_abs cont b' [])"
proof -
  have "\<exists>rs b' os. blk_run dev calls b = Some (rs, b') \<and> list_all outcome_ok os \<and> blk_inv seen b'
    \<and> (\<forall>rest. dk_run calls (blk_abs cont b (os @ rest)) = (rs, blk_abs cont b' rest))"
    using assms
  proof (induction calls arbitrary: b)
    case Nil
    then show ?case by (intro exI [of _ "[]"] exI [of _ b]) simp
  next
    case (Cons c cs)
    then obtain r b1 os where c: "blk_exec dev c b = Some (r, b1)" "blk_inv seen b1" "same_driver b b1" "list_all outcome_ok os"
        "\<forall>rest. dk_exec c (blk_abs cont b (os @ rest)) = (r, blk_abs cont b1 rest)"
      using exec_refines [OF Cons.prems(1,2), of c] by auto
    have "device_spec dev seen cont (vq_size (bk_queue b1)) (bk_req_phys b1) (bk_data_phys b1)" using Cons.prems(1) c(3) unfolding same_driver_def by simp
    then obtain rs b' os' where cs: "blk_run dev cs b1 = Some (rs, b')" "list_all outcome_ok os'" "blk_inv seen b'"
        "\<forall>rest. dk_run cs (blk_abs cont b1 (os' @ rest)) = (rs, blk_abs cont b' rest)"
      using Cons.IH [of b1] c(2) Cons.prems(3) by auto
    have "dk_run (c # cs) (blk_abs cont b ((os @ os') @ rest)) = (r # rs, blk_abs cont b' rest)" for rest
      using c(5) cs(4) by (simp add: append_assoc)
    then show ?case using c cs by (intro exI [of _ "r # rs"] exI [of _ b'] exI [of _ "os @ os'"]) simp
  qed
  then obtain rs b' os where r: "blk_run dev calls b = Some (rs, b')" "list_all outcome_ok os" "blk_inv seen b'"
      and d: "\<forall>rest. dk_run calls (blk_abs cont b (os @ rest)) = (rs, blk_abs cont b' rest)"
    by (elim exE conjE)
  from d have "dk_run calls (blk_abs cont b (os @ [])) = (rs, blk_abs cont b' [])" by (rule spec)
  then show ?thesis using r by (intro exI [of _ rs] exI [of _ b'] exI [of _ os]) simp
qed

text \<open>A device that answers at once, with a queue of four entries and sectors padded to their size.\<close>

type_synonym demo_hw = "u16 \<times> (u64 \<Rightarrow> bytes)"

definition demo_cont :: "demo_hw \<Rightarrow> u64 \<Rightarrow> bytes" where
  "demo_cont h l = take SECTOR (snd h l @ replicate SECTOR 0)"

definition demo_answer :: "demo_hw \<Rightarrow> blk_mem \<Rightarrow> blk_mem" where
  "demo_answer h m = m\<lparr>bm_ring := (bm_ring m)\<lparr>rg_used_ring := (rg_used_ring (bm_ring m))
        [unat (rg_used_idx (bm_ring m) mod 4) := (ucast (rg_avail_ring (bm_ring m) ! unat (fst h mod 4)), 0)],
        rg_used_idx := rg_used_idx (bm_ring m) + 1\<rparr>,
     bm_req := (bm_req m)\<lparr>rq_status := 0\<rparr>,
     bm_data := (if rq_type (bm_req m) = REQ_TYPE_READ then put_at 0 (demo_cont h (rq_sector (bm_req m))) (bm_data m) else bm_data m)\<rparr>"

definition demo_dev :: "demo_hw device" where
  "demo_dev h m =
     (if rg_avail_idx (bm_ring m) \<noteq> fst h + 1 \<or> length (bm_data m) < SECTOR then (h, m)
      else ((fst h + 1, if rq_type (bm_req m) = REQ_TYPE_READ then snd h else (snd h)(rq_sector (bm_req m) := take SECTOR (bm_data m))),
            demo_answer h m))"

lemma demo_dev_spec: "device_spec demo_dev fst demo_cont 4 rp dp"
  unfolding device_spec_def
proof (intro conjI allI impI)
  fix h :: demo_hw and l show "length (demo_cont h l) = SECTOR" by (simp add: demo_cont_def)
next
  fix h h' :: demo_hw and m m' assume "demo_dev h m = (h', m')" "rg_avail_idx (bm_ring m) = fst h"
  then show "m' = m" "fst h' = fst h" "demo_cont h' = demo_cont h" by (simp_all add: demo_dev_def)
next
  fix h h' :: demo_hw and m m' head
  assume d: "demo_dev h m = (h', m')" and a: "rg_avail_idx (bm_ring m) = fst h + 1" and hd: "rg_avail_ring (bm_ring m) ! unat (fst h mod 4) = head"
  have len: "length (demo_cont h l) = SECTOR" for l by (simp add: demo_cont_def)
  show "device_works demo_cont h m h' m'"
    using d a len by (auto simp: demo_dev_def device_works_def demo_answer_def demo_cont_def fun_eq_iff split: if_splits)
  show "bm_ring m' = bm_ring m \<and> fst h' = fst h \<or> fst h' = fst h + 1 \<and> device_finishes demo_cont 4 head h m h' m'"
  proof (cases "length (bm_data m) < SECTOR")
    case True
    then show ?thesis using d by (simp add: demo_dev_def)
  next
    case False
    then have "fst h' = fst h + 1" and m': "m' = demo_answer h m"
        and h': "rq_type (bm_req m) \<noteq> REQ_TYPE_READ \<Longrightarrow> demo_cont h' (rq_sector (bm_req m)) = take SECTOR (bm_data m)"
      using d a by (auto simp: demo_dev_def demo_cont_def split: if_splits)
    moreover have "take SECTOR (put_at 0 (demo_cont h l) (bm_data m)) = demo_cont h l" for l using len [of l] by (simp add: put_at_def)
    ultimately show ?thesis using hd by (simp add: device_finishes_def demo_answer_def) (rule exI, rule refl)
  qed
qed

definition demo_blk :: "Ownership \<Rightarrow> demo_hw Blk" where
  "demo_blk ow = \<lparr>bk_queue = \<lparr>vq_size = 4, vq_ownership = ow, vq_last_used = 0, vq_ring_phys = 0x8000, vq_avail_offset = 64, vq_used_offset = 0x1000\<rparr>,
     bk_req_phys = 0xa000, bk_data_phys = 0xb000, bk_capacity = 16, bk_failed = False,
     bk_mem = \<lparr>bm_ring = ring_zeroed 4, bm_req = \<lparr>rq_type = 0, rq_reserved = 0, rq_sector = 0, rq_status = 0\<rparr>, bm_data = replicate 4096 0\<rparr>,
     bk_hw = (0, \<lambda>_. [])\<rparr>"

lemma demo_blk_inv:
  assumes "ownership_new 4 = Some ow"
  shows "blk_inv fst (demo_blk ow)"
  using ownership_new_inv [OF assms]
  by (simp add: blk_inv_def blk_idle_def blk_shape_def demo_blk_def vq_inv_def ring_ok_def ring_zeroed_def is_broken_def)

theorem blk_refines_contract_witness:
  "\<exists>ow rs b' os. ownership_new 4 = Some ow \<and> blk_run demo_dev [BlkWrite 3 (replicate SECTOR 7), BlkRead 3] (demo_blk ow) = Some (rs, b')
     \<and> dk_run [BlkWrite 3 (replicate SECTOR 7), BlkRead 3] (blk_abs demo_cont (demo_blk ow) os) = (rs, blk_abs demo_cont b' [])"
proof -
  obtain ow where ow: "ownership_new 4 = Some ow" by (auto simp: ownership_new_def)
  have s: "device_spec demo_dev fst demo_cont (vq_size (bk_queue (demo_blk ow))) (bk_req_phys (demo_blk ow)) (bk_data_phys (demo_blk ow))"
    using demo_dev_spec by (simp add: demo_blk_def)
  have "list_all call_ok [BlkWrite 3 (replicate SECTOR 7), BlkRead 3]" by simp
  from blk_refines_contract [OF s demo_blk_inv [OF ow] this] ow show ?thesis by blast
qed

end
