(* ===== verification/Spec2Isabelle.thy ===== *)
theory Spec2Isabelle
  imports Sched_Theorems Fs Virtio_Blk
begin

text \<open>
  A verification library of MMURTL/RS, a message-passing multitasking kernel in Rust for amd64 and
  arm64. File names below are relative to the crate, so \<open>src/fs/fat.rs\<close> is the FAT driver.

  \<^bold>\<open>The program.\<close> Tasks are scheduled preemptively on several CPUs by one scheduler behind a lock and
  talk to each other with blocking request/reply messages (\<open>src/scheduler\<close>). Physical memory comes
  from a bitmap allocator that never hands out old contents (\<open>src/memory/frame_allocator.rs\<close>). Storage
  is a virtio block device (\<open>src/virtio\<close>), whose rings live in frames of that allocator, with a FAT and
  an exFAT driver on top (\<open>src/fs\<close>), reached by the shell and the program loader through one interface
  that dispatches to whichever was mounted.

  \<^bold>\<open>How code is modelled.\<close> A struct is a record, an enum a datatype, an integer a word of its width or a
  \<open>nat\<close> where the code cannot leave the range; arithmetic wraps, as in the release profile the kernel
  is built with. A method on \<open>&mut self\<close> is a function on the state. A panic (index out of range, failed
  assertion, \<open>expect\<close>) is \<open>None\<close>, so that \<open>= Some\<close> in a theorem says that the code does not panic;
  \<open>Result\<close> is a sum with \<open>Err\<close> and \<open>Ok\<close>. \<open>Kernel_Prelude\<close> has the state-and-result monad used by the
  drivers (\<open>andThen\<close> is the \<open>?\<close> operator, \<open>attempt\<close> inspects a result, \<open>for_each\<close> is a loop that stops at
  the first error), its Hoare triples, little-endian integers, byte ranges, bitmaps and list searches.
  Definitions are executable; inductive predicates describe reachability only.

  \<^bold>\<open>Scheduler and IPC.\<close>
  \<^item> \<open>Rqb\<close> is \<open>src/scheduler/rqb.rs\<close>: status codes, the request block and its accessors.
  \<^item> \<open>Nospec\<close> is \<open>src/arch/amd64/nospec.rs\<close> and \<open>src/memory/user_bounds.rs\<close>: branch-free bounds masks
    agree with the bounds checks.
  \<^item> \<open>Scheduler\<close> is \<open>src/scheduler/mod.rs\<close> and \<open>src/scheduler/task.rs\<close>: the scheduler state, one function
    per method, with the effects on the hardware as a log of events.
  \<^item> \<open>Sched_Inv\<close> and \<open>Sched_Ipc\<close> describe what each method does to the tasks and CPUs and prove the
    invariants; \<open>Sched_System\<close> is the transition system in which every critical section is a step, so
    that ticks and other CPUs interleave with the halves of a blocking call; \<open>Sched_Theorems\<close> has the
    properties: a task runs on one CPU at most, replies are not lost, every waiter has someone who can
    wake it, waiting for the CPU is bounded, nothing panics, exited tasks are reaped once, messages
    arrive unchanged, exits abort the waiters, and each error is returned exactly when documented.

  \<^bold>\<open>Memory.\<close> \<open>Frame_Allocator\<close> has the two bitmaps, the placement of the allocator's own memory, single
  and contiguous allocation, release and scrubbing, over RAM as a function from word addresses. The
  locale \<open>frame_pool\<close> is what users of single frames rely on.

  \<^bold>\<open>Block device.\<close>
  \<^item> \<open>Block_Device\<close> is the contract of the block driver: sectors, and requests whose outcomes (done,
    failed, poisoned) are given by a list in the state, so that theorems hold for all fault sequences.
  \<^item> \<open>Virtqueue\<close> is \<open>src/virtio/mod.rs\<close> and \<open>src/virtio/ownership.rs\<close>: the ring memory may be changed
    arbitrarily by the device; free descriptors and chains in flight still partition the table. The
    rings lie disjoint in zeroed frames of the allocator.
  \<^item> \<open>Virtio_Blk\<close> is \<open>src/virtio/blk.rs\<close>. The device is a parameter \<open>dev\<close> with the specification
    \<open>device_spec\<close>; the poll keeps its bound of 1000 rounds, and the driver refines \<open>Block_Device\<close> for
    every sequence of requests.

  \<^bold>\<open>FAT driver\<close> (\<open>src/fs/fat.rs\<close>).
  \<^item> \<open>Fat_Table\<close>, \<open>Fat_Names\<close>, \<open>Fat_Volume\<close> and \<open>Fat_Mount\<close> hold the definitions: table entries and their
    copies on disk, FSInfo hints, chains, allocation; long and short names, directory entries; file and
    directory operations; discovery on the whole device, in MBR and in GPT partitions, and the public
    calls. Case folding of Unicode is the parameter \<open>unicode\<close>, since the tables are in Rust's library.
  \<^item> \<open>Fat_Alloc\<close> and \<open>Fat_Chain\<close> prove the table operations, \<open>Fat_Entries\<close> the directory entries,
    \<open>Fat_Files\<close> and \<open>Fat_Ops\<close> what is on disk after an operation, \<open>Fat_Create\<close> creation and path lookup,
    \<open>Fat_Safety\<close> and \<open>Fat_System\<close> that nothing panics and the volume stays consistent under faults.
    \<open>Fat_Theorems\<close> has the properties, with a small FAT12 volume as the input of their witnesses.

  \<^bold>\<open>exFAT driver\<close> (\<open>src/fs/exfat.rs\<close>). \<open>Byte_Slots\<close> has the 32-byte directory slots shared with FAT.
  \<open>Exfat\<close> has all operations, with their rollbacks, and the boot demo as the calls it makes.
  \<open>Exfat_Entries\<close> shows that an entry set parses back to what it was built from, and \<open>Exfat_Safety\<close> that
  no operation panics for any disk contents and faults.

  \<^bold>\<open>File interface\<close> (\<open>src/fs/mod.rs\<close>). \<open>Fs\<close> has the boot-time choice and the dispatch. The locale
  \<open>file_driver\<close> is the contract of a driver, interpreted on FAT, on exFAT and on the dispatcher.

  \<^bold>\<open>Bounds and fuel.\<close> Loops over data are structural recursion. The walk of a FAT chain stops after as
  many clusters as the caller allows, and the exFAT walk after \<open>cluster_count + 1\<close> clusters, as in the
  code. \<open>ex_grow\<close> has fuel \<open>length es + 1\<close>: every round adds at least one cluster of 512 bytes, and
  running out of fuel is \<open>None\<close>, which the safety theorems exclude. The search for the allocator's
  header is a \<open>function\<close> whose start address grows.

  \<^bold>\<open>Not modelled.\<close> Exhaustion of the kernel heap (an allocation failure aborts the kernel), memory
  fences and the order of accesses by other CPUs outside of the locks, console output, and the
  components listed as not modelled in the manifest: the slab heap, guarded stacks and user copies
  work on untyped memory and page tables; the architecture ports, interrupt controllers, transports,
  USB and the security mitigations consist of privileged instructions, assembly and device registers;
  system calls, shell and demonstration programs connect these with the parts modelled here.
\<close>

end
